(* ===== verification/Prelude.thy ===== *)
theory Prelude
  imports "HOL-Library.Word" "HOL-Library.Code_Target_Nat"
begin

text \<open>
  The vocabulary shared by every component: bytes and machine words, \<open>size_t\<close> arithmetic with
  its wrap-around written out, big-endian numbers, \<open>memmove\<close> on a byte list, and the allocator.

  A \<open>size_t\<close> (64 bits on the targets of this tree) is a \<open>nat\<close>; where the C code tests a sum for
  overflow the sum is written \<open>size_add\<close>.  An object of C is at most \<open>size_max\<close> bytes long.

  \<open>OPENSSL_malloc\<close> and \<open>OPENSSL_realloc\<close> may fail at any call.  A component that allocates carries
  a \<open>heap\<close>: the outcomes of its coming calls in order.  When the list is used up every further
  call succeeds, so a terminating run of the C code has such a list, and \<open>[]\<close> is the heap that
  never fails.
\<close>

unbundle bit_operations_syntax

named_theorems size_simps \<comment> \<open>the definitions of the \<open>size_t\<close> arithmetic\<close>
named_theorems be_simps \<comment> \<open>facts about big-endian numbers\<close>

section \<open>Words and sizes\<close>

type_synonym byte = "8 word"
type_synonym u16 = "16 word"
type_synonym u32 = "32 word"
type_synonym u64 = "64 word"

definition size_bound :: nat where
  "size_bound = 2 ^ 64"

definition size_max :: nat where
  "size_max = 2 ^ 64 - 1"

definition INT_MAX :: nat where
  "INT_MAX = 2 ^ 31 - 1"

definition size_add :: "nat \<Rightarrow> nat \<Rightarrow> nat" where
  "size_add a b = (a + b) mod 2 ^ 64"

definition size_mul :: "nat \<Rightarrow> nat \<Rightarrow> nat" where
  "size_mul a b = (a * b) mod 2 ^ 64"

lemmas [size_simps] = size_bound_def size_max_def INT_MAX_def size_add_def size_mul_def

lemma size_add_exact [simp]: "a + b < 2 ^ 64 \<Longrightarrow> size_add a b = a + b"
  by (simp add: size_add_def)

lemma size_add_overflow_iff:
  assumes "a < 2 ^ 64" and "b < 2 ^ 64"
  shows "size_add a b < a \<longleftrightarrow> 2 ^ 64 \<le> a + b"
proof (cases "a + b < 2 ^ 64")
  case True
  then show ?thesis by simp
next
  case False
  then have "(a + b) mod 2 ^ 64 = a + b - 2 ^ 64"
    using assms by (simp add: le_mod_geq)
  with False assms show ?thesis by (simp add: size_add_def)
qed

lemma size_add_bound [simp]: "size_add a b < 2 ^ 64"
  by (simp add: size_add_def)

lemma size_add_le: "size_add a b \<le> a + b"
  by (simp add: size_add_def)

lemma unat_ucast_up [simp]:
  fixes w :: "'a::len word"
  assumes "LENGTH('a) \<le> LENGTH('b::len)"
  shows "unat (ucast w :: 'b word) = unat w"
proof -
  have "unat w < 2 ^ LENGTH('a)"
    by (rule unsigned_less)
  also have "\<dots> \<le> 2 ^ LENGTH('b)"
    using assms by (intro power_increasing) auto
  finally show ?thesis
    by (simp add: unsigned_ucast_eq take_bit_nat_eq_self)
qed

lemma ucast_ucast_up:
  fixes w :: "'a::len word"
  assumes "LENGTH('a) \<le> LENGTH('b::len)"
  shows "ucast (ucast w :: 'b word) = w"
  using assms by (intro bit_word_eqI) (auto simp: bit_simps)

lemma ucast_up_inject:
  fixes w :: "'a::len word"
  assumes "LENGTH('a) \<le> LENGTH('b::len)"
  shows "(ucast w :: 'b word) = ucast v \<longleftrightarrow> w = v"
  using ucast_ucast_up [OF assms] by metis

lemma unat_drop_bit_div: "unat (drop_bit m (w :: 'a::len word)) = unat w div 2 ^ m"
proof -
  have "unat (drop_bit m w) = drop_bit m (unat w)"
    by (rule bit_eqI) (simp add: bit_simps)
  then show ?thesis by (simp only: drop_bit_eq_div)
qed

lemma u64_bound: "unat (v :: u64) < 18446744073709551616"
  using unsigned_less [of v, where 'a = nat] by simp

text \<open>Facts about one byte, or one small number, are decided by running through all of them.\<close>

lemma all_bytesI:
  assumes "list_all (\<lambda>i. P (word_of_int i :: byte)) [0..255]"
  shows "P b"
proof -
  have "0 \<le> uint b" "uint b \<le> 255"
    using unsigned_less [of b, where 'a = int] by simp_all
  with assms have "P (word_of_int (uint b))"
    unfolding list_all_iff by (metis atLeastAtMost_iff set_upto)
  then show ?thesis by simp
qed

lemma all_lessI: "list_all P [0..<k] \<Longrightarrow> n < k \<Longrightarrow> P n"
  by (simp add: list_all_iff)

section \<open>The allocator\<close>

type_synonym heap = "bool list"

fun heap_alloc :: "heap \<Rightarrow> bool \<times> heap" where
  "heap_alloc [] = (True, [])"
| "heap_alloc (ok # h) = (ok, h)"

lemma heap_alloc_no_failure [simp]: "False \<notin> set h \<Longrightarrow> fst (heap_alloc h)"
  by (cases h) auto

lemma heap_alloc_keeps_no_failure [simp]: "False \<notin> set h \<Longrightarrow> False \<notin> set (snd (heap_alloc h))"
  by (cases h) auto

lemma heap_alloc_outcome: "False \<notin> set h \<Longrightarrow> heap_alloc h = (ok, h') \<Longrightarrow> ok \<and> False \<notin> set h'"
  by (cases h) auto

section \<open>Big-endian numbers\<close>

fun be_val :: "byte list \<Rightarrow> nat" where
  "be_val [] = 0"
| "be_val (b # bs) = unat b * 256 ^ length bs + be_val bs"

fun be_bytes :: "nat \<Rightarrow> nat \<Rightarrow> byte list" where
  "be_bytes 0 v = []"
| "be_bytes (Suc n) v = be_bytes n (v div 256) @ [of_nat v]"

lemma length_be_bytes [simp]: "length (be_bytes n v) = n"
  by (induction n arbitrary: v) auto

lemma unat_byte_less [simp]: "unat (b :: byte) < 256"
  using unsigned_less [of b] by simp

lemma unat_byte_le [simp]: "unat (b :: byte) \<le> 255"
  using unat_byte_less [of b] by linarith

lemma be_val_bound: "be_val bs < 256 ^ length bs"
proof (induction bs)
  case Nil
  then show ?case by simp
next
  case (Cons b bs)
  have "unat b * 256 ^ length bs + be_val bs < unat b * 256 ^ length bs + 256 ^ length bs"
    using Cons.IH by simp
  also have "\<dots> = (unat b + 1) * 256 ^ length bs"
    by simp
  also have "\<dots> \<le> 256 * 256 ^ length bs"
    using unat_byte_less [of b] by (intro mult_right_mono) auto
  finally show ?case by simp
qed

lemma be_val_append: "be_val (xs @ ys) = be_val xs * 256 ^ length ys + be_val ys"
  by (induction xs) (simp_all add: power_add algebra_simps)

lemma unat_of_nat_byte: "unat (of_nat v :: byte) = v mod 256"
  by (simp add: unat_of_nat)

lemma be_val_be_bytes [be_simps]: "be_val (be_bytes n v) = v mod 256 ^ n"
proof (induction n arbitrary: v)
  case 0
  then show ?case by simp
next
  case (Suc n)
  have "be_val (be_bytes (Suc n) v) = (v div 256) mod 256 ^ n * 256 + v mod 256"
    by (simp add: be_val_append Suc.IH unat_of_nat_byte)
  also have "\<dots> = v mod 256 ^ Suc n"
    by (simp add: mod_mult2_eq algebra_simps)
  finally show ?case .
qed

lemma be_bytes_be_val_append:
  "be_bytes (length bs) (be_val bs + k * 256 ^ length bs) = bs"
proof (induction bs arbitrary: k rule: rev_induct)
  case Nil
  then show ?case by simp
next
  case (snoc b bs)
  let ?v = "be_val (bs @ [b]) + k * 256 ^ length (bs @ [b])"
  have v: "?v = (be_val bs + k * 256 ^ length bs) * 256 + unat b"
    by (simp add: be_val_append algebra_simps)
  have "?v div 256 = be_val bs + k * 256 ^ length bs"
    unfolding v using unat_byte_less [of b] by (subst div_mult_self3) simp_all
  moreover have "?v mod 256 = unat b"
    unfolding v by (subst mod_mult_self3) simp
  then have "(of_nat ?v :: byte) = b"
    by (simp only: word_unat_eq_iff unat_of_nat_byte)
  ultimately show ?case
    using snoc.IH [of k] by simp
qed

lemma be_bytes_be_val [be_simps]: "be_bytes (length bs) (be_val bs) = bs"
  using be_bytes_be_val_append [of bs 0] by simp

lemma be_bytes_inject:
  assumes "be_bytes n v = be_bytes n w" and "v < 256 ^ n" and "w < 256 ^ n"
  shows "v = w"
  using assms by (metis be_val_be_bytes mod_less)

lemma be_bytes_map: "be_bytes n v = map (\<lambda>i. of_nat (v div 256 ^ (n - 1 - i))) [0..<n]"
proof (induction n arbitrary: v)
  case (Suc n)
  have "map (\<lambda>i. of_nat (v div 256 div 256 ^ (n - 1 - i))) [0..<n]
      = map (\<lambda>i. of_nat (v div 256 ^ (Suc n - 1 - i)) :: byte) [0..<n]"
  proof (rule map_cong [OF refl])
    fix i assume "i \<in> set [0..<n]"
    then have "Suc n - 1 - i = Suc (n - 1 - i)" by auto
    then show "of_nat (v div 256 div 256 ^ (n - 1 - i)) = (of_nat (v div 256 ^ (Suc n - 1 - i)) :: byte)"
      by (simp only: power_Suc div_mult2_eq)
  qed
  then show ?case by (simp add: Suc.IH)
qed simp

section \<open>Byte lists\<close>

text \<open>\<open>OPENSSL_memmove(buf + dst, buf + src, n)\<close> on the bytes of one buffer.\<close>

definition memmove :: "nat \<Rightarrow> nat \<Rightarrow> nat \<Rightarrow> 'a list \<Rightarrow> 'a list" where
  "memmove dst src n xs = take dst xs @ take n (drop src xs) @ drop (dst + n) xs"

lemma length_memmove [simp]:
  "dst + n \<le> length xs \<Longrightarrow> src + n \<le> length xs \<Longrightarrow> length (memmove dst src n xs) = length xs"
  by (simp add: memmove_def)

text \<open>\<open>OPENSSL_memchr\<close>: the offset of the first occurrence, as a pointer difference.\<close>

fun memchr :: "'a list \<Rightarrow> 'a \<Rightarrow> nat option" where
  "memchr [] c = None"
| "memchr (x # xs) c = (if x = c then Some 0 else map_option Suc (memchr xs c))"

lemma memchr_None [simp]: "memchr xs c = None \<longleftrightarrow> c \<notin> set xs"
  by (induction xs) auto

lemma memchr_Some: "memchr xs c = Some i \<Longrightarrow> i < length xs \<and> xs ! i = c \<and> c \<notin> set (take i xs)"
  by (induction xs arbitrary: i) (auto split: if_splits)

text \<open>\<open>OPENSSL_memcmp\<close>: the sign of the first difference of two ranges of the same length.\<close>

fun memcmp :: "byte list \<Rightarrow> byte list \<Rightarrow> int" where
  "memcmp (x # xs) (y # ys) = (if x < y then - 1 else if y < x then 1 else memcmp xs ys)"
| "memcmp _ _ = 0"

lemma memcmp_eq_0: "length xs = length ys \<Longrightarrow> memcmp xs ys = 0 \<longleftrightarrow> xs = ys"
  by (induction xs ys rule: memcmp.induct) auto

lemma memcmp_antisym: "memcmp ys xs = - memcmp xs ys"
  by (induction xs ys rule: memcmp.induct) auto

lemma memcmp_refl [simp]: "memcmp xs xs = 0"
  by (induction xs) auto

end
