(* ===== verification/Codec.thy ===== *)
theory Codec
  imports Prelude
begin

text \<open>
  The contract between the writers (\<open>CBB\<close>) and the readers (\<open>CBS\<close>) of the byte-string library.
  A reader takes the bytes that are left and returns its result, \<open>None\<close> when the C function returns
  zero, with the bytes it leaves.  A \<open>codec\<close> is a writer and a reader of the same values: the reader
  takes what the writer wrote and nothing more, and whatever the reader accepts is what the writer
  would have written.  The second law is what makes an encoding canonical.
\<close>

type_synonym cbs = "byte list"
type_synonym 'a reader = "cbs \<Rightarrow> 'a option \<times> cbs"

text \<open>The loop \<open>while (CBS_len(cbs) > 0) { read one; }\<close> over a reader, as the C code writes it.\<close>

fun read_all :: "nat \<Rightarrow> 'a reader \<Rightarrow> cbs \<Rightarrow> 'a list option" where
  "read_all fuel get [] = Some []"
| "read_all 0 get (b # bs) = None"
| "read_all (Suc fuel) get (b # bs) =
     (case get (b # bs) of
        (None, _) \<Rightarrow> None
      | (Some a, rest) \<Rightarrow> map_option ((#) a) (read_all fuel get rest))"

locale codec =
  fixes put :: "'a \<Rightarrow> byte list"
    and get :: "cbs \<Rightarrow> 'a option \<times> cbs"
    and ok :: "'a \<Rightarrow> bool"
  assumes get_put: "ok a \<Longrightarrow> get (put a @ rest) = (Some a, rest)"
    and put_get: "get bs = (Some a, rest) \<Longrightarrow> ok a \<and> bs = put a @ rest"
begin

lemma put_prefix_free:
  assumes "ok a" and "ok b" and "put a @ r = put b @ s"
  shows "a = b \<and> r = s"
proof -
  have "(Some a, r) = (Some b, s)"
    unfolding get_put [OF assms(1), of r, symmetric] get_put [OF assms(2), of s, symmetric]
    by (rule arg_cong [OF assms(3)])
  then show ?thesis by simp
qed

lemma put_inject: "ok a \<Longrightarrow> ok b \<Longrightarrow> put a = put b \<Longrightarrow> a = b"
  using put_prefix_free [of a b "[]" "[]"] by simp

lemma get_iff:
  "get bs = (Some a, rest) \<longleftrightarrow> ok a \<and> bs = put a @ rest"
  using get_put put_get by blast

lemma get_shortens:
  "get bs = (Some a, rest) \<Longrightarrow> length rest + length (put a) = length bs"
  using put_get by fastforce

lemma get_extend:
  assumes "get bs = (Some a, rest)"
  shows "get (bs @ more) = (Some a, rest @ more)"
  using put_get [OF assms] get_put [of a "rest @ more"] by simp

end

locale nonempty_codec = codec +
  assumes put_nonempty: "ok a \<Longrightarrow> put a \<noteq> []"
begin

lemma read_all_concat:
  assumes "list_all ok as" and "length (concat (map put as)) \<le> fuel"
  shows "read_all fuel get (concat (map put as)) = Some as"
  using assms
proof (induction as arbitrary: fuel)
  case Nil
  then show ?case by simp
next
  case (Cons a as)
  then have "put a \<noteq> []"
    using put_nonempty by simp
  then obtain b bs where p: "put a = b # bs"
    by (cases "put a") auto
  with Cons.prems obtain f where f: "fuel = Suc f"
    by (cases fuel) auto
  have "get (b # bs @ concat (map put as)) = (Some a, concat (map put as))"
    using get_put [of a "concat (map put as)"] Cons.prems p by simp
  with Cons p f show ?case by simp
qed

lemma read_all_Some:
  assumes "read_all fuel get bs = Some as"
  shows "list_all ok as \<and> bs = concat (map put as)"
  using assms
proof (induction fuel arbitrary: bs as)
  case 0
  then show ?case by (cases bs) auto
next
  case (Suc fuel)
  show ?case
  proof (cases bs)
    case Nil
    with Suc.prems show ?thesis by simp
  next
    case (Cons b bs')
    with Suc.prems obtain a rest as' where g: "get bs = (Some a, rest)"
      and r: "read_all fuel get rest = Some as'" and as: "as = a # as'"
      by (auto split: option.splits prod.splits)
    have a: "ok a" and bs: "bs = put a @ rest"
      using put_get [OF g] by auto
    with Suc.IH [OF r] a bs as show ?thesis by simp
  qed
qed

lemma read_all_complete:
  "read_all (length bs) get bs = Some as \<longleftrightarrow> list_all ok as \<and> bs = concat (map put as)"
  using read_all_concat read_all_Some by blast

end

end
