(* ===== verification/Mem.thy ===== *)
theory Mem
  imports Prelude
begin

text \<open>
  The byte and string routines of \<open>crypto/mem.c\<close> and the byte-order helpers of
  \<open>crypto/internal.h\<close>.  A C string is the list of its bytes before the terminating NUL;
  a buffer a routine writes to is the list of all its bytes.
\<close>

section \<open>Comparing and hashing memory\<close>

text \<open>\<open>CRYPTO_memcmp\<close> accumulates the differences of two ranges of the same length.\<close>

fun memcmp_loop :: "byte \<Rightarrow> byte list \<Rightarrow> byte list \<Rightarrow> byte" where
  "memcmp_loop x (a # as) (b # bs) = memcmp_loop (x OR (a XOR b)) as bs"
| "memcmp_loop x _ _ = x"

definition CRYPTO_memcmp :: "byte list \<Rightarrow> byte list \<Rightarrow> int" where
  "CRYPTO_memcmp a b = uint (memcmp_loop 0 a b)"

definition hash32_step :: "u32 \<Rightarrow> byte \<Rightarrow> u32" where
  "hash32_step h b = (h XOR ucast b) * 16777619"

definition OPENSSL_hash32 :: "byte list \<Rightarrow> u32" where
  "OPENSSL_hash32 bs = foldl hash32_step 2166136261 bs"

definition OPENSSL_strhash :: "byte list \<Rightarrow> u32" where
  "OPENSSL_strhash s = OPENSSL_hash32 s"

section \<open>Strings\<close>

text \<open>\<open>OPENSSL_strnlen(s, len)\<close> on the bytes at \<open>s\<close>: it looks at no more than \<open>len\<close> of them.\<close>

fun OPENSSL_strnlen :: "byte list \<Rightarrow> nat \<Rightarrow> nat" where
  "OPENSSL_strnlen s 0 = 0"
| "OPENSSL_strnlen [] (Suc len) = 0"
| "OPENSSL_strnlen (c # s) (Suc len) = (if c = 0 then 0 else Suc (OPENSSL_strnlen s len))"

lemma OPENSSL_strnlen_code [code]:
  "OPENSSL_strnlen s len =
    (if len = 0 then 0
     else case s of [] \<Rightarrow> 0 | c # s \<Rightarrow> if c = 0 then 0 else Suc (OPENSSL_strnlen s (len - 1)))"
  by (cases len; cases s) simp_all

text \<open>The copying routines return the bytes of the new block, \<open>None\<close> for NULL.\<close>

definition OPENSSL_strdup :: "byte list option \<Rightarrow> heap \<Rightarrow> byte list option \<times> heap" where
  "OPENSSL_strdup str h =
     (case str of
        None \<Rightarrow> (None, h)
      | Some s \<Rightarrow> (let (ok, h') = heap_alloc h in (if ok then Some (s @ [0]) else None, h')))"

definition OPENSSL_strndup :: "byte list \<Rightarrow> nat \<Rightarrow> heap \<Rightarrow> byte list option \<times> heap" where
  "OPENSSL_strndup str len h =
     (let sz = OPENSSL_strnlen str len;
          alloc_size = size_add sz 1
      in if alloc_size < sz then (None, h)
         else let (ok, h') = heap_alloc h
              in (if ok then Some (take sz str @ [0]) else None, h'))"

definition OPENSSL_memdup :: "byte list \<Rightarrow> heap \<Rightarrow> byte list option \<times> heap" where
  "OPENSSL_memdup bs h =
     (if length bs = 0 then (None, h)
      else let (ok, h') = heap_alloc h in (if ok then Some bs else None, h'))"

text \<open>
  \<open>OPENSSL_strlcpy(dst, src, dst_size)\<close> returns the new bytes of the destination and the length
  it would have liked to write.
\<close>

fun OPENSSL_strlcpy :: "byte list \<Rightarrow> byte list \<Rightarrow> nat \<Rightarrow> byte list \<times> nat" where
  "OPENSSL_strlcpy dst src dst_size =
     (if dst_size > 1 \<and> src \<noteq> []
      then let (d, l) = OPENSSL_strlcpy (tl dst) (tl src) (dst_size - 1) in (hd src # d, Suc l)
      else (if dst_size \<noteq> 0 then 0 # tl dst else dst, length src))"

declare OPENSSL_strlcpy.simps [simp del]

fun OPENSSL_strlcat :: "byte list \<Rightarrow> byte list \<Rightarrow> nat \<Rightarrow> byte list \<times> nat" where
  "OPENSSL_strlcat dst src dst_size =
     (if dst_size > 0 \<and> hd dst \<noteq> 0
      then let (d, l) = OPENSSL_strlcat (tl dst) src (dst_size - 1) in (hd dst # d, Suc l)
      else OPENSSL_strlcpy dst src dst_size)"

declare OPENSSL_strlcat.simps [simp del]

definition OPENSSL_tolower :: "int \<Rightarrow> int" where
  "OPENSSL_tolower c = (if 65 \<le> c \<and> c \<le> 90 then c + (97 - 65) else c)"

text \<open>The case-insensitive comparisons read a byte at a time (the NUL at the end of the list).\<close>

definition c_char :: "byte list \<Rightarrow> int" where
  "c_char s = (case s of [] \<Rightarrow> 0 | c # _ \<Rightarrow> sint c)"

function OPENSSL_strcasecmp :: "byte list \<Rightarrow> byte list \<Rightarrow> int" where
  "OPENSSL_strcasecmp a b =
     (let aa = OPENSSL_tolower (c_char a); bb = OPENSSL_tolower (c_char b)
      in if aa < bb then - 1 else if aa > bb then 1 else if a = [] \<or> aa = 0 then 0
         else OPENSSL_strcasecmp (tl a) (tl b))"
  by pat_completeness auto
termination
  by (relation "measure (\<lambda>(a, b). length a)") auto

declare OPENSSL_strcasecmp.simps [simp del]

fun OPENSSL_strncasecmp :: "byte list \<Rightarrow> byte list \<Rightarrow> nat \<Rightarrow> int" where
  "OPENSSL_strncasecmp a b 0 = 0"
| "OPENSSL_strncasecmp a b (Suc n) =
     (let aa = OPENSSL_tolower (c_char a); bb = OPENSSL_tolower (c_char b)
      in if aa < bb then - 1 else if aa > bb then 1 else if aa = 0 then 0
         else OPENSSL_strncasecmp (tl a) (tl b) n)"

text \<open>\<open>strcmp\<close> of the C library: the bytes compare as \<open>unsigned char\<close>.\<close>

fun strcmp :: "byte list \<Rightarrow> byte list \<Rightarrow> int" where
  "strcmp [] [] = 0"
| "strcmp [] (_ # _) = - 1"
| "strcmp (_ # _) [] = 1"
| "strcmp (x # xs) (y # ys) = (if x < y then - 1 else if y < x then 1 else strcmp xs ys)"

section \<open>Byte order\<close>

definition CRYPTO_bswap2 :: "u16 \<Rightarrow> u16" where
  "CRYPTO_bswap2 x = drop_bit 8 x OR push_bit 8 x"

definition CRYPTO_bswap4 :: "u32 \<Rightarrow> u32" where
  "CRYPTO_bswap4 x =
     (let x = drop_bit 16 x OR push_bit 16 x
      in drop_bit 8 (x AND 0xff00ff00) OR push_bit 8 (x AND 0x00ff00ff))"

definition CRYPTO_bswap8 :: "u64 \<Rightarrow> u64" where
  "CRYPTO_bswap8 x =
     ucast (CRYPTO_bswap4 (ucast (drop_bit 32 x))) OR push_bit 32 (ucast (CRYPTO_bswap4 (ucast x)))"

section \<open>Correctness\<close>

lemma memcmp_loop_eq_0: "memcmp_loop x as bs = 0 \<longleftrightarrow> x = 0 \<and> take (length bs) as = take (length as) bs"
proof (induction x as bs rule: memcmp_loop.induct)
  case (1 x a as b bs)
  have "(x OR (a XOR b) = 0) = (x = 0 \<and> a = b)"
    by (metis or_eq_0_iff xor_self_eq bit.xor_left_self xor.right_neutral)
  with 1 show ?case by auto
qed auto

lemma CRYPTO_memcmp_eq_0:
  "length as = length bs \<Longrightarrow> CRYPTO_memcmp as bs = 0 \<longleftrightarrow> as = bs"
  by (simp add: CRYPTO_memcmp_def memcmp_loop_eq_0 unsigned_eq_0_iff)

lemma strcmp_eq_0: "strcmp s t = 0 \<longleftrightarrow> s = t"
  by (induction s t rule: strcmp.induct) auto

lemma CRYPTO_bswap2_involution [simp]: "CRYPTO_bswap2 (CRYPTO_bswap2 x) = x"
  unfolding CRYPTO_bswap2_def
  by (rule bit_word_eqI) (auto simp: bit_simps, metis le_add_diff_inverse not_less)

lemma OPENSSL_strnlen_eq:
  "OPENSSL_strnlen s n = min n (length (takeWhile (\<lambda>c. c \<noteq> 0) s))"
  by (induction s n rule: OPENSSL_strnlen.induct) auto

end
