(* ===== verification/CBS.thy ===== *)
theory CBS
  imports Codec Mem
begin

text \<open>
  The byte-string reader of \<open>crypto/bytestring/cbs.c\<close>: the plain reads.  A \<open>CBS\<close> is a pointer and
  a length into memory it does not own; the model is the list of the bytes it still covers.
  Every operation returns its out-parameter (\<open>None\<close> for a return value of zero) and the bytes that
  are left, also on failure: where a failing call has already advanced the C object, so has the
  model.
\<close>

section \<open>Operations\<close>

definition CBS_init :: "byte list \<Rightarrow> cbs" where
  "CBS_init data = data"

definition cbs_get :: "nat \<Rightarrow> byte list reader" where
  "cbs_get n cbs = (if length cbs < n then (None, cbs) else (Some (take n cbs), drop n cbs))"

definition CBS_skip :: "nat \<Rightarrow> unit reader" where
  "CBS_skip len cbs =
     (case cbs_get len cbs of (None, cbs') \<Rightarrow> (None, cbs') | (Some dummy, cbs') \<Rightarrow> (Some (), cbs'))"

definition CBS_data :: "cbs \<Rightarrow> byte list" where
  "CBS_data cbs = cbs"

definition CBS_len :: "cbs \<Rightarrow> nat" where
  "CBS_len cbs = length cbs"

text \<open>\<open>CBS_stow\<close> returns whether it succeeded and the new block (\<open>None\<close> is NULL, with length 0).\<close>

definition CBS_stow :: "cbs \<Rightarrow> heap \<Rightarrow> bool \<times> byte list option \<times> heap" where
  "CBS_stow cbs h =
     (if CBS_len cbs = 0 then (True, None, h)
      else case OPENSSL_memdup cbs h of
             (None, h') \<Rightarrow> (False, None, h')
           | (Some out, h') \<Rightarrow> (True, Some out, h'))"

definition CBS_strdup :: "cbs \<Rightarrow> heap \<Rightarrow> bool \<times> byte list option \<times> heap" where
  "CBS_strdup cbs h =
     (let (out, h') = OPENSSL_strndup cbs (CBS_len cbs) h in (out \<noteq> None, out, h'))"

definition CBS_contains_zero_byte :: "cbs \<Rightarrow> bool" where
  "CBS_contains_zero_byte cbs = (memchr cbs 0 \<noteq> None)"

definition CBS_mem_equal :: "cbs \<Rightarrow> byte list \<Rightarrow> bool" where
  "CBS_mem_equal cbs data =
     (if length data \<noteq> CBS_len cbs then False else CRYPTO_memcmp (CBS_data cbs) data = 0)"

text \<open>The accumulation loop of \<open>cbs_get_u\<close>: \<open>result <<= 8; result |= data[i]\<close>.\<close>

fun get_u_loop :: "u64 \<Rightarrow> byte list \<Rightarrow> u64" where
  "get_u_loop result [] = result"
| "get_u_loop result (b # bs) = get_u_loop (push_bit 8 result OR ucast b) bs"

definition cbs_get_u :: "nat \<Rightarrow> u64 reader" where
  "cbs_get_u len cbs =
     (case cbs_get len cbs of
        (None, cbs') \<Rightarrow> (None, cbs')
      | (Some data, cbs') \<Rightarrow> (Some (get_u_loop 0 data), cbs'))"

definition CBS_get_u8 :: "byte reader" where
  "CBS_get_u8 cbs =
     (case cbs_get 1 cbs of
        (None, cbs') \<Rightarrow> (None, cbs')
      | (Some v, cbs') \<Rightarrow> (Some (hd v), cbs'))"

definition CBS_get_u16 :: "u16 reader" where
  "CBS_get_u16 cbs =
     (case cbs_get_u 2 cbs of
        (None, cbs') \<Rightarrow> (None, cbs')
      | (Some v, cbs') \<Rightarrow> (Some (ucast v), cbs'))"

definition CBS_get_u16le :: "u16 reader" where
  "CBS_get_u16le cbs =
     (case CBS_get_u16 cbs of
        (None, cbs') \<Rightarrow> (None, cbs')
      | (Some v, cbs') \<Rightarrow> (Some (CRYPTO_bswap2 v), cbs'))"

definition CBS_get_u24 :: "u32 reader" where
  "CBS_get_u24 cbs =
     (case cbs_get_u 3 cbs of
        (None, cbs') \<Rightarrow> (None, cbs')
      | (Some v, cbs') \<Rightarrow> (Some (ucast v), cbs'))"

definition CBS_get_u32 :: "u32 reader" where
  "CBS_get_u32 cbs =
     (case cbs_get_u 4 cbs of
        (None, cbs') \<Rightarrow> (None, cbs')
      | (Some v, cbs') \<Rightarrow> (Some (ucast v), cbs'))"

definition CBS_get_u32le :: "u32 reader" where
  "CBS_get_u32le cbs =
     (case CBS_get_u32 cbs of
        (None, cbs') \<Rightarrow> (None, cbs')
      | (Some v, cbs') \<Rightarrow> (Some (CRYPTO_bswap4 v), cbs'))"

definition CBS_get_u64 :: "u64 reader" where
  "CBS_get_u64 cbs = cbs_get_u 8 cbs"

definition CBS_get_u64le :: "u64 reader" where
  "CBS_get_u64le cbs =
     (case cbs_get_u 8 cbs of
        (None, cbs') \<Rightarrow> (None, cbs')
      | (Some v, cbs') \<Rightarrow> (Some (CRYPTO_bswap8 v), cbs'))"

definition CBS_get_last_u8 :: "byte reader" where
  "CBS_get_last_u8 cbs =
     (if CBS_len cbs = 0 then (None, cbs)
      else (Some (cbs ! (CBS_len cbs - 1)), take (CBS_len cbs - 1) cbs))"

definition CBS_get_bytes :: "nat \<Rightarrow> cbs reader" where
  "CBS_get_bytes len cbs =
     (case cbs_get len cbs of
        (None, cbs') \<Rightarrow> (None, cbs')
      | (Some v, cbs') \<Rightarrow> (Some (CBS_init v), cbs'))"

definition CBS_copy_bytes :: "nat \<Rightarrow> byte list reader" where
  "CBS_copy_bytes len cbs =
     (case cbs_get len cbs of
        (None, cbs') \<Rightarrow> (None, cbs')
      | (Some v, cbs') \<Rightarrow> (Some v, cbs'))"

definition cbs_get_length_prefixed :: "nat \<Rightarrow> cbs reader" where
  "cbs_get_length_prefixed len_len cbs =
     (case cbs_get_u len_len cbs of
        (None, cbs') \<Rightarrow> (None, cbs')
      | (Some len, cbs') \<Rightarrow> CBS_get_bytes (unat len) cbs')"

definition CBS_get_u8_length_prefixed :: "cbs reader" where
  "CBS_get_u8_length_prefixed cbs = cbs_get_length_prefixed 1 cbs"

definition CBS_get_u16_length_prefixed :: "cbs reader" where
  "CBS_get_u16_length_prefixed cbs = cbs_get_length_prefixed 2 cbs"

definition CBS_get_u24_length_prefixed :: "cbs reader" where
  "CBS_get_u24_length_prefixed cbs = cbs_get_length_prefixed 3 cbs"

definition CBS_get_until_first :: "byte \<Rightarrow> cbs reader" where
  "CBS_get_until_first c cbs =
     (case memchr (CBS_data cbs) c of
        None \<Rightarrow> (None, cbs)
      | Some split \<Rightarrow> CBS_get_bytes split cbs)"

section \<open>The loop computes the big-endian value\<close>

lemma push_bit_or_byte: "push_bit 8 (r :: u64) OR ucast (b :: byte) = r * 256 + ucast b"
proof -
  have "push_bit 8 r OR ucast b = push_bit 8 r + ucast b"
    by (rule disjunctive_add_eq_or [symmetric]) (auto simp: bit_eq_iff bit_simps dest: bit_imp_le_length)
  then show ?thesis by (simp add: push_bit_eq_mult)
qed

lemma get_u_loop_eq: "get_u_loop r bs = r * 256 ^ length bs + of_nat (be_val bs)"
proof (induction r bs rule: get_u_loop.induct)
  case (2 r b bs)
  have "get_u_loop r (b # bs) = (r * 256 + ucast b) * 256 ^ length bs + of_nat (be_val bs)"
    using 2 by (simp only: get_u_loop.simps push_bit_or_byte)
  then show ?case
    by (simp add: algebra_simps)
qed simp

lemma get_u_loop_0: "get_u_loop 0 bs = of_nat (be_val bs)"
  by (simp add: get_u_loop_eq)

lemma unat_get_u_loop:
  assumes "length bs \<le> 8"
  shows "unat (get_u_loop 0 bs) = be_val bs"
proof -
  have "be_val bs < 256 ^ length bs"
    by (rule be_val_bound)
  also have "\<dots> \<le> 256 ^ 8"
    using assms by (intro power_increasing) auto
  finally show ?thesis
    by (simp add: get_u_loop_0 unat_of_nat)
qed

section \<open>How the reads act on a known prefix\<close>

named_theorems cbs_simps \<comment> \<open>what each read does with the bytes in front of it\<close>

lemma cbs_get_append [cbs_simps]: "length xs = n \<Longrightarrow> cbs_get n (xs @ rest) = (Some xs, rest)"
  by (simp add: cbs_get_def)

lemma cbs_get_short [cbs_simps]: "length cbs < n \<Longrightarrow> cbs_get n cbs = (None, cbs)"
  by (simp add: cbs_get_def)

lemma cbs_get_Some: "cbs_get n cbs = (Some xs, rest) \<longleftrightarrow> cbs = xs @ rest \<and> length xs = n"
  by (auto simp: cbs_get_def)

lemma cbs_get_None: "cbs_get n cbs = (None, rest) \<longleftrightarrow> rest = cbs \<and> length cbs < n"
  by (auto simp: cbs_get_def)

lemma CBS_get_u8_Nil [cbs_simps]: "CBS_get_u8 [] = (None, [])"
  by (simp add: CBS_get_u8_def cbs_get_def)

lemma CBS_get_u8_Cons [cbs_simps]: "CBS_get_u8 (b # bs) = (Some b, bs)"
  by (simp add: CBS_get_u8_def cbs_get_def)

lemma CBS_skip_append [cbs_simps]: "length xs = n \<Longrightarrow> CBS_skip n (xs @ rest) = (Some (), rest)"
  by (simp add: CBS_skip_def cbs_get_def)

lemma CBS_get_bytes_append [cbs_simps]:
  "length xs = n \<Longrightarrow> CBS_get_bytes n (xs @ rest) = (Some xs, rest)"
  by (simp add: CBS_get_bytes_def cbs_get_def CBS_init_def)

lemma CBS_get_bytes_eq:
  "CBS_get_bytes n cbs = (if length cbs < n then (None, cbs) else (Some (take n cbs), drop n cbs))"
  by (simp add: CBS_get_bytes_def cbs_get_def CBS_init_def)

lemma CBS_skip_eq:
  "CBS_skip n cbs = (if length cbs < n then (None, cbs) else (Some (), drop n cbs))"
  by (simp add: CBS_skip_def cbs_get_def)

lemma cbs_get_u_eq:
  "cbs_get_u n cbs =
     (if length cbs < n then (None, cbs) else (Some (of_nat (be_val (take n cbs))), drop n cbs))"
  by (simp add: cbs_get_u_def cbs_get_def get_u_loop_0)

lemma cbs_get_u_append [cbs_simps]:
  "length xs = n \<Longrightarrow> cbs_get_u n (xs @ rest) = (Some (of_nat (be_val xs)), rest)"
  by (simp add: cbs_get_u_eq)

end
