(* ===== verification/Base128.thy ===== *)
theory Base128
  imports CBS
begin

text \<open>
  The base-128 integers of DER (high tag numbers, components of object identifiers): the reader
  \<open>parse_base128_integer\<close> of \<open>cbs.c\<close>, the octets \<open>add_base128_integer\<close> of \<open>cbb.c\<close> writes, and
  the proof that they form a canonical codec.
\<close>

section \<open>Operations\<close>

text \<open>The reader's \<open>do ... while (b & 0x80)\<close> loop, with the value \<open>v\<close> read so far.\<close>

fun parse_base128_loop :: "u64 \<Rightarrow> u64 reader" where
  "parse_base128_loop v [] = (None, [])"
| "parse_base128_loop v (b # cbs) =
     (if drop_bit (64 - 7) v \<noteq> 0 then (None, cbs)
      else if v = 0 \<and> b = 0x80 then (None, cbs)
      else let v' = push_bit 7 v OR ucast (b AND 0x7f)
           in if b AND 0x80 \<noteq> 0 then parse_base128_loop v' cbs else (Some v', cbs))"

definition parse_base128_integer :: "u64 reader" where
  "parse_base128_integer cbs = parse_base128_loop 0 cbs"

text \<open>The writer first counts the septets, then writes them from the top one down.\<close>

function base128_len_len :: "u64 \<Rightarrow> nat" where
  "base128_len_len copy = (if copy > 0 then Suc (base128_len_len (drop_bit 7 copy)) else 0)"
  by pat_completeness auto
termination
  by (relation "measure unat") (simp_all add: drop_bit_eq_div unat_div word_greater_zero_iff unat_gt_0)

declare base128_len_len.simps [simp del]

definition base128_octet :: "u64 \<Rightarrow> nat \<Rightarrow> byte" where
  "base128_octet v i =
     (let byte = ucast (drop_bit (7 * i) v) AND 0x7f in if i \<noteq> 0 then byte OR 0x80 else byte)"

definition base128_octets :: "u64 \<Rightarrow> byte list" where
  "base128_octets v =
     (let len_len = base128_len_len v; len_len = (if len_len = 0 then 1 else len_len)
      in map (base128_octet v) (rev [0..<len_len]))"

section \<open>The encoding by digits\<close>

fun base128_hi :: "nat \<Rightarrow> byte list" where
  "base128_hi n = (if n = 0 then [] else base128_hi (n div 128) @ [of_nat (n mod 128 + 128)])"

declare base128_hi.simps [simp del]

definition base128 :: "nat \<Rightarrow> byte list" where
  "base128 n = base128_hi (n div 128) @ [of_nat (n mod 128)]"

lemma base128_hi_0 [simp]: "base128_hi 0 = []"
  by (simp add: base128_hi.simps)

lemma base128_nonempty [simp]: "base128 n \<noteq> []"
  by (simp add: base128_def)

section \<open>The loops in terms of numbers\<close>

lemma byte_low7: "(b :: byte) AND 0x7f = take_bit 7 b"
  by (simp add: take_bit_eq_mask mask_eq_exp_minus_1)

lemma unat_byte_low7: "unat (b AND 0x7f :: byte) = unat b mod 128"
  unfolding byte_low7 by (simp add: take_bit_eq_mod unat_mod)

lemma byte_high_bit: "(b :: byte) AND 0x80 = 0 \<longleftrightarrow> unat b < 128"
proof -
  have "b AND 0x80 = 0 \<longleftrightarrow> b < 0x80"
    by (rule all_bytesI [of "\<lambda>b. b AND 0x80 = 0 \<longleftrightarrow> b < 0x80" b]) code_simp
  then show ?thesis by (simp add: word_less_nat_alt)
qed

lemma push_bit_7_or:
  fixes v :: u64 and b :: byte
  shows "push_bit 7 v OR ucast (b AND 0x7f) = v * 128 + of_nat (unat b mod 128)"
proof -
  note t = byte_low7 [of b]
  have 1: "push_bit 7 v OR ucast (b AND 0x7f) = push_bit 7 v + (ucast (b AND 0x7f) :: u64)"
    unfolding t by (rule disjunctive_add_eq_or [symmetric]) (auto simp: bit_eq_iff bit_simps)
  have "(ucast (b AND 0x7f) :: u64) = of_nat (unat (b AND 0x7f))"
    by simp
  then have 2: "(ucast (b AND 0x7f) :: u64) = of_nat (unat b mod 128)"
    by (simp only: unat_byte_low7)
  have 3: "push_bit 7 v = v * 128"
    by (simp add: push_bit_eq_mult)
  show ?thesis
    by (rule trans [OF 1]) (simp only: 2 3)
qed

lemma drop_bit_57_eq_0: "n < 2 ^ 64 \<Longrightarrow> drop_bit 57 (of_nat n :: u64) = 0 \<longleftrightarrow> n < 2 ^ 57"
  by (simp add: word_unat_eq_iff unat_div unat_of_nat div_eq_0_iff drop_bit_eq_div)

lemma parse_base128_loop_nat:
  assumes "n < 2 ^ 64"
  shows "parse_base128_loop (of_nat n) (b # cbs) =
    (if 2 ^ 57 \<le> n \<or> n = 0 \<and> unat b = 128 then (None, cbs)
     else if 128 \<le> unat b then parse_base128_loop (of_nat (n * 128 + unat b mod 128)) cbs
     else (Some (of_nat (n * 128 + unat b)), cbs))"
proof -
  have "b = 0x80 \<longleftrightarrow> unat b = 128"
    by (auto simp: word_unat_eq_iff)
  moreover have "(of_nat n :: u64) = 0 \<longleftrightarrow> n = 0"
    using assms by (simp add: word_unat_eq_iff unat_of_nat)
  moreover have "drop_bit (64 - 7) (of_nat n :: u64) \<noteq> 0 \<longleftrightarrow> 2 ^ 57 \<le> n"
    using drop_bit_57_eq_0 [OF assms] by (simp add: not_less)
  ultimately show ?thesis
    by (simp add: push_bit_7_or byte_high_bit not_less Let_def del: push_bit_numeral)
qed

declare parse_base128_loop.simps(2) [simp del]

lemma base128_hi_step:
  assumes "0 < n * 128 + m" and "m < 128"
  shows "base128_hi (n * 128 + m) = base128_hi n @ [of_nat (m + 128)]"
  using assms by (subst base128_hi.simps) simp

lemma base128_step:
  assumes "m < 128"
  shows "base128 (n * 128 + m) = base128_hi n @ [of_nat m]"
  using assms by (simp add: base128_def)

section \<open>Reading back\<close>

lemma parse_base128_hi:
  assumes "n < 2 ^ 64"
  shows "parse_base128_loop 0 (base128_hi n @ b # cbs) = parse_base128_loop (of_nat n) (b # cbs)"
  using assms
proof (induction n arbitrary: b cbs rule: base128_hi.induct)
  case (1 n)
  show ?case
  proof (cases "n = 0")
    case True
    then show ?thesis by simp
  next
    case False
    define d where "d = (of_nat (n mod 128 + 128) :: byte)"
    have d: "unat d = n mod 128 + 128"
      unfolding d_def by (subst unat_of_nat_byte) simp
    have e: "n div 128 * 128 + unat d mod 128 = n"
      by (simp add: d)
    have lt: "n div 128 < 2 ^ 57" "n div 128 < 2 ^ 64"
      using "1.prems" by auto
    have "parse_base128_loop (of_nat (n div 128)) (d # b # cbs) = parse_base128_loop (of_nat n) (b # cbs)"
      using False lt(1) parse_base128_loop_nat [OF lt(2), of d "b # cbs"]
      unfolding e by (auto simp: d)
    moreover have "parse_base128_loop 0 (base128_hi (n div 128) @ d # b # cbs)
        = parse_base128_loop (of_nat (n div 128)) (d # b # cbs)"
      using False lt(2) by (rule "1.IH")
    moreover have "base128_hi n = base128_hi (n div 128) @ [d]"
      using False unfolding d_def by (subst base128_hi.simps) simp
    ultimately show ?thesis
      by simp
  qed
qed

lemma parse_base128:
  assumes "n < 2 ^ 64"
  shows "parse_base128_integer (base128 n @ rest) = (Some (of_nat n), rest)"
proof -
  have "parse_base128_loop 0 (base128_hi (n div 128) @ of_nat (n mod 128) # rest)
      = parse_base128_loop (of_nat (n div 128)) (of_nat (n mod 128) # rest)"
    using assms by (intro parse_base128_hi) auto
  also have "\<dots> = (Some (of_nat (n div 128 * 128 + n mod 128)), rest)"
    using assms by (subst parse_base128_loop_nat) (auto simp: unat_of_nat)
  finally show ?thesis
    by (simp add: parse_base128_integer_def base128_def)
qed

lemma parse_base128_loop_canonical:
  assumes "parse_base128_loop (of_nat n) cbs = (Some w, rest)" and "n < 2 ^ 64"
  shows "\<exists>xs. cbs = xs @ rest \<and> base128_hi n @ xs = base128 (unat w)"
  using assms
proof (induction cbs arbitrary: n)
  case Nil
  then show ?case by simp
next
  case (Cons b cbs)
  have n: "n < 2 ^ 57" and nz: "n \<noteq> 0 \<or> unat b \<noteq> 128"
    using Cons.prems by (auto simp: parse_base128_loop_nat split: if_splits)
  show ?case
  proof (cases "unat b < 128")
    case True
    have w: "w = of_nat (n * 128 + unat b)" and r: "rest = cbs"
      using Cons.prems n True by (auto simp: parse_base128_loop_nat split: if_splits)
    have "n * 128 + unat b < 2 ^ 64"
      using n True by simp
    then have "unat w = n * 128 + unat b"
      unfolding w by (subst unat_of_nat) simp
    then have "base128 (unat w) = base128_hi n @ [of_nat (unat b)]"
      using True by (simp only: base128_step)
    then have "b # cbs = [b] @ rest \<and> base128_hi n @ [b] = base128 (unat w)"
      by (simp only: r of_nat_unat ucast_id append.simps)
    then show ?thesis by blast
  next
    case False
    define m where "m = unat b - 128"
    have m: "m < 128" "unat b = m + 128"
      using False unat_byte_less [of b] unfolding m_def by linarith+
    then have mm: "unat b mod 128 = m"
      by simp
    have "parse_base128_loop (of_nat (n * 128 + m)) cbs = (Some w, rest)"
      using Cons.prems(1) n nz False
      by (simp add: parse_base128_loop_nat mm not_less split: if_splits)
    moreover have "n * 128 + m < 2 ^ 64"
      using n m by simp
    ultimately obtain xs where xs: "cbs = xs @ rest" "base128_hi (n * 128 + m) @ xs = base128 (unat w)"
      using Cons.IH by blast
    have "base128_hi (n * 128 + m) = base128_hi n @ [of_nat (m + 128)]"
      using nz m by (intro base128_hi_step) auto
    moreover have "(of_nat (m + 128) :: byte) = b"
      by (simp only: m(2) [symmetric] of_nat_unat ucast_id)
    ultimately have "base128_hi n @ b # xs = base128 (unat w)"
      using xs(2) by (simp only: append_assoc append.simps)
    then have "b # cbs = (b # xs) @ rest \<and> base128_hi n @ b # xs = base128 (unat w)"
      by (simp only: xs(1) append.simps)
    then show ?thesis by blast
  qed
qed

lemma parse_base128_canonical:
  assumes "parse_base128_integer cbs = (Some w, rest)"
  shows "cbs = base128 (unat w) @ rest"
  using parse_base128_loop_canonical [of 0 cbs w rest] assms
  by (auto simp: parse_base128_integer_def)

section \<open>What the writer writes\<close>

lemma base128_len_len_0 [simp]: "base128_len_len 0 = 0"
  by (simp add: base128_len_len.simps)

lemma base128_len_len_step: "v \<noteq> 0 \<Longrightarrow> base128_len_len v = Suc (base128_len_len (drop_bit 7 v))"
  by (subst base128_len_len.simps) (simp add: word_greater_zero_iff)

lemma upt_Suc_rev: "rev [0..<Suc k] = map Suc (rev [0..<k]) @ [0]"
proof -
  have "[0..<Suc k] = 0 # map Suc [0..<k]"
    by (simp only: map_Suc_upt upt_conv_Cons [of 0 "Suc k"] zero_less_Suc)
  then show ?thesis
    by (simp only: rev_map rev.simps)
qed

lemma unat_drop_bit_7: "unat (drop_bit 7 (v :: u64)) = unat v div 128"
  by (simp add: drop_bit_eq_div unat_div)

lemma septet_eq: "(ucast (v :: u64) :: byte) AND 0x7f = of_nat (unat v mod 128)"
proof -
  have "unat ((ucast v :: byte) AND 0x7f) = unat (ucast v :: byte) mod 128"
    by (rule unat_byte_low7)
  also have "unat (ucast v :: byte) = unat v mod 256"
    by (simp add: unsigned_ucast_eq take_bit_eq_mod)
  finally show ?thesis
    by (simp add: word_unat_eq_iff unat_of_nat mod_mod_cancel)
qed

lemma byte_or_80: "m < 128 \<Longrightarrow> (of_nat m :: byte) OR 0x80 = of_nat (m + 128)"
proof -
  assume m: "m < 128"
  define b where "b = (of_nat m :: byte)"
  have u: "unat b = m"
    using m by (simp add: b_def unat_of_nat)
  then have "b AND 0x80 = 0"
    using m by (simp add: byte_high_bit)
  then have "b OR 0x80 = b + 0x80"
    by (simp add: disjunctive_add_eq_or)
  then show ?thesis
    by (simp add: b_def)
qed

definition septet_more :: "u64 \<Rightarrow> nat \<Rightarrow> byte" where
  "septet_more v i = (ucast (drop_bit (7 * i) v) AND 0x7f) OR 0x80"

lemma septet_more_Suc: "septet_more v (Suc i) = septet_more (drop_bit 7 v) i"
  by (simp add: septet_more_def add.commute)

lemma septets_hi: "map (septet_more v) (rev [0..<base128_len_len v]) = base128_hi (unat v)"
proof (induction v rule: base128_len_len.induct)
  case (1 v)
  show ?case
  proof (cases "v = 0")
    case True
    then show ?thesis by simp
  next
    case False
    have "map (septet_more v) (rev [0..<base128_len_len v])
        = map (septet_more (drop_bit 7 v)) (rev [0..<base128_len_len (drop_bit 7 v)]) @ [septet_more v 0]"
      by (simp only: base128_len_len_step [OF False] upt_Suc_rev map_append list.map map_map o_def septet_more_Suc)
    also have "\<dots> = base128_hi (unat v div 128) @ [of_nat (unat v mod 128 + 128)]"
    proof -
      have "map (septet_more (drop_bit 7 v)) (rev [0..<base128_len_len (drop_bit 7 v)])
          = base128_hi (unat v div 128)"
        using 1 False by (simp only: word_greater_zero_iff unat_drop_bit_7 not_False_eq_True)
      moreover have "septet_more v 0 = of_nat (unat v mod 128 + 128)"
        using byte_or_80 [of "unat v mod 128"] by (simp add: septet_more_def septet_eq)
      ultimately show ?thesis by (simp only:)
    qed
    also have "\<dots> = base128_hi (unat v)"
      using False by (subst (2) base128_hi.simps) (simp add: unat_eq_zero)
    finally show ?thesis .
  qed
qed

lemma base128_octets_eq: "base128_octets v = base128 (unat v)"
proof (cases "v = 0")
  case True
  then show ?thesis
    by (simp add: base128_octets_def base128_def base128_octet_def)
next
  case False
  have "map (base128_octet v) (rev [0..<base128_len_len v])
      = map (septet_more (drop_bit 7 v)) (rev [0..<base128_len_len (drop_bit 7 v)]) @ [base128_octet v 0]"
    by (simp only: base128_len_len_step [OF False] upt_Suc_rev map_append list.map map_map o_def)
      (simp add: base128_octet_def septet_more_def add.commute)
  also have "\<dots> = base128_hi (unat v div 128) @ [of_nat (unat v mod 128)]"
    by (simp only: septets_hi unat_drop_bit_7) (simp add: base128_octet_def septet_eq)
  finally show ?thesis
    using False by (simp add: base128_octets_def base128_def base128_len_len_step)
qed

interpretation base128: nonempty_codec base128_octets parse_base128_integer "\<lambda>_. True"
proof unfold_locales
  fix a :: u64 and rest
  show "parse_base128_integer (base128_octets a @ rest) = (Some a, rest)"
    using parse_base128 [of "unat a" rest] unsigned_less [of a]
    by (simp add: base128_octets_eq)
qed (auto simp: base128_octets_eq dest: parse_base128_canonical)

end
