(* ===== verification/Asn1_Parse.thy ===== *)
theory Asn1_Parse
  imports Base128
begin

text \<open>
  The ASN.1 half of \<open>crypto/bytestring/cbs.c\<close>: tags, elements, integers, booleans, optional
  fields and bit strings.  Against it stands \<open>der\<close>, the distinguished encoding of one element as
  ITU-T X.690 defines it.  The main results: \<open>CBS_get_any_asn1\<close> and \<open>der\<close> form a canonical
  codec (interpretation \<open>der_codec\<close>), and what the BER reader accepts without reporting BER is
  what the DER reader accepts.
\<close>

section \<open>Tags\<close>

abbreviation CBS_ASN1_TAG_SHIFT :: nat where "CBS_ASN1_TAG_SHIFT \<equiv> 24"
abbreviation CBS_ASN1_TAG_NUMBER_MASK :: u32 where "CBS_ASN1_TAG_NUMBER_MASK \<equiv> 0x1fffffff"
abbreviation CBS_ASN1_CONSTRUCTED :: u32 where "CBS_ASN1_CONSTRUCTED \<equiv> 0x20000000"
abbreviation CBS_ASN1_BOOLEAN :: u32 where "CBS_ASN1_BOOLEAN \<equiv> 0x1"
abbreviation CBS_ASN1_INTEGER :: u32 where "CBS_ASN1_INTEGER \<equiv> 0x2"
abbreviation CBS_ASN1_OCTETSTRING :: u32 where "CBS_ASN1_OCTETSTRING \<equiv> 0x4"

definition parse_asn1_tag :: "u32 reader" where
  "parse_asn1_tag cbs =
     (case CBS_get_u8 cbs of
        (None, cbs') \<Rightarrow> (None, cbs')
      | (Some tag_byte, cbs') \<Rightarrow>
          let tag = push_bit CBS_ASN1_TAG_SHIFT (ucast tag_byte AND 0xe0);
              tag_number = ucast tag_byte AND 0x1f
          in if tag_number = 0x1f
             then case parse_base128_integer cbs' of
                    (None, cbs'') \<Rightarrow> (None, cbs'')
                  | (Some v, cbs'') \<Rightarrow>
                      if v > ucast CBS_ASN1_TAG_NUMBER_MASK \<or> v < 0x1f then (None, cbs'')
                      else (Some (tag OR ucast v), cbs'')
             else (Some (tag OR tag_number), cbs'))"

section \<open>Elements\<close>

text \<open>
  The long form of the length in \<open>cbs_get_any_asn1_element\<close>: \<open>header\<close> is what follows the length
  byte.  The result is the length of the whole element, the length of its header, and whether a
  length that is not minimal (which only BER allows) was found.
\<close>

definition asn1_long_length :: "bool \<Rightarrow> nat \<Rightarrow> nat \<Rightarrow> cbs \<Rightarrow> (nat \<times> nat \<times> bool) option" where
  "asn1_long_length ber_ok num_bytes header_len header =
     (if num_bytes = 0 \<or> num_bytes > 4 then None
      else case cbs_get_u num_bytes header of
             (None, _) \<Rightarrow> None
           | (Some len64, _) \<Rightarrow>
               let not_minimal = (len64 < 128 \<or> drop_bit ((num_bytes - 1) * 8) len64 = 0)
               in if not_minimal \<and> \<not> ber_ok then None
                  else let len = unat len64
                       in if size_add (size_add len header_len) num_bytes < len then None
                          else Some (size_add len (size_add header_len num_bytes),
                                     size_add header_len num_bytes, not_minimal))"

text \<open>
  The whole function works on a copy \<open>header\<close> of the reader and moves the reader itself only by
  the final \<open>CBS_get_bytes\<close>.  Its result is the element with its header, the tag, the length of
  the header, and \<open>ber_found\<close>.
\<close>

definition asn1_take_element ::
    "nat \<Rightarrow> u32 \<Rightarrow> nat \<Rightarrow> bool \<Rightarrow> (cbs \<times> u32 \<times> nat \<times> bool) reader" where
  "asn1_take_element len tag header_len ber_found cbs =
     (case CBS_get_bytes len cbs of
        (None, cbs') \<Rightarrow> (None, cbs')
      | (Some out, cbs') \<Rightarrow> (Some (out, tag, header_len, ber_found), cbs'))"

definition cbs_get_any_asn1_element :: "bool \<Rightarrow> (cbs \<times> u32 \<times> nat \<times> bool) reader" where
  "cbs_get_any_asn1_element ber_ok cbs =
     (case parse_asn1_tag cbs of
        (None, _) \<Rightarrow> (None, cbs)
      | (Some tag, header) \<Rightarrow>
     (case CBS_get_u8 header of
        (None, _) \<Rightarrow> (None, cbs)
      | (Some length_byte, header) \<Rightarrow>
          let header_len = CBS_len cbs - CBS_len header
          in if length_byte AND 0x80 = 0
             then asn1_take_element (size_add (unat length_byte) header_len) tag header_len False cbs
             else
               let num_bytes = unat (length_byte AND 0x7f)
               in if ber_ok \<and> tag AND CBS_ASN1_CONSTRUCTED \<noteq> 0 \<and> num_bytes = 0
                  then asn1_take_element header_len tag header_len True cbs
                  else case asn1_long_length ber_ok num_bytes header_len header of
                         None \<Rightarrow> (None, cbs)
                       | Some (len, header_len, ber_found) \<Rightarrow>
                           asn1_take_element len tag header_len ber_found cbs))"

definition CBS_get_any_asn1_element :: "(cbs \<times> u32 \<times> nat) reader" where
  "CBS_get_any_asn1_element cbs =
     (case cbs_get_any_asn1_element False cbs of
        (None, cbs') \<Rightarrow> (None, cbs')
      | (Some (out, tag, header_len, _), cbs') \<Rightarrow> (Some (out, tag, header_len), cbs'))"

definition CBS_get_any_asn1 :: "(cbs \<times> u32) reader" where
  "CBS_get_any_asn1 cbs =
     (case CBS_get_any_asn1_element cbs of
        (None, cbs') \<Rightarrow> (None, cbs')
      | (Some (out, tag, header_len), cbs') \<Rightarrow>
          (case CBS_skip header_len out of
             (None, _) \<Rightarrow> (None, cbs')
           | (Some _, out') \<Rightarrow> (Some (out', tag), cbs')))"

definition CBS_get_any_ber_asn1_element :: "(cbs \<times> u32 \<times> nat \<times> bool) reader" where
  "CBS_get_any_ber_asn1_element cbs = cbs_get_any_asn1_element True cbs"

definition cbs_get_asn1 :: "u32 \<Rightarrow> bool \<Rightarrow> cbs reader" where
  "cbs_get_asn1 tag_value skip_header cbs =
     (case CBS_get_any_asn1_element cbs of
        (None, cbs') \<Rightarrow> (None, cbs')
      | (Some (out, tag, header_len), cbs') \<Rightarrow>
          if tag \<noteq> tag_value then (None, cbs')
          else if skip_header
               then case CBS_skip header_len out of
                      (None, _) \<Rightarrow> (None, cbs')
                    | (Some _, out') \<Rightarrow> (Some out', cbs')
               else (Some out, cbs'))"

definition CBS_get_asn1 :: "u32 \<Rightarrow> cbs reader" where
  "CBS_get_asn1 tag_value cbs = cbs_get_asn1 tag_value True cbs"

definition CBS_get_asn1_element :: "u32 \<Rightarrow> cbs reader" where
  "CBS_get_asn1_element tag_value cbs = cbs_get_asn1 tag_value False cbs"

definition CBS_peek_asn1_tag :: "cbs \<Rightarrow> u32 \<Rightarrow> bool" where
  "CBS_peek_asn1_tag cbs tag_value =
     (if CBS_len cbs < 1 then False
      else case parse_asn1_tag cbs of
             (None, _) \<Rightarrow> False
           | (Some actual_tag, _) \<Rightarrow> tag_value = actual_tag)"

section \<open>Integers and booleans\<close>

definition CBS_is_valid_asn1_integer :: "cbs \<Rightarrow> bool option" where
  \<comment> \<open>\<open>None\<close> when invalid, else whether the integer is negative\<close>
  "CBS_is_valid_asn1_integer cbs =
     (case CBS_get_u8 cbs of
        (None, _) \<Rightarrow> None
      | (Some first_byte, copy) \<Rightarrow>
          let is_negative = (first_byte AND 0x80 \<noteq> 0)
          in case CBS_get_u8 copy of
               (None, _) \<Rightarrow> Some is_negative
             | (Some second_byte, _) \<Rightarrow>
                 if (first_byte = 0 \<and> second_byte AND 0x80 = 0)
                    \<or> (first_byte = 0xff \<and> second_byte AND 0x80 \<noteq> 0)
                 then None else Some is_negative)"

definition CBS_is_unsigned_asn1_integer :: "cbs \<Rightarrow> bool" where
  "CBS_is_unsigned_asn1_integer cbs =
     (case CBS_is_valid_asn1_integer cbs of None \<Rightarrow> False | Some is_negative \<Rightarrow> \<not> is_negative)"

fun asn1_uint64_loop :: "u64 \<Rightarrow> byte list \<Rightarrow> u64 option" where
  "asn1_uint64_loop out [] = Some out"
| "asn1_uint64_loop out (b # data) =
     (if drop_bit 56 out \<noteq> 0 then None
      else asn1_uint64_loop (push_bit 8 out OR ucast b) data)"

definition CBS_get_asn1_uint64 :: "u64 reader" where
  "CBS_get_asn1_uint64 cbs =
     (case CBS_get_asn1 CBS_ASN1_INTEGER cbs of
        (None, cbs') \<Rightarrow> (None, cbs')
      | (Some bytes, cbs') \<Rightarrow>
          if \<not> CBS_is_unsigned_asn1_integer bytes then (None, cbs')
          else (asn1_uint64_loop 0 (CBS_data bytes), cbs'))"

text \<open>
  The union of \<open>CBS_get_asn1_int64\<close> on a little-endian machine: the content octets in reverse,
  then the sign octets, read as a two's complement number.
\<close>

definition int64_of_le_bytes :: "byte list \<Rightarrow> int" where
  "int64_of_le_bytes bs = sint (of_nat (be_val (rev bs)) :: u64)"

definition CBS_get_asn1_int64 :: "int reader" where
  "CBS_get_asn1_int64 cbs =
     (case CBS_get_asn1 CBS_ASN1_INTEGER cbs of
        (None, cbs') \<Rightarrow> (None, cbs')
      | (Some bytes, cbs') \<Rightarrow>
          (case CBS_is_valid_asn1_integer bytes of
             None \<Rightarrow> (None, cbs')
           | Some is_negative \<Rightarrow>
               let data = CBS_data bytes; len = CBS_len bytes
               in if len > 8 then (None, cbs')
                  else (Some (int64_of_le_bytes
                          (rev data @ replicate (8 - len) (if is_negative then 0xff else 0))), cbs')))"

definition CBS_get_asn1_bool :: "int reader" where
  "CBS_get_asn1_bool cbs =
     (case CBS_get_asn1 CBS_ASN1_BOOLEAN cbs of
        (None, cbs') \<Rightarrow> (None, cbs')
      | (Some bytes, cbs') \<Rightarrow>
          if CBS_len bytes \<noteq> 1 then (None, cbs')
          else let value = hd (CBS_data bytes)
               in if value \<noteq> 0 \<and> value \<noteq> 0xff then (None, cbs')
                  else (Some (if value \<noteq> 0 then 1 else 0), cbs'))"

section \<open>Optional fields\<close>

definition CBS_get_optional_asn1 :: "u32 \<Rightarrow> cbs option reader" where
  \<comment> \<open>\<open>Some None\<close>: success, with \<open>*out_present\<close> zero\<close>
  "CBS_get_optional_asn1 tag cbs =
     (if CBS_peek_asn1_tag cbs tag
      then case CBS_get_asn1 tag cbs of
             (None, cbs') \<Rightarrow> (None, cbs')
           | (Some out, cbs') \<Rightarrow> (Some (Some out), cbs')
      else (Some None, cbs))"

definition CBS_get_optional_asn1_octet_string :: "u32 \<Rightarrow> (cbs \<times> bool) reader" where
  "CBS_get_optional_asn1_octet_string tag cbs =
     (case CBS_get_optional_asn1 tag cbs of
        (None, cbs') \<Rightarrow> (None, cbs')
      | (Some None, cbs') \<Rightarrow> (Some (CBS_init [], False), cbs')
      | (Some (Some child), cbs') \<Rightarrow>
          (case CBS_get_asn1 CBS_ASN1_OCTETSTRING child of
             (None, _) \<Rightarrow> (None, cbs')
           | (Some out, child') \<Rightarrow>
               if CBS_len child' \<noteq> 0 then (None, cbs') else (Some (out, True), cbs')))"

definition CBS_get_optional_asn1_uint64 :: "u32 \<Rightarrow> u64 \<Rightarrow> u64 reader" where
  "CBS_get_optional_asn1_uint64 tag default_value cbs =
     (case CBS_get_optional_asn1 tag cbs of
        (None, cbs') \<Rightarrow> (None, cbs')
      | (Some None, cbs') \<Rightarrow> (Some default_value, cbs')
      | (Some (Some child), cbs') \<Rightarrow>
          (case CBS_get_asn1_uint64 child of
             (None, _) \<Rightarrow> (None, cbs')
           | (Some out, child') \<Rightarrow>
               if CBS_len child' \<noteq> 0 then (None, cbs') else (Some out, cbs')))"

definition CBS_get_optional_asn1_bool :: "u32 \<Rightarrow> int \<Rightarrow> int reader" where
  "CBS_get_optional_asn1_bool tag default_value cbs =
     (case CBS_get_optional_asn1 tag cbs of
        (None, cbs') \<Rightarrow> (None, cbs')
      | (Some None, cbs') \<Rightarrow> (Some default_value, cbs')
      | (Some (Some child), cbs') \<Rightarrow>
          (case CBS_get_asn1 CBS_ASN1_BOOLEAN child of
             (None, _) \<Rightarrow> (None, cbs')
           | (Some child2, child') \<Rightarrow>
               if CBS_len child2 \<noteq> 1 \<or> CBS_len child' \<noteq> 0 then (None, cbs')
               else let boolean = hd (CBS_data child2)
                    in if boolean = 0 then (Some 0, cbs')
                       else if boolean = 0xff then (Some 1, cbs')
                       else (None, cbs')))"

section \<open>Bit strings\<close>

definition CBS_is_valid_asn1_bitstring :: "cbs \<Rightarrow> bool" where
  "CBS_is_valid_asn1_bitstring cbs =
     (case CBS_get_u8 cbs of
        (None, _) \<Rightarrow> False
      | (Some num_unused_bits, rest) \<Rightarrow>
          if num_unused_bits > 7 then False
          else if num_unused_bits = 0 then True
          else case CBS_get_last_u8 rest of
                 (None, _) \<Rightarrow> False
               | (Some last_byte, _) \<Rightarrow> last_byte AND (push_bit (unat num_unused_bits) 1 - 1) = 0)"

definition CBS_asn1_bitstring_has_bit :: "cbs \<Rightarrow> u32 \<Rightarrow> bool" where
  "CBS_asn1_bitstring_has_bit cbs b =
     (if \<not> CBS_is_valid_asn1_bitstring cbs then False
      else let byte_num = drop_bit 3 b + 1; bit_num = 7 - (b AND 7)
           in unat byte_num < CBS_len cbs
              \<and> (CBS_data cbs ! unat byte_num) AND push_bit (unat bit_num) 1 \<noteq> 0)"

section \<open>The distinguished encoding\<close>

definition der_tag :: "u32 \<Rightarrow> byte list" where
  "der_tag tag =
     (let tag_bits = ucast (drop_bit CBS_ASN1_TAG_SHIFT tag) AND 0xe0;
          tag_number = tag AND CBS_ASN1_TAG_NUMBER_MASK
      in if tag_number \<ge> 0x1f then (tag_bits OR 0x1f) # base128_octets (ucast tag_number)
         else [tag_bits OR ucast tag_number])"

definition der_len :: "nat \<Rightarrow> byte list" where
  "der_len n =
     (if n \<le> 0x7f then [of_nat n]
      else if n \<le> 0xff then 0x81 # be_bytes 1 n
      else if n \<le> 0xffff then 0x82 # be_bytes 2 n
      else if n \<le> 0xffffff then 0x83 # be_bytes 3 n
      else 0x84 # be_bytes 4 n)"

definition der :: "u32 \<Rightarrow> byte list \<Rightarrow> byte list" where
  "der tag data = der_tag tag @ der_len (length data) @ data"

section \<open>Tags are a codec\<close>

lemma tag_masks:
  "(0x1fffffff :: u32) = mask 29" "(0xe0 :: u32) = push_bit 5 (mask 3)" "(0x1f :: u32) = mask 5"
  "(0xe0 :: byte) = push_bit 5 (mask 3)" "(0x1f :: byte) = mask 5"
  by (simp_all add: mask_eq_exp_minus_1 push_bit_eq_mult)

lemma tag_join:
  fixes tag :: u32
  shows "push_bit 24 (ucast (ucast (drop_bit 24 tag) AND (0xe0 :: byte))) OR (tag AND 0x1fffffff) = tag"
  unfolding tag_masks by (rule bit_word_eqI) (auto simp: bit_simps)

lemma byte_fields:
  fixes t c :: byte
  assumes "c AND 0x1f = c"
  shows "((t AND 0xe0) OR c) AND 0xe0 = t AND 0xe0" and "((t AND 0xe0) OR c) AND 0x1f = c"
proof -
  show "((t AND 0xe0) OR c) AND 0xe0 = t AND 0xe0"
    by (subst assms [symmetric], unfold tag_masks, rule bit_word_eqI) (auto simp: bit_simps)
  show "((t AND 0xe0) OR c) AND 0x1f = c"
    by (subst (1 2) assms [symmetric], unfold tag_masks, rule bit_word_eqI) (auto simp: bit_simps)
qed

lemma small_number: 
  fixes n :: u32
  assumes "n < 0x1f"
  shows "(ucast n :: byte) AND 0x1f = ucast n" "(ucast (ucast n :: byte) :: u32) = n" "(ucast n :: byte) \<noteq> 0x1f"
proof -
  have "unat n < 31" using assms by (simp add: word_less_nat_alt)
  then have "n = of_nat (unat n) \<and> unat n < 31" by simp
  then obtain k where n: "n = of_nat k" and k: "k < 31" by blast
  show "(ucast n :: byte) AND 0x1f = ucast n" unfolding n
    by (rule all_lessI [OF _ k]) code_simp
  show "(ucast (ucast n :: byte) :: u32) = n" unfolding n
    by (rule all_lessI [OF _ k]) code_simp
  show "(ucast n :: byte) \<noteq> 0x1f" unfolding n
    by (rule all_lessI [OF _ k]) code_simp
qed

lemma ucast_and_e0: "(ucast (b :: byte) :: u32) AND 0xe0 = ucast (b AND 0xe0)"
 "(ucast (b :: byte) :: u32) AND 0x1f = ucast (b AND 0x1f)"
  unfolding tag_masks by (rule bit_word_eqI; auto simp: bit_simps dest: bit_imp_le_length)+

lemma parse_der_tag: "parse_asn1_tag (der_tag tag @ rest) = (Some tag, rest)"
proof -
  define t :: byte where "t = ucast (drop_bit 24 tag)"
  define n where "n = tag AND 0x1fffffff"
  have tag: "push_bit 24 (ucast (t AND 0xe0)) OR n = tag"
    unfolding t_def n_def by (rule tag_join)
  show ?thesis
  proof (cases "n < 0x1f")
    case True
    note s = small_number [OF True]
    have "der_tag tag = [t AND 0xe0 OR ucast n]"
    proof -
      from True have "\<not> 0x1f \<le> n" by (simp add: not_le)
      then show ?thesis by (simp add: der_tag_def t_def n_def Let_def)
    qed
    moreover have "n \<noteq> 0x1f"
      using True by auto
    ultimately show ?thesis
      using s tag by (simp add: parse_asn1_tag_def cbs_simps ucast_and_e0 byte_fields Let_def)
  next
    case False
    have d: "der_tag tag = (t AND 0xe0 OR 0x1f) # base128_octets (ucast n)"
      using False by (simp add: der_tag_def t_def n_def Let_def not_le)
    have n: "n \<le> 0x1fffffff" unfolding n_def by (rule word_and_le1)
    have "(ucast n :: u64) \<le> 0x1fffffff" "\<not> (ucast n :: u64) < 0x1f" "ucast (ucast n :: u64) = n"
      using n False by (simp_all add: word_le_nat_alt word_less_nat_alt ucast_ucast_up)
    then show ?thesis
      using base128.get_put [of "ucast n" rest] byte_fields [of "0x1f" t] tag
      by (simp add: d parse_asn1_tag_def cbs_simps ucast_and_e0 Let_def)
  qed
qed
lemma parse_asn1_tag_canonical:
  assumes "parse_asn1_tag cbs = (Some tag, rest)"
  shows "cbs = der_tag tag @ rest"
proof (cases cbs)
  case Nil
  with assms show ?thesis by (simp add: parse_asn1_tag_def cbs_simps)
next
  case (Cons b bs)
  show ?thesis
  proof (cases "b AND 0x1f = 0x1f")
    case False
    then have "(ucast (b AND 0x1f) :: u32) \<noteq> 0x1f"
      using ucast_up_inject [of "b AND 0x1f" "0x1f", where 'b = 32] by auto
    with False Cons assms have "tag = push_bit 24 (ucast b AND 0xe0) OR (ucast b AND 0x1f)" and r: "rest = bs"
      by (auto simp: parse_asn1_tag_def cbs_simps ucast_and_e0)
    note tag = this(1)
    have 1: "tag AND 0x1fffffff = ucast (b AND 0x1f)"
      unfolding tag ucast_and_e0 tag_masks by (rule bit_word_eqI) (auto simp: bit_simps)
    have 2: "ucast (drop_bit 24 tag) AND (0xe0 :: byte) = b AND 0xe0"
      unfolding tag ucast_and_e0 tag_masks by (rule bit_word_eqI) (auto simp: bit_simps)
    have 3: "(b AND 0xe0) OR (b AND 0x1f) = b"
      unfolding tag_masks by (rule bit_word_eqI) (auto simp: bit_simps)
    have "b AND 0x1f = 0x1f \<or> unat (b AND 0x1f) < 31"
    proof -
      have "b AND 0x1f = 0x1f \<or> b AND 0x1f < 31"
        by (rule all_bytesI [of "\<lambda>b. b AND 0x1f = 0x1f \<or> b AND 0x1f < 31" b]) code_simp
      then show ?thesis by (simp add: word_less_nat_alt)
    qed
    then have "unat (b AND 0x1f) < 31"
      using False by simp
    then have 4: "\<not> (0x1f :: u32) \<le> ucast (b AND 0x1f)"
      by (simp add: word_le_nat_alt)
    show ?thesis
      unfolding Cons der_tag_def Let_def 1 2 using 3 4 r by (simp add: ucast_ucast_up)
  next
    case True
    from True Cons assms obtain v where
      p: "parse_base128_integer bs = (Some v, rest)" and v: "v \<le> 0x1fffffff" "\<not> v < 0x1f"
      and tag: "tag = push_bit 24 (ucast (b AND 0xe0)) OR ucast v"
      by (auto simp: parse_asn1_tag_def cbs_simps ucast_and_e0 Let_def not_less split: option.splits prod.splits if_splits)
    have bs: "bs = base128_octets v @ rest"
      using p by (simp add: base128_octets_eq parse_base128_canonical)
    have tv: "take_bit 29 v = v"
      using v(1) by (simp add: word_unat_eq_iff unsigned_take_bit_eq take_bit_nat_eq_self word_le_nat_alt)
    have 1: "tag AND 0x1fffffff = ucast v"
      unfolding tag tag_masks by (subst (1 2) tv [symmetric]) (rule bit_word_eqI, auto simp: bit_simps)
    have 2: "ucast (drop_bit 24 tag) AND (0xe0 :: byte) = b AND 0xe0"
      unfolding tag tag_masks by (subst tv [symmetric]) (rule bit_word_eqI, auto simp: bit_simps)
    have 3: "(b AND 0xe0) OR 0x1f = b"
      using True unfolding tag_masks by (auto simp: bit_eq_iff bit_simps)
    have 4: "ucast (ucast v :: u32) = v"
      by (subst (1 2) tv [symmetric]) (rule bit_word_eqI, auto simp: bit_simps)
    have "unat (ucast v :: u32) = unat v"
      using 4 unat_ucast_up [of "ucast v :: u32", where 'b = 64] by simp
    then have 5: "0x1f \<le> (ucast v :: u32)"
      using v by (simp add: word_le_nat_alt word_less_nat_alt)
    show ?thesis
      unfolding Cons bs der_tag_def Let_def 1 2 3 4 using 5 by simp
  qed
qed

interpretation der_tag_codec: nonempty_codec der_tag parse_asn1_tag "\<lambda>_. True"
proof unfold_locales
  show "der_tag a \<noteq> []" for a
    by (simp add: der_tag_def Let_def)
qed (auto simp: parse_der_tag dest: parse_asn1_tag_canonical)

section \<open>Elements are a codec\<close>

lemma base128_hi_length: "n < 128 ^ k \<Longrightarrow> length (base128_hi n) \<le> k"
proof (induction k arbitrary: n)
  case 0
  then show ?case by simp
next
  case (Suc k)
  then have "n div 128 < 128 ^ k"
    by (simp add: less_mult_imp_div_less mult.commute)
  then have "length (base128_hi (n div 128)) \<le> k"
    by (rule Suc.IH)
  then show ?case by (subst base128_hi.simps) simp
qed

lemma der_tag_length: "length (der_tag tag) \<le> 6"
proof -
  have "unat (tag AND 0x1fffffff) < 128 ^ 5"
    using word_and_le1 [of tag "0x1fffffff"] by (simp add: word_le_nat_alt)
  then have "unat (tag AND 0x1fffffff) div 128 < 128 ^ 4"
    by simp
  then have "length (base128_hi (unat (tag AND 0x1fffffff) div 128)) \<le> 4"
    by (rule base128_hi_length)
  then show ?thesis
    by (simp add: der_tag_def Let_def base128_octets_eq base128_def)
qed

lemma asn1_long_length_eq:
  assumes k: "1 \<le> k" "k \<le> 4" and bs: "length bs = k" and h: "h < 2 ^ 63"
  shows "asn1_long_length ber_ok k h (bs @ rest) =
    (let minimal = (128 \<le> be_val bs \<and> 256 ^ (k - 1) \<le> be_val bs)
     in if ber_ok \<or> minimal then Some (be_val bs + h + k, h + k, \<not> minimal) else None)"
proof -
  let ?n = "be_val bs"
  have "?n < 256 ^ k"
    using be_val_bound [of bs] bs by simp
  also have "(256 :: nat) ^ k \<le> 256 ^ 4"
    using k by (intro power_increasing) auto
  finally have n: "?n < 2 ^ 32"
    by simp
  then have u: "unat (of_nat ?n :: u64) = ?n"
    by (simp add: unat_of_nat)
  have "(of_nat ?n :: u64) < 128 \<longleftrightarrow> ?n < 128"
    by (simp add: word_less_nat_alt u)
  moreover have "drop_bit ((k - 1) * 8) (of_nat ?n :: u64) = 0 \<longleftrightarrow> ?n < 256 ^ (k - 1)"
  proof -
    have e: "(2 :: nat) ^ ((k - 1) * 8) = 256 ^ (k - 1)"
      by (subst mult.commute, subst power_mult) simp
    have "drop_bit ((k - 1) * 8) (of_nat ?n :: u64) = 0 \<longleftrightarrow> ?n div 2 ^ ((k - 1) * 8) = 0"
      by (simp only: word_unat_eq_iff unat_drop_bit_div u unsigned_0)
    then show ?thesis
      unfolding e by (simp add: div_eq_0_iff)
  qed
  ultimately show ?thesis
    using k n h bs by (auto simp: asn1_long_length_def cbs_simps u Let_def not_less)
qed

lemma be_bytes_size_cases:
  assumes "length bs = k" "1 \<le> k" "k \<le> 4" "128 \<le> be_val bs" "256 ^ (k - 1) \<le> be_val bs"
  shows "der_len (be_val bs) = of_nat (128 + k) # bs"
proof -
  have "be_val bs < 256 ^ k"
    using be_val_bound [of bs] assms by simp
  moreover have "be_bytes k (be_val bs) = bs"
    using be_bytes_be_val [of bs] assms(1) by simp
  moreover have "k = 1 \<or> k = 2 \<or> k = 3 \<or> k = 4"
    using assms by auto
  ultimately show ?thesis
    using assms by (elim disjE) (auto simp: der_len_def)
qed

lemma der_len_cases:
  assumes "n < 2 ^ 32"
  obtains (short) "n < 128" "der_len n = [of_nat n]"
    | (long) k bs where "1 \<le> k" "k \<le> 4" "length bs = k" "be_val bs = n" "128 \<le> n" "256 ^ (k - 1) \<le> n"
        "der_len n = of_nat (128 + k) # bs"
proof (cases "n < 128")
  case True
  then show ?thesis by (intro short) (auto simp: der_len_def)
next
  case False
  have *: thesis if "k \<in> {1, 2, 3, 4}" "n < 256 ^ k" "256 ^ (k - 1) \<le> n" for k
  proof (rule long [of k "be_bytes k n"])
    show v: "be_val (be_bytes k n) = n"
      using that by (simp add: be_val_be_bytes)
    show "der_len n = of_nat (128 + k) # be_bytes k n"
      using be_bytes_size_cases [of "be_bytes k n" k] that False unfolding v by auto
  qed (use that False in auto)
  show ?thesis
  proof (cases "n < 256 ^ 1")
    case True
    then show ?thesis using False by (intro * [of 1]) auto
  next
    case 1: False
    show ?thesis
    proof (cases "n < 256 ^ 2")
      case True
      then show ?thesis using 1 by (intro * [of 2]) auto
    next
      case 2: False
      show ?thesis
      proof (cases "n < 256 ^ 3")
        case True
        then show ?thesis using 2 by (intro * [of 3]) auto
      next
        case False
        then show ?thesis using assms by (intro * [of 4]) auto
      qed
    qed
  qed
qed
lemma cbs_get_any_asn1_element_der:
  assumes "length data < 2 ^ 32"
  shows "cbs_get_any_asn1_element ber_ok (der tag data @ rest)
    = (Some (der tag data, tag, length (der_tag tag) + length (der_len (length data)), False), rest)"
proof -
  let ?n = "length data"
  from assms show ?thesis
  proof (cases rule: der_len_cases)
    case short
    have b: "unat (of_nat ?n :: byte) = ?n" "(of_nat ?n :: byte) AND 0x80 = 0"
      using short by (simp_all add: unat_of_nat byte_high_bit)
    have "size_add ?n (Suc (length (der_tag tag))) = ?n + Suc (length (der_tag tag))"
      using short der_tag_length [of tag] by (intro size_add_exact) simp
    then show ?thesis
      using short b
      by (simp add: cbs_get_any_asn1_element_def der_def parse_der_tag cbs_simps Let_def CBS_len_def
          asn1_take_element_def CBS_get_bytes_eq)
  next
    case (long k bs)
    let ?h = "Suc (length (der_tag tag))"
    have b: "(of_nat (128 + k) :: byte) AND 0x80 \<noteq> 0" "unat ((of_nat (128 + k) :: byte) AND 0x7f) = k"
      using long(1,2) by (auto simp: byte_high_bit unat_byte_low7 unat_of_nat_byte simp del: of_nat_add)
    have l: "asn1_long_length ber_ok k ?h (bs @ data @ rest) = Some (?n + ?h + k, ?h + k, False)"
      using long der_tag_length [of tag] by (subst asn1_long_length_eq) auto
    show ?thesis
      using long(1-3,7) b l
      by (simp add: cbs_get_any_asn1_element_def der_def parse_der_tag cbs_simps Let_def CBS_len_def
          asn1_take_element_def CBS_get_bytes_eq del: of_nat_add)
  qed
qed

lemma asn1_long_length_Some:
  assumes "asn1_long_length ber_ok k h header = Some (len, hl, ber)" and "h < 2 ^ 63"
  obtains bs r where "1 \<le> k" "k \<le> 4" "length bs = k" "header = bs @ r"
    "len = be_val bs + h + k" "hl = h + k" "ber \<longleftrightarrow> \<not> (128 \<le> be_val bs \<and> 256 ^ (k - 1) \<le> be_val bs)"
    "\<not> ber_ok \<longrightarrow> \<not> ber"
proof -
  have k: "1 \<le> k" "k \<le> 4" and l: "k \<le> length header"
    using assms(1) by (auto simp: asn1_long_length_def cbs_get_u_eq split: if_splits)
  define bs where "bs = take k header"
  define r where "r = drop k header"
  have h: "header = bs @ r" and bs: "length bs = k"
    using l by (simp_all add: bs_def r_def)
  show ?thesis
    using that [OF k bs h] assms(1) asn1_long_length_eq [OF k bs assms(2), of ber_ok r]
    unfolding h by (auto simp: Let_def split: if_splits)
qed

lemma asn1_take_element_Some:
  "asn1_take_element len tag hl ber cbs = (Some (out, tag', hl', ber'), rest) \<longleftrightarrow>
   cbs = out @ rest \<and> length out = len \<and> tag' = tag \<and> hl' = hl \<and> ber' = ber"
  by (auto simp: asn1_take_element_def CBS_get_bytes_eq)

lemma asn1_take_element_None:
  "asn1_take_element len tag hl ber cbs = (None, rest) \<Longrightarrow> rest = cbs"
  by (auto simp: asn1_take_element_def CBS_get_bytes_eq split: if_splits)

lemma cbs_get_any_asn1_element_None:
  "cbs_get_any_asn1_element ber_ok cbs = (None, rest) \<Longrightarrow> rest = cbs"
  by (auto simp: cbs_get_any_asn1_element_def Let_def dest: asn1_take_element_None
      split: option.splits prod.splits if_splits)

text \<open>What the element reader takes: tag, length octets, contents.\<close>

lemma byte_long_form: "b AND 0x80 = 0 \<or> of_nat (128 + unat (b AND 0x7f)) = (b :: byte)"
proof (cases "b AND 0x80 = 0")
  case False
  then have b: "128 \<le> unat b"
    by (simp add: byte_high_bit)
  then obtain m where m: "unat b = 128 + m"
    by (auto simp: le_iff_add)
  then have "m < 128" using unat_byte_less [of b] by linarith
  then have "128 + unat b mod 128 = unat b"
    by (simp add: m)
  then have "(of_nat (128 + unat b mod 128) :: byte) = of_nat (unat b)"
    by simp
  then show ?thesis by (simp add: unat_byte_low7 del: of_nat_add)
qed simp

lemma cbs_get_any_asn1_element_Some:
  assumes "cbs_get_any_asn1_element ber_ok cbs = (Some (out, tag, hl, ber), rest)"
  obtains lenbytes data where "out = der_tag tag @ lenbytes @ data" "cbs = out @ rest"
    "hl = length (der_tag tag) + length lenbytes" "lenbytes \<noteq> []" "\<not> ber_ok \<longrightarrow> \<not> ber"
    "\<not> ber \<longrightarrow> lenbytes = der_len (length data) \<and> length data < 2 ^ 32"
proof -
  from assms obtain header b where p: "parse_asn1_tag cbs = (Some tag, b # header)"
    by (auto simp: cbs_get_any_asn1_element_def CBS_get_u8_def cbs_get_def Let_def asn1_take_element_Some
        neq_Nil_conv split: option.splits prod.splits if_splits list.splits)
  then have cbs: "cbs = der_tag tag @ b # header"
    by (rule parse_asn1_tag_canonical)
  let ?h = "Suc (length (der_tag tag))"
  have h: "?h \<le> 7"
    using der_tag_length [of tag] by simp
  show ?thesis
  proof (cases "b AND 0x80 = 0")
    case True
    then have n: "unat b < 128"
      by (simp add: byte_high_bit)
    have "size_add (unat b) ?h = unat b + ?h"
      using h n by (intro size_add_exact) simp
    with assms p True have "cbs = out @ rest" "length out = unat b + ?h" "hl = ?h" "\<not> ber"
      by (auto simp: cbs_get_any_asn1_element_def cbs_simps Let_def CBS_len_def cbs asn1_take_element_Some)
    moreover from this have out: "out = der_tag tag @ [b] @ take (unat b) header"
    proof -
      have "out = take (unat b + ?h) cbs" using calculation by simp
      then show ?thesis by (simp add: cbs)
    qed
    moreover have "length (take (unat b) header) = unat b"
      using calculation by simp
    moreover have "der_len (unat b) = [b]"
      using n by (simp add: der_len_def)
    ultimately show ?thesis
      using n by (intro that [of "[b]" "take (unat b) header"]) auto
  next
    case False
    let ?k = "unat (b AND 0x7f)"
    have b: "of_nat (128 + ?k) = b"
      using False byte_long_form [of b] by blast
    show ?thesis
    proof (cases "ber_ok \<and> tag AND CBS_ASN1_CONSTRUCTED \<noteq> 0 \<and> ?k = 0")
      case True
      with assms p False have "cbs = out @ rest" "length out = ?h" "hl = ?h" "ber"
        by (auto simp: cbs_get_any_asn1_element_def cbs_simps Let_def CBS_len_def cbs asn1_take_element_Some)
      moreover from this have "out = der_tag tag @ [b]"
      proof -
        have "out = take ?h cbs" using calculation by simp
        then show ?thesis by (simp add: cbs)
      qed
      ultimately show ?thesis
        using True by (intro that [of "[b]" "[]"]) auto
    next
      case no_indef: False
      with assms p False obtain len where
        l: "asn1_long_length ber_ok ?k ?h header = Some (len, hl, ber)"
        and t: "cbs = out @ rest" "length out = len"
        by (auto simp: cbs_get_any_asn1_element_def cbs_simps Let_def CBS_len_def cbs asn1_take_element_Some
            split: option.splits)
      from l obtain bs r where bs: "1 \<le> ?k" "?k \<le> 4" "length bs = ?k" "header = bs @ r"
        "len = be_val bs + ?h + ?k" "hl = ?h + ?k"
        "ber \<longleftrightarrow> \<not> (128 \<le> be_val bs \<and> 256 ^ (?k - 1) \<le> be_val bs)" "\<not> ber_ok \<longrightarrow> \<not> ber"
        by (rule asn1_long_length_Some) (use h in simp)
      have out: "out = der_tag tag @ (b # bs) @ take (be_val bs) r"
      proof -
        have "out = take len cbs" using t by simp
        then show ?thesis by (simp add: cbs bs)
      qed
      have dl: "length (take (be_val bs) r) = be_val bs"
        using t(2) bs(3,5) unfolding out by simp
      have "be_val bs < 2 ^ 32"
        using be_val_bound [of bs] power_increasing [of ?k 4 "256 :: nat"] bs(2,3) by simp
      moreover have "\<not> ber \<longrightarrow> der_len (be_val bs) = b # bs"
        using be_bytes_size_cases [of bs ?k] bs b by auto
      ultimately show ?thesis
        using bs(3,6,8) t out dl by (intro that [of "b # bs" "take (be_val bs) r"]) auto
    qed
  qed
qed


lemma cbs_get_any_asn1_element_no_ber:
  "cbs_get_any_asn1_element ber_ok cbs = (Some (out, tag, hl, False), rest) \<longleftrightarrow>
   (\<exists>data. length data < 2 ^ 32 \<and> out = der tag data \<and> cbs = der tag data @ rest \<and>
      hl = length (der_tag tag) + length (der_len (length data)))"
  (is "?get \<longleftrightarrow> ?der")
proof
  assume ?get
  then show ?der
    by (rule cbs_get_any_asn1_element_Some) (auto simp: der_def)
next
  assume ?der
  then show ?get
    by (auto simp: cbs_get_any_asn1_element_der)
qed

lemma cbs_get_any_asn1_element_der_only:
  "cbs_get_any_asn1_element False cbs = (Some (out, tag, hl, ber), rest) \<Longrightarrow> \<not> ber"
  by (erule cbs_get_any_asn1_element_Some) simp

lemma CBS_get_any_asn1_element_iff:
  "CBS_get_any_asn1_element cbs = (Some (out, tag, hl), rest) \<longleftrightarrow>
   (\<exists>data. length data < 2 ^ 32 \<and> out = der tag data \<and> cbs = der tag data @ rest \<and>
      hl = length (der_tag tag) + length (der_len (length data)))"
proof -
  have "CBS_get_any_asn1_element cbs = (Some (out, tag, hl), rest) \<longleftrightarrow>
      cbs_get_any_asn1_element False cbs = (Some (out, tag, hl, False), rest)"
    using cbs_get_any_asn1_element_der_only [of cbs out tag hl True rest]
    by (auto simp: CBS_get_any_asn1_element_def split: option.splits prod.splits)
  then show ?thesis
    by (simp only: cbs_get_any_asn1_element_no_ber)
qed

lemma CBS_get_any_asn1_element_der:
  "length data < 2 ^ 32 \<Longrightarrow> CBS_get_any_asn1_element (der tag data @ rest)
     = (Some (der tag data, tag, length (der_tag tag) + length (der_len (length data))), rest)"
  by (simp add: CBS_get_any_asn1_element_def cbs_get_any_asn1_element_der)

lemma CBS_get_any_asn1_element_None:
  "CBS_get_any_asn1_element cbs = (None, rest) \<Longrightarrow> rest = cbs"
  by (auto simp: CBS_get_any_asn1_element_def dest: cbs_get_any_asn1_element_None
      split: option.splits prod.splits)

lemma CBS_skip_der_header:
  "CBS_skip (length (der_tag tag) + length (der_len (length data))) (der tag data) = (Some (), data)"
  by (simp add: CBS_skip_eq der_def)

lemma CBS_get_any_asn1_iff:
  "CBS_get_any_asn1 cbs = (Some (data, tag), rest) \<longleftrightarrow> length data < 2 ^ 32 \<and> cbs = der tag data @ rest"
  (is "?get \<longleftrightarrow> ?der")
proof
  assume ?get
  then show ?der
    by (auto simp: CBS_get_any_asn1_def CBS_get_any_asn1_element_iff CBS_skip_der_header
        split: option.splits prod.splits)
next
  assume ?der
  then show ?get
    by (auto simp: CBS_get_any_asn1_def CBS_get_any_asn1_element_der CBS_skip_der_header)
qed

lemma der_nonempty [simp]: "der tag data \<noteq> []"
  by (simp add: der_def der_tag_codec.put_nonempty)

interpretation der_codec: nonempty_codec "\<lambda>(data, tag). der tag data" CBS_get_any_asn1
  "\<lambda>(data, tag). length data < 2 ^ 32"
  by unfold_locales (auto simp: CBS_get_any_asn1_iff)

lemma cbs_get_asn1_der:
  "length data < 2 ^ 32 \<Longrightarrow> cbs_get_asn1 tag_value skip_header (der tag data @ rest)
     = (if tag = tag_value then Some (if skip_header then data else der tag data) else None, rest)"
  by (simp add: cbs_get_asn1_def CBS_get_any_asn1_element_der CBS_skip_der_header)

lemma CBS_get_asn1_iff:
  "CBS_get_asn1 tag cbs = (Some data, rest) \<longleftrightarrow> length data < 2 ^ 32 \<and> cbs = der tag data @ rest"
  (is "?get \<longleftrightarrow> ?der")
proof
  assume ?get
  then show ?der
    by (auto simp: CBS_get_asn1_def cbs_get_asn1_def CBS_get_any_asn1_element_iff
        CBS_skip_der_header split: option.splits prod.splits if_splits)
next
  assume ?der
  then show ?get
    by (auto simp: CBS_get_asn1_def cbs_get_asn1_der)
qed

section \<open>Properties\<close>

text \<open>C2: Reading a buffer to its end with \<open>CBS_get_any_asn1\<close> succeeds exactly on the
  concatenations of distinguished encodings, and the elements it returns determine the bytes: no
  second encoding of an element is accepted.\<close>

theorem CBS_get_any_asn1_canonical:
  "read_all (length bs) CBS_get_any_asn1 bs = Some xs \<longleftrightarrow>
     list_all (\<lambda>(data, tag). length data < 2 ^ 32) xs \<and> bs = concat (map (\<lambda>(data, tag). der tag data) xs)"
  by (rule der_codec.read_all_complete)

text \<open>C30: An element that the BER reader takes without reporting BER is one the DER reader takes,
  with the same tag, header and bytes, and conversely.\<close>

theorem CBS_get_any_ber_asn1_element_der:
  "CBS_get_any_ber_asn1_element cbs = (Some (out, tag, hl, False), rest) \<longleftrightarrow>
   CBS_get_any_asn1_element cbs = (Some (out, tag, hl), rest)"
  by (simp only: CBS_get_any_ber_asn1_element_def CBS_get_any_asn1_element_iff cbs_get_any_asn1_element_no_ber)

end
