(* ===== verification/Asn1_Int.thy ===== *)
theory Asn1_Int
  imports Asn1_Parse
begin

text \<open>
  The contents of ASN.1 INTEGER and BOOLEAN: two's complement numbers of minimal length
  (\<open>int_octets\<close>), and the proof that \<open>CBS_get_asn1_uint64\<close>, \<open>CBS_get_asn1_int64\<close> and
  \<open>CBS_get_asn1_bool\<close> of \<open>crypto/bytestring/cbs.c\<close> read exactly the distinguished encodings of
  the numbers that fit their result type.
\<close>

section \<open>Two's complement numbers of minimal length\<close>

definition int_val :: "byte list \<Rightarrow> int" where
  "int_val bs = int (be_val bs) - (if bs \<noteq> [] \<and> hd bs \<ge> 0x80 then 256 ^ length bs else 0)"

function int_octets :: "int \<Rightarrow> byte list" where
  "int_octets i =
     (if -128 \<le> i \<and> i < 128 then [of_int i] else int_octets (i div 256) @ [of_int i])"
  by pat_completeness auto
termination
  by (relation "measure (\<lambda>i. nat \<bar>i\<bar>)") auto

declare int_octets.simps [simp del]

lemma int_octets_nonempty [simp]: "int_octets i \<noteq> []"
  by (subst int_octets.simps) simp

lemma int_val_snoc: "bs \<noteq> [] \<Longrightarrow> int_val (bs @ [b]) = 256 * int_val bs + int (unat b)"
  by (simp add: int_val_def be_val_append)

lemma int_val_single: "int_val [b] = sint b"
  by (rule all_bytesI [of "\<lambda>b. int_val [b] = sint b" b]) code_simp

lemma uint_of_int_byte: "int (unat (of_int i :: byte)) = i mod 256"
  by (simp add: uint_word_of_int)

lemma int_val_int_octets: "int_val (int_octets i) = i"
proof (induction i rule: int_octets.induct)
  case (1 i)
  show ?case
  proof (cases "-128 \<le> i \<and> i < 128")
    case True
    then have "sint (of_int i :: byte) = i"
      by (simp add: signed_of_int signed_take_bit_int_eq_self)
    with True show ?thesis
      by (subst int_octets.simps) (simp add: int_val_single)
  next
    case False
    then have "int_val (int_octets i) = 256 * (i div 256) + i mod 256"
      by (subst int_octets.simps) (simp only: int_val_snoc int_octets_nonempty 1 uint_of_int_byte if_False simp_thms)
    then show ?thesis by simp
  qed
qed

definition minimal_int :: "byte list \<Rightarrow> bool" where
  "minimal_int bs \<longleftrightarrow> CBS_is_valid_asn1_integer bs \<noteq> None"

lemma minimal_int_simps [simp]:
  "\<not> minimal_int []" "minimal_int [a]"
  "minimal_int (a # b # bs) \<longleftrightarrow> \<not> (a = 0 \<and> b AND 0x80 = 0 \<or> a = 0xff \<and> b AND 0x80 \<noteq> 0)"
  by (auto simp: minimal_int_def CBS_is_valid_asn1_integer_def cbs_simps Let_def)

lemma uint_byte:
  obtains n where "uint (b :: byte) = n" "0 \<le> n" "n < 256" "b AND 0x80 = 0 \<longleftrightarrow> n < 128"
proof (rule that [of "uint b"])
  show "b AND 0x80 = 0 \<longleftrightarrow> uint b < 128"
    by (rule all_bytesI [of "\<lambda>b. b AND 0x80 = 0 \<longleftrightarrow> uint b < 128" b]) code_simp
qed (use unsigned_less [of b, where 'a = int] in simp_all)

lemma minimal_int_two:
  "minimal_int [a, b] \<longleftrightarrow> \<not> (-128 \<le> int_val [a, b] \<and> int_val [a, b] < 128)"
proof -
  obtain n where n: "uint b = n" "0 \<le> n" "n < 256" "b AND 0x80 = 0 \<longleftrightarrow> n < 128"
    by (rule uint_byte)
  have v: "int_val [a, b] = 256 * sint a + n"
    using int_val_snoc [of "[a]" b] n(1) by (simp add: int_val_single)
  have "a = 0 \<longleftrightarrow> sint a = 0"
    by (rule all_bytesI [of "\<lambda>a. a = 0 \<longleftrightarrow> sint a = 0" a]) code_simp
  moreover have "a = 0xff \<longleftrightarrow> sint a = -1"
    by (rule all_bytesI [of "\<lambda>a. a = 0xff \<longleftrightarrow> sint a = -1" a]) code_simp
  ultimately show ?thesis
    unfolding minimal_int_simps v n(4) using n(2,3)
    by (cases "sint a = 0"; cases "sint a = -1"; cases "0 < sint a") (auto simp: not_less)
qed

lemma minimal_int_range:
  "minimal_int bs \<Longrightarrow> 2 \<le> length bs \<Longrightarrow> \<not> (-128 \<le> int_val bs \<and> int_val bs < 128)"
proof (induction bs rule: rev_induct)
  case Nil
  then show ?case by simp
next
  case (snoc b bs)
  show ?case
  proof (cases "2 \<le> length bs")
    case True
    then obtain c d r where bs: "bs = c # d # r"
      by (cases bs; cases "tl bs") auto
    with snoc.prems have "minimal_int bs" by simp
    with True snoc.IH have IH: "\<not> (-128 \<le> int_val bs \<and> int_val bs < 128)" by blast
    obtain n where n: "uint b = n" "0 \<le> n" "n < 256"
      by (rule uint_byte)
    have v: "int_val (bs @ [b]) = 256 * int_val bs + n"
      using bs n(1) by (subst int_val_snoc) auto
    show ?thesis
    proof (cases "int_val bs < -128")
      case True
      then show ?thesis using v n(3) by linarith
    next
      case False
      then have "128 \<le> int_val bs" using IH by linarith
      then show ?thesis using v n(2) by linarith
    qed
  next
    case False
    then obtain a where "bs = [a]"
      using snoc.prems by (cases bs; cases "tl bs") auto
    then show ?thesis
      using snoc.prems minimal_int_two [of a b] by simp
  qed
qed

lemma int_octets_int_val: "minimal_int bs \<Longrightarrow> int_octets (int_val bs) = bs"
proof (induction bs rule: rev_induct)
  case Nil
  then show ?case by simp
next
  case (snoc b bs)
  show ?case
  proof (cases "bs = []")
    case True
    have "-128 \<le> sint b \<and> sint b < 128"
      using sint_greater_eq [of b] sint_less [of b] by simp
    then show ?thesis
      using True by (subst int_octets.simps) (simp add: int_val_single)
  next
    case False
    then have r: "\<not> (-128 \<le> int_val (bs @ [b]) \<and> int_val (bs @ [b]) < 128)"
      using snoc.prems by (intro minimal_int_range) (cases bs, auto simp: Suc_le_eq)
    have v: "int_val (bs @ [b]) = 256 * int_val bs + int (unat b)"
      using False by (rule int_val_snoc)
    have "int (unat b) < 256" using unat_byte_less [of b] by linarith
    then have d: "int_val (bs @ [b]) div 256 = int_val bs" "int_val (bs @ [b]) mod 256 = int (unat b)"
      unfolding v by simp_all
    have "minimal_int bs"
      using snoc.prems False by (cases bs; cases "tl bs") auto
    then have IH: "int_octets (int_val bs) = bs"
      by (rule snoc.IH)
    have "uint (of_int (int_val (bs @ [b])) :: byte) = uint b"
      using d(2) uint_of_int_byte [of "int_val (bs @ [b])"] by simp
    then have "(of_int (int_val (bs @ [b])) :: byte) = b"
      by (rule word_uint_eqI)
    then show ?thesis
      using r d(1) IH by (subst int_octets.simps) auto
  qed
qed

lemma minimal_int_octets: "minimal_int (int_octets i)"
proof (induction i rule: int_octets.induct)
  case (1 i)
  show ?case
  proof (cases "-128 \<le> i \<and> i < 128")
    case True
    then show ?thesis by (subst int_octets.simps) simp
  next
    case False
    then have IH: "minimal_int (int_octets (i div 256))" and
      e: "int_octets i = int_octets (i div 256) @ [of_int i]"
      using 1 by (auto simp: int_octets.simps [of i])
    show ?thesis
    proof (cases "int_octets (i div 256)")
      case Nil
      then show ?thesis by simp
    next
      case (Cons c r)
      show ?thesis
      proof (cases r)
        case Nil
        then have "int_octets i = [c, of_int i]" using e Cons by simp
        then show ?thesis
          using False int_val_int_octets [of i] minimal_int_two by metis
      next
        case (Cons d r')
        then show ?thesis using IH e \<open>int_octets (i div 256) = c # r\<close> by simp
      qed
    qed
  qed
qed

lemma minimal_int_iff: "minimal_int bs \<longleftrightarrow> bs = int_octets (int_val bs)"
  using int_octets_int_val minimal_int_octets by metis

section \<open>The readers\<close>

lemma byte_ge_80: "(0x80 :: byte) \<le> b \<longleftrightarrow> b AND 0x80 \<noteq> 0"
  by (rule all_bytesI [of "\<lambda>b. (0x80 :: byte) \<le> b \<longleftrightarrow> b AND 0x80 \<noteq> 0" b]) code_simp

lemma int_be_val_bound: "int (be_val bs) < 256 ^ length bs"
proof -
  have "int (be_val bs) < int (256 ^ length bs)"
    using be_val_bound [of bs] by (simp only: of_nat_less_iff)
  then show ?thesis by simp
qed

lemma int_val_negative: "bs \<noteq> [] \<Longrightarrow> int_val bs < 0 \<longleftrightarrow> hd bs AND 0x80 \<noteq> 0"
  using int_be_val_bound [of bs] by (simp add: int_val_def byte_ge_80)

lemma int_val_nonneg: "0 \<le> int_val bs \<Longrightarrow> int_val bs = int (be_val bs)"
  using int_be_val_bound [of bs] by (auto simp: int_val_def split: if_splits)

lemma CBS_is_valid_asn1_integer_eq:
  "CBS_is_valid_asn1_integer bs = (if minimal_int bs then Some (int_val bs < 0) else None)"
proof (cases bs)
  case Nil
  then show ?thesis by (simp add: CBS_is_valid_asn1_integer_def cbs_simps)
next
  case (Cons a r)
  then show ?thesis
    using int_val_negative [of bs]
    by (cases r) (auto simp: CBS_is_valid_asn1_integer_def cbs_simps Let_def)
qed

lemma asn1_uint64_loop_eq:
  assumes "n < 2 ^ 64"
  shows "asn1_uint64_loop (of_nat n) bs =
    (if n * 256 ^ length bs + be_val bs < 2 ^ 64 then Some (of_nat (n * 256 ^ length bs + be_val bs)) else None)"
  using assms
proof (induction bs arbitrary: n)
  case Nil
  then show ?case by simp
next
  case (Cons b bs)
  have u: "unat (of_nat n :: u64) = n"
    using Cons.prems by (simp add: unat_of_nat)
  have d: "drop_bit 56 (of_nat n :: u64) = 0 \<longleftrightarrow> n < 2 ^ 56"
    by (simp only: word_unat_eq_iff unat_drop_bit_div u unsigned_0 div_eq_0_iff) simp
  have e: "n * 256 ^ length (b # bs) + be_val (b # bs) = (n * 256 + unat b) * 256 ^ length bs + be_val bs"
    by (simp add: algebra_simps)
  show ?case
  proof (cases "n < 2 ^ 56")
    case True
    then have "n * 256 + unat b < 2 ^ 64"
      using unat_byte_less [of b] by (simp del: unat_byte_less)
    then have "asn1_uint64_loop (of_nat (n * 256 + unat b)) bs =
      (if (n * 256 + unat b) * 256 ^ length bs + be_val bs < 2 ^ 64
       then Some (of_nat ((n * 256 + unat b) * 256 ^ length bs + be_val bs)) else None)"
      by (rule Cons.IH)
    moreover have "push_bit 8 (of_nat n :: u64) OR ucast b = of_nat (n * 256 + unat b)"
      by (simp add: push_bit_or_byte)
    ultimately show ?thesis
      using True d unfolding e by (simp only: asn1_uint64_loop.simps if_False if_True not_True_eq_False)
  next
    case False
    then have "2 ^ 64 \<le> (n * 256 + unat b) * 1" by simp
    also have "\<dots> \<le> (n * 256 + unat b) * 256 ^ length bs"
      by (intro mult_left_mono) auto
    also have "\<dots> \<le> (n * 256 + unat b) * 256 ^ length bs + be_val bs" by simp
    finally have "\<not> (n * 256 + unat b) * 256 ^ length bs + be_val bs < 2 ^ 64"
      by (simp only: not_less)
    then show ?thesis
      using False d unfolding e by (simp only: asn1_uint64_loop.simps if_False if_True not_False_eq_True)
  qed
qed

lemma int_octets_length_le:
  "length (int_octets i) \<le> Suc k \<longleftrightarrow> - (2 ^ (8 * k + 7)) \<le> i \<and> i < 2 ^ (8 * k + 7)"
proof (induction k arbitrary: i)
  case 0
  show ?case by (subst int_octets.simps) (auto simp: le_Suc_eq)
next
  case (Suc k)
  show ?case
  proof (cases "-128 \<le> i \<and> i < 128")
    case True
    have "(128 :: int) \<le> 2 ^ (8 * Suc k + 7)"
      using power_increasing [of 7 "8 * Suc k + 7" "2 :: int"] by simp
    with True show ?thesis by (subst int_octets.simps) auto
  next
    case False
    then have "length (int_octets i) \<le> Suc (Suc k) \<longleftrightarrow> length (int_octets (i div 256)) \<le> Suc k"
      by (subst int_octets.simps) auto
    also have "\<dots> \<longleftrightarrow> - (2 ^ (8 * k + 7)) \<le> i div 256 \<and> i div 256 < 2 ^ (8 * k + 7)"
      by (rule Suc.IH)
    also have "\<dots> \<longleftrightarrow> - (2 ^ (8 * Suc k + 7)) \<le> i \<and> i < 2 ^ (8 * Suc k + 7)"
    proof -
      have "(2 :: int) ^ (8 * Suc k + 7) = 256 * 2 ^ (8 * k + 7)"
        by (simp add: power_add)
      then show ?thesis by (simp only:) linarith
    qed
    finally show ?thesis .
  qed
qed

lemma int_octets_length_le_8: "length (int_octets i) \<le> 8 \<longleftrightarrow> - (2 ^ 63) \<le> i \<and> i < 2 ^ 63"
  using int_octets_length_le [of i 7] by simp

lemma int_octets_u64_length: "length (int_octets (uint (v :: u64))) \<le> 9"
proof -
  obtain i where i: "uint v = i" "0 \<le> i" "i < 2 ^ 64"
    using unsigned_less [of v, where 'a = int] by simp
  then show ?thesis
    using int_octets_length_le [of i 8] by simp
qed

lemma be_val_replicate_ff: "be_val (replicate k 0xff) = 256 ^ k - 1"
proof (induction k)
  case (Suc k)
  have "(1 :: nat) \<le> 256 ^ k" by simp
  moreover have "unat (0xff :: byte) = 255" by simp
  ultimately show ?case using Suc by (simp del: unsigned_numeral)
qed simp

lemma be_val_replicate_0: "be_val (replicate k 0) = 0"
  by (induction k) auto

lemma sint_of_nat_u64: "n < 2 ^ 64 \<Longrightarrow> sint (of_nat n :: u64) = (if n < 2 ^ 63 then int n else int n - 2 ^ 64)"
proof -
  assume n: "n < 2 ^ 64"
  have "sint (of_nat n :: u64) = signed_take_bit 63 (int n)"
    by (simp add: signed_of_nat)
  also have "\<dots> = (if n < 2 ^ 63 then int n else int n - 2 ^ 64)"
  proof (cases "n < 2 ^ 63")
    case True
    then show ?thesis by (simp add: signed_take_bit_int_eq_self)
  next
    case False
    then have "(int n + 2 ^ 63) mod 2 ^ 64 = int n - 2 ^ 63"
      using n by (intro int_mod_pos_eq [of _ _ 1]) auto
    with False show ?thesis
      by (simp add: signed_take_bit_eq_take_bit_shift take_bit_eq_mod)
  qed
  finally show ?thesis .
qed

lemma int64_of_le_bytes_eq:
  assumes "bs \<noteq> []" and "length bs \<le> 8"
  shows "int64_of_le_bytes (rev bs @ replicate (8 - length bs) (if int_val bs < 0 then 0xff else 0)) = int_val bs"
proof -
  define m where "m = length bs"
  have m: "1 \<le> m" "m \<le> 8" using assms by (auto simp: m_def Suc_le_eq)
  have e: "(256 :: nat) ^ (8 - m) * 256 ^ m = 2 ^ 64"
    using m by (simp flip: power_add)
  have b: "be_val bs < 256 ^ m" unfolding m_def by (rule be_val_bound)
  have le: "(256 :: nat) ^ m \<le> 2 ^ 64"
    using power_increasing [OF m(2), of "256 :: nat"] by simp
  show ?thesis
  proof (cases "int_val bs < 0")
    case True
    let ?n = "2 ^ 64 - 256 ^ m + be_val bs"
    have "be_val (replicate (8 - m) 0xff @ bs) = (256 ^ (8 - m) - 1) * 256 ^ m + be_val bs"
      by (simp add: be_val_append be_val_replicate_ff m_def)
    also have "\<dots> = ?n"
      by (simp only: diff_mult_distrib e mult_1)
    finally have v: "be_val (replicate (8 - m) 0xff @ bs) = ?n" .
    have i: "int_val bs = int (be_val bs) - 256 ^ m"
      using True by (auto simp: int_val_def m_def split: if_splits)
    have h: "2 ^ 63 \<le> ?n"
    proof -
      from True have h: "0x80 \<le> hd bs" by (auto simp: int_val_def split: if_splits)
      obtain c r where bs: "bs = c # r" using assms(1) by (cases bs) auto
      have "128 * 256 ^ (m - 1) \<le> be_val bs"
      proof -
        have "128 \<le> unat c" using h bs by (simp add: word_le_nat_alt)
        then have "128 * 256 ^ length r \<le> unat c * 256 ^ length r" by (rule mult_right_mono) simp
        then show ?thesis by (simp add: bs m_def trans_le_add1)
      qed
      moreover have "256 ^ m = 256 * (256 :: nat) ^ (m - 1)" using m by (simp flip: power_Suc)
      moreover have "(256 :: nat) ^ (m - 1) \<le> 256 ^ 7" using m by (intro power_increasing) auto
      ultimately show ?thesis using le by simp
    qed
    obtain n where n: "n = ?n" by blast
    have "n < 2 ^ 64" "\<not> n < 2 ^ 63"
      using b le h unfolding n by linarith+
    then have "sint (of_nat n :: u64) = int n - 2 ^ 64"
      by (simp only: sint_of_nat_u64 if_False)
    also have "\<dots> = int_val bs"
      using le i unfolding n by (simp add: of_nat_diff)
    finally show ?thesis
      using True v n by (simp only: int64_of_le_bytes_def m_def rev_append rev_rev_ident rev_replicate if_True)
  next
    case False
    have i: "int_val bs = int (be_val bs)"
      using False by (intro int_val_nonneg) simp
    obtain c r where bs: "bs = c # r" using assms(1) by (cases bs) auto
    have "be_val bs < 2 ^ 63"
    proof -
      have "0 \<le> int_val bs" using False by simp
      then have "\<not> 0x80 \<le> c"
        using int_be_val_bound [of bs] by (auto simp: int_val_def bs split: if_splits)
      then have "unat c \<le> 127" by (simp add: word_le_nat_alt)
      then have "unat c * 256 ^ length r \<le> 127 * 256 ^ length r"
        by (rule mult_right_mono) simp
      moreover have "(256 :: nat) ^ length r \<le> 256 ^ 7"
        using assms(2) bs by (intro power_increasing) auto
      moreover have "be_val bs = unat c * 256 ^ length r + be_val r" by (simp add: bs)
      ultimately have "be_val bs < 128 * 256 ^ 7"
        using be_val_bound [of r] by linarith
      then show ?thesis by simp
    qed
    then show ?thesis
      using False i sint_of_nat_u64 [of "be_val bs"] by (simp add: int64_of_le_bytes_def be_val_append be_val_replicate_0)
  qed
qed


lemma CBS_get_asn1_uint64_iff:
  "CBS_get_asn1_uint64 cbs = (Some v, rest) \<longleftrightarrow> 
   cbs = der CBS_ASN1_INTEGER (int_octets (uint v)) @ rest"
proof -
  have "CBS_get_asn1_uint64 cbs = (Some v, rest) \<longleftrightarrow>
     (\<exists>bs. CBS_get_asn1 CBS_ASN1_INTEGER cbs = (Some bs, rest) \<and> minimal_int bs \<and> int_val bs = uint v)"
    (is "?get \<longleftrightarrow> (\<exists>bs. ?is bs)")
  proof -
    have *: "asn1_uint64_loop 0 bs = Some v \<longleftrightarrow> int_val bs = uint v" if "0 \<le> int_val bs" for bs
    proof -
      have "asn1_uint64_loop 0 bs = (if be_val bs < 2 ^ 64 then Some (of_nat (be_val bs)) else None)"
        using asn1_uint64_loop_eq [of 0 bs] by simp
      moreover have "of_nat (be_val bs) = v \<longleftrightarrow> be_val bs = unat v" if "be_val bs < 2 ^ 64"
        using that by (auto simp: unat_of_nat)
      moreover have "unat v < 2 ^ 64"
        using unsigned_less [of v] by simp
      moreover have "int_val bs = uint v \<longleftrightarrow> be_val bs = unat v"
        unfolding int_val_nonneg [OF that] by (metis of_nat_eq_iff unat_eq_nat_uint uint_nat)
      ultimately show ?thesis by auto
    qed
    show ?thesis
      by (auto simp: CBS_get_asn1_uint64_def CBS_is_unsigned_asn1_integer_def CBS_is_valid_asn1_integer_eq
          CBS_data_def * not_less split: option.splits prod.splits if_splits)
  qed
  also have "\<dots> \<longleftrightarrow> cbs = der CBS_ASN1_INTEGER (int_octets (uint v)) @ rest"
    unfolding CBS_get_asn1_iff minimal_int_iff using int_octets_u64_length [of v]
    by (auto simp: int_val_int_octets intro!: exI [of _ "int_octets (uint v)"])
  finally show ?thesis .
qed


lemma CBS_get_asn1_int64_iff:
  "CBS_get_asn1_int64 cbs = (Some i, rest) \<longleftrightarrow>
   cbs = der CBS_ASN1_INTEGER (int_octets i) @ rest \<and> - (2 ^ 63) \<le> i \<and> i < 2 ^ 63"
proof -
  have "CBS_get_asn1_int64 cbs = (Some i, rest) \<longleftrightarrow>
     (\<exists>bs. CBS_get_asn1 CBS_ASN1_INTEGER cbs = (Some bs, rest) \<and> minimal_int bs \<and> length bs \<le> 8 \<and> int_val bs = i)"
  proof -
    have *: "int64_of_le_bytes (rev bs @ replicate (8 - length bs) (if int_val bs < 0 then 0xff else 0)) = int_val bs"
      if "minimal_int bs" "length bs \<le> 8" for bs
      using that by (intro int64_of_le_bytes_eq) auto
    show ?thesis
      by (auto simp: CBS_get_asn1_int64_def CBS_is_valid_asn1_integer_eq CBS_data_def CBS_len_def Let_def not_less
          * [simplified] split: option.splits prod.splits if_splits cong: if_cong)
  qed
  also have "\<dots> \<longleftrightarrow> cbs = der CBS_ASN1_INTEGER (int_octets i) @ rest \<and> length (int_octets i) \<le> 8"
    unfolding CBS_get_asn1_iff minimal_int_iff by (auto simp: int_val_int_octets intro!: exI [of _ "int_octets i"])
  also have "\<dots> \<longleftrightarrow> cbs = der CBS_ASN1_INTEGER (int_octets i) @ rest \<and> - (2 ^ 63) \<le> i \<and> i < 2 ^ 63"
    by (simp only: int_octets_length_le_8)
  finally show ?thesis .
qed

lemma CBS_get_asn1_bool_iff:
  "CBS_get_asn1_bool cbs = (Some v, rest) \<longleftrightarrow>
   v = 0 \<and> cbs = der CBS_ASN1_BOOLEAN [0] @ rest \<or> v = 1 \<and> cbs = der CBS_ASN1_BOOLEAN [0xff] @ rest"
proof -
  have "CBS_get_asn1_bool cbs = (Some v, rest) \<longleftrightarrow>
     (\<exists>bs. CBS_get_asn1 CBS_ASN1_BOOLEAN cbs = (Some bs, rest) \<and> (v = 0 \<and> bs = [0] \<or> v = 1 \<and> bs = [0xff]))"
    by (auto simp: CBS_get_asn1_bool_def CBS_data_def CBS_len_def Let_def length_Suc_conv
        split: option.splits prod.splits if_splits)
  then show ?thesis
    by (auto simp: CBS_get_asn1_iff)
qed

interpretation uint64_codec: nonempty_codec "\<lambda>v. der CBS_ASN1_INTEGER (int_octets (uint v))"
  CBS_get_asn1_uint64 "\<lambda>_. True"
  by unfold_locales (auto simp: CBS_get_asn1_uint64_iff)

interpretation int64_codec: nonempty_codec "\<lambda>i. der CBS_ASN1_INTEGER (int_octets i)"
  CBS_get_asn1_int64 "\<lambda>i. - (2 ^ 63) \<le> i \<and> i < 2 ^ 63"
  by unfold_locales (auto simp: CBS_get_asn1_int64_iff)

interpretation bool_codec: nonempty_codec "\<lambda>v. der CBS_ASN1_BOOLEAN [if v = 0 then 0 else 0xff]"
  CBS_get_asn1_bool "\<lambda>v. v = 0 \<or> v = 1"
  by unfold_locales (auto simp: CBS_get_asn1_bool_iff)

section \<open>Optional fields\<close>

lemma CBS_peek_asn1_tag_iff: "CBS_peek_asn1_tag cbs tag \<longleftrightarrow> (\<exists>rest. cbs = der_tag tag @ rest)"
proof
  assume "CBS_peek_asn1_tag cbs tag"
  then obtain rest where "parse_asn1_tag cbs = (Some tag, rest)"
    by (auto simp: CBS_peek_asn1_tag_def split: if_splits option.splits prod.splits)
  then show "\<exists>rest. cbs = der_tag tag @ rest"
    using parse_asn1_tag_canonical by blast
next
  assume "\<exists>rest. cbs = der_tag tag @ rest"
  then show "CBS_peek_asn1_tag cbs tag"
    using der_tag_codec.put_nonempty [of tag]
    by (auto simp: CBS_peek_asn1_tag_def CBS_len_def parse_der_tag Suc_le_eq)
qed

lemma peek_der: "CBS_peek_asn1_tag (der tag data @ rest) tag"
  by (auto simp: CBS_peek_asn1_tag_iff der_def)

lemma CBS_get_asn1_der: "length data < 2 ^ 32 \<Longrightarrow> CBS_get_asn1 tag (der tag data @ rest) = (Some data, rest)"
  by (simp add: CBS_get_asn1_iff)

lemma CBS_get_optional_asn1_der:
  "length data < 2 ^ 32 \<Longrightarrow> CBS_get_optional_asn1 tag (der tag data @ rest) = (Some (Some data), rest)"
  by (simp add: CBS_get_optional_asn1_def peek_der CBS_get_asn1_der)

lemma CBS_get_optional_asn1_absent:
  "\<not> CBS_peek_asn1_tag cbs tag \<Longrightarrow> CBS_get_optional_asn1 tag cbs = (Some None, cbs)"
  by (simp add: CBS_get_optional_asn1_def)

lemma CBS_get_optional_asn1_present:
  "CBS_get_optional_asn1 tag cbs = (Some (Some data), rest) \<Longrightarrow> length data < 2 ^ 32 \<and> cbs = der tag data @ rest"
  "CBS_get_optional_asn1 tag cbs = (Some None, rest) \<Longrightarrow> \<not> CBS_peek_asn1_tag cbs tag \<and> rest = cbs"
  by (auto simp: CBS_get_optional_asn1_def CBS_get_asn1_iff split: option.splits prod.splits if_splits)

lemmas optional_asn1 = CBS_get_optional_asn1_der CBS_get_optional_asn1_absent peek_der CBS_get_asn1_der
  CBS_len_def CBS_data_def CBS_init_def

text \<open>An optional field: the whole of the explicitly tagged element must be one inner element.\<close>

lemma CBS_get_optional_asn1_uint64_iff:
  "CBS_get_optional_asn1_uint64 tag dflt cbs = (Some v, rest) \<longleftrightarrow>
   (if CBS_peek_asn1_tag cbs tag
    then cbs = der tag (der CBS_ASN1_INTEGER (int_octets (uint v))) @ rest
    else v = dflt \<and> rest = cbs)" (is "?get \<longleftrightarrow> ?spec")
proof
  assume ?get
  then show ?spec
    by (auto simp: CBS_get_optional_asn1_uint64_def CBS_get_asn1_uint64_iff CBS_len_def peek_der
        dest!: CBS_get_optional_asn1_present split: option.splits prod.splits if_splits)
next
  have "length (der CBS_ASN1_INTEGER (int_octets (uint v))) < 2 ^ 32"
    using int_octets_u64_length [of v] der_tag_length [of CBS_ASN1_INTEGER]
    by (simp add: der_def der_len_def)
  moreover assume ?spec
  ultimately show ?get
    using uint64_codec.get_put [of v "[]"]
    by (auto simp: CBS_get_optional_asn1_uint64_def optional_asn1 split: if_splits)
qed

lemma CBS_get_optional_asn1_octet_string_iff:
  "CBS_get_optional_asn1_octet_string tag cbs = (Some (out, present), rest) \<longleftrightarrow>
   (if CBS_peek_asn1_tag cbs tag
    then present \<and> length (der CBS_ASN1_OCTETSTRING out) < 2 ^ 32 \<and>
      cbs = der tag (der CBS_ASN1_OCTETSTRING out) @ rest
    else \<not> present \<and> out = [] \<and> rest = cbs)" (is "?get \<longleftrightarrow> ?spec")
proof
  assume ?get
  then show ?spec
    by (auto simp: CBS_get_optional_asn1_octet_string_def CBS_get_asn1_iff CBS_len_def CBS_init_def peek_der
        dest!: CBS_get_optional_asn1_present split: option.splits prod.splits if_splits)
next
  assume ?spec
  moreover have "length out < 2 ^ 32" if "length (der CBS_ASN1_OCTETSTRING out) < 2 ^ 32"
    using that by (simp add: der_def)
  ultimately show ?get
    using CBS_get_asn1_der [of out CBS_ASN1_OCTETSTRING "[]"]
    by (auto simp: CBS_get_optional_asn1_octet_string_def optional_asn1 split: if_splits)
qed

lemma CBS_get_optional_asn1_bool_iff:
  "CBS_get_optional_asn1_bool tag dflt cbs = (Some v, rest) \<longleftrightarrow>
   (if CBS_peek_asn1_tag cbs tag
    then (\<exists>b. (b = 0 \<and> v = 0 \<or> b = 0xff \<and> v = 1) \<and> cbs = der tag (der CBS_ASN1_BOOLEAN [b]) @ rest)
    else v = dflt \<and> rest = cbs)" (is "?get \<longleftrightarrow> ?spec")
proof
  assume ?get
  then show ?spec
    by (auto simp: CBS_get_optional_asn1_bool_def CBS_get_asn1_iff CBS_len_def CBS_data_def Let_def peek_der
        length_Suc_conv dest!: CBS_get_optional_asn1_present split: option.splits prod.splits if_splits)
next
  have "length (der CBS_ASN1_BOOLEAN [b]) < 2 ^ 32" for b
    using der_tag_length [of CBS_ASN1_BOOLEAN] by (simp add: der_def der_len_def)
  moreover assume ?spec
  ultimately show ?get
    using CBS_get_asn1_der [of _ CBS_ASN1_BOOLEAN "[]"]
    by (auto simp: CBS_get_optional_asn1_bool_def optional_asn1 split: if_splits)
qed

section \<open>Bit strings\<close>

lemma bitstring_Cons:
  "CBS_is_valid_asn1_bitstring (u # data) \<longleftrightarrow>
    unat u \<le> 7 \<and> (u \<noteq> 0 \<longrightarrow> data \<noteq> [] \<and> (\<forall>i < unat u. \<not> bit (List.last data) i))"
proof -
  have l: "data ! (length data - Suc 0) = List.last data" if "data \<noteq> []"
    using that by (simp add: last_conv_nth)
  have m: "(b :: byte) AND (2 ^ k - 1) = 0 \<longleftrightarrow> (\<forall>i < k. \<not> bit b i)" for b k
  proof -
    have "b AND (2 ^ k - 1) = take_bit k b"
      by (simp only: take_bit_eq_mask mask_eq_exp_minus_1)
    then show ?thesis
      using bit_imp_le_length [of b] by (auto simp: bit_eq_iff bit_simps)
  qed
  have "u > 7 \<longleftrightarrow> \<not> unat u \<le> 7" by (auto simp: word_less_nat_alt)
  then show ?thesis
    by (auto simp: CBS_is_valid_asn1_bitstring_def cbs_simps CBS_get_last_u8_def CBS_len_def l m)
qed

lemma CBS_asn1_bitstring_has_bit_Cons:
  assumes "CBS_is_valid_asn1_bitstring (u # data)"
  shows "CBS_asn1_bitstring_has_bit (u # data) b \<longleftrightarrow>
    unat b < 8 * length data - unat u \<and> bit (data ! (unat b div 8)) (7 - unat b mod 8)"
proof -
  let ?n = "unat b"
  have d: "unat (drop_bit 3 b + 1) = ?n div 8 + 1"
  proof -
    have "?n < 2 ^ 32" using unsigned_less [of b] by simp
    then show ?thesis by (subst unat_word_ariths) (simp add: unat_drop_bit_div)
  qed
  have m: "unat (7 - (b AND 7)) = 7 - ?n mod 8"
  proof -
    have "b AND 7 = take_bit 3 b"
      by (simp add: take_bit_eq_mask mask_eq_exp_minus_1)
    then have "unat (b AND 7) = ?n mod 8"
      by (simp add: take_bit_eq_mod unat_mod)
    then show ?thesis
      by (subst unat_sub) (auto simp: word_le_nat_alt)
  qed
  have a: "(x :: byte) AND 2 ^ k \<noteq> 0 \<longleftrightarrow> bit x k" for x k
    by (simp add: bit_iff_and_push_bit_not_eq_0)
  have "\<not> bit (data ! (?n div 8)) (7 - ?n mod 8)" if "8 * length data - unat u \<le> ?n" "?n div 8 < length data"
  proof -
    have u: "unat u \<le> 7" "u \<noteq> 0 \<longrightarrow> (\<forall>i < unat u. \<not> bit (List.last data) i)"
      using assms by (auto simp: bitstring_Cons)
    have e: "?n div 8 = length data - 1" "7 - ?n mod 8 < unat u"
      using that u(1) div_mult_mod_eq [of ?n 8] mod_less_divisor [of 8 ?n] by linarith+
    then have "u \<noteq> 0" by auto
    moreover have "List.last data = data ! (?n div 8)"
      using that(2) e(1) by (cases "data = []") (simp_all add: last_conv_nth)
    ultimately show ?thesis
      using u e(2) by metis
  qed
  then have "?n < 8 * length data - unat u"
    if "bit (data ! (?n div 8)) (7 - ?n mod 8)" "?n div 8 < length data"
    using that by (meson not_less)
  then show ?thesis
    using assms by (auto simp: CBS_asn1_bitstring_has_bit_def CBS_len_def CBS_data_def Let_def d m a not_less)
qed

section \<open>Properties\<close>

text \<open>C29: \<open>CBS_get_asn1_uint64\<close> reads exactly the distinguished INTEGERs that fit a
  \<open>uint64_t\<close>, each number from one encoding only.\<close>

theorem CBS_get_asn1_uint64_canonical:
  "CBS_get_asn1_uint64 cbs = (Some v, rest) \<longleftrightarrow> cbs = der CBS_ASN1_INTEGER (int_octets (uint v)) @ rest"
  using uint64_codec.get_iff by simp

text \<open>C28: \<open>CBS_get_asn1_int64\<close> reads exactly the distinguished INTEGERs of the range of an
  \<open>int64_t\<close>.\<close>

theorem CBS_get_asn1_int64_canonical:
  "CBS_get_asn1_int64 cbs = (Some i, rest) \<longleftrightarrow>
   (- (2 ^ 63) \<le> i \<and> i < 2 ^ 63) \<and> cbs = der CBS_ASN1_INTEGER (int_octets i) @ rest"
  by (rule int64_codec.get_iff)

text \<open>An optional explicitly tagged INTEGER is either absent, which leaves the reader
  where it was and gives the default, or it is there alone in its element.\<close>

theorem CBS_get_optional_asn1_uint64_spec:
  "CBS_get_optional_asn1_uint64 tag dflt cbs = (Some v, rest) \<longleftrightarrow>
   (if \<exists>r. cbs = der_tag tag @ r
    then cbs = der tag (der CBS_ASN1_INTEGER (int_octets (uint v))) @ rest
    else v = dflt \<and> rest = cbs)"
  by (simp only: CBS_get_optional_asn1_uint64_iff CBS_peek_asn1_tag_iff)

text \<open>Bit \<open>b\<close> of a valid BIT STRING is read from bit \<open>7 - b mod 8\<close> of content
  octet \<open>b div 8\<close>, and a position in the unused bits is never set.\<close>

theorem CBS_asn1_bitstring_has_bit_spec:
  "CBS_asn1_bitstring_has_bit (u # data) b \<longleftrightarrow> CBS_is_valid_asn1_bitstring (u # data) \<and>
    unat b < 8 * length data - unat u \<and> bit (data ! (unat b div 8)) (7 - unat b mod 8)"
  using CBS_asn1_bitstring_has_bit_Cons [of u data b]
  by (cases "CBS_is_valid_asn1_bitstring (u # data)") (simp_all add: CBS_asn1_bitstring_has_bit_def)

end
