(* ===== verification/CBB.thy ===== *)
theory CBB
  imports Asn1_Int
begin

text \<open>
  The byte-string writer of \<open>crypto/bytestring/cbb.c\<close>.

  A top-level \<open>CBB\<close> with its chain of open children (\<open>cbb->child\<close>, the child's child, ...) is one
  record: the shared \<open>cbb_buffer_st\<close> and the children from the outermost in.  The handle of a
  \<open>CBB\<close> is its depth in the chain: 0 the top-level object, \<open>d\<close> the \<open>d\<close>-th child.  A handle deeper
  than the chain stands for a child that has been flushed (its \<open>base\<close> is NULL): every operation on
  it fails.  Of the buffer the record holds the bytes \<open>buf[0 .. len)\<close>.  What the caller writes
  through a pointer handed out by \<open>CBB_add_space\<close> or \<open>CBB_reserve\<close> is an argument of the operation
  that makes the bytes part of the buffer.
\<close>

section \<open>State\<close>

record cbb_buffer =
  buf :: "byte list"
  cap :: nat
  can_resize :: bool
  error :: bool
  reallocs :: heap \<comment> \<open>the outcomes of the coming reallocations\<close>

record cbb_child =
  offset :: nat
  pending_len_len :: nat
  pending_is_asn1 :: bool

record cbb =
  base :: "cbb_buffer option"
  children :: "cbb_child list"

type_synonym 's step = "'s \<Rightarrow> bool \<times> 's" \<comment> \<open>an operation: its return value and the new state\<close>

text \<open>\<open>f && g\<close> for operations on a state: \<open>g\<close> runs when \<open>f\<close> succeeds.\<close>

definition and_then :: "'s step \<Rightarrow> 's step \<Rightarrow> 's step" where
  "and_then f g s = (case f s of (ok, s') \<Rightarrow> if ok then g s' else (False, s'))"

definition succeed :: "'s step" where
  "succeed s = (True, s)"

definition fail :: "'s step" where
  "fail s = (False, s)"

definition CBB_zero :: cbb where
  "CBB_zero = \<lparr>base = None, children = []\<rparr>"

definition cbb_init :: "nat \<Rightarrow> heap \<Rightarrow> bool \<times> cbb" where
  "cbb_init n h =
     (let (ok, h') = heap_alloc h
      in if ok then (True, \<lparr>base = Some \<lparr>buf = [], cap = n, can_resize = True, error = False, reallocs = h'\<rparr>,
                          children = []\<rparr>)
         else (False, CBB_zero))"

definition CBB_init :: "nat \<Rightarrow> heap \<Rightarrow> bool \<times> cbb" where
  "CBB_init initial_capacity h =
     (let (ok, h') = heap_alloc h
      in if initial_capacity > 0 \<and> \<not> ok then (False, CBB_zero)
         else cbb_init initial_capacity h')"

definition CBB_init_fixed :: "nat \<Rightarrow> heap \<Rightarrow> bool \<times> cbb" where
  "CBB_init_fixed len h =
     (case cbb_init len h of
        (False, cbb) \<Rightarrow> (False, cbb)
      | (True, cbb) \<Rightarrow> (True, cbb\<lparr>base := map_option (can_resize_update (\<lambda>_. False)) (base cbb)\<rparr>))"

definition CBB_cleanup :: "nat \<Rightarrow> cbb \<Rightarrow> cbb" where
  "CBB_cleanup d cbb = (if d > 0 then cbb else cbb\<lparr>base := None\<rparr>)"

section \<open>The buffer\<close>

definition set_error :: "cbb_buffer \<Rightarrow> cbb_buffer" where
  "set_error b = b\<lparr>error := True\<rparr>"

definition cbb_buffer_reserve :: "nat \<Rightarrow> cbb_buffer step" where
  "cbb_buffer_reserve n b =
     (let newlen = size_add (length (buf b)) n
      in if newlen < length (buf b) then (False, set_error b)
         else if newlen > cap b
         then if \<not> can_resize b then (False, set_error b)
              else let newcap = size_mul (cap b) 2;
                       newcap = (if newcap < cap b \<or> newcap < newlen then newlen else newcap);
                       (ok, h) = heap_alloc (reallocs b);
                       b = b\<lparr>reallocs := h\<rparr>
                   in if \<not> ok then (False, set_error b) else (True, b\<lparr>cap := newcap\<rparr>)
         else (True, b))"

text \<open>\<open>cbb_buffer_add\<close>, with the bytes that end up in the space it adds.\<close>

definition cbb_buffer_add :: "byte list \<Rightarrow> cbb_buffer step" where
  "cbb_buffer_add bs b =
     (case cbb_buffer_reserve (length bs) b of
        (False, b) \<Rightarrow> (False, b)
      | (True, b) \<Rightarrow> (True, b\<lparr>buf := buf b @ bs\<rparr>))"

text \<open>
  The loop \<open>for (i = n - 1; i < n; i--) { buf[i] = v; v >>= 8; }\<close>: the bytes it leaves at \<open>buf\<close>
  and the rest of \<open>v\<close>.  It occurs on a \<open>uint64_t\<close> and on a \<open>size_t\<close>.
\<close>

fun store_u64 :: "nat \<Rightarrow> u64 \<Rightarrow> byte list \<times> u64" where
  "store_u64 0 v = ([], v)"
| "store_u64 (Suc n) v = (let (bs, r) = store_u64 n (drop_bit 8 v) in (bs @ [ucast v], r))"

fun store_size :: "nat \<Rightarrow> nat \<Rightarrow> byte list \<times> nat" where
  "store_size 0 v = ([], v)"
| "store_size (Suc n) v = (let (bs, r) = store_size n (v div 256) in (bs @ [of_nat v], r))"

definition cbb_buffer_add_u :: "u64 \<Rightarrow> nat \<Rightarrow> cbb_buffer step" where
  "cbb_buffer_add_u v len_len b =
     (if len_len = 0 then (True, b)
      else let (bs, v') = store_u64 len_len v
           in case cbb_buffer_add bs b of
                (False, b) \<Rightarrow> (False, b)
              | (True, b) \<Rightarrow> if v' \<noteq> 0 then (False, set_error b) else (True, b))"

section \<open>Flushing\<close>

definition overwrite :: "nat \<Rightarrow> byte list \<Rightarrow> byte list \<Rightarrow> byte list" where
  "overwrite i bs xs = take i xs @ bs @ drop (i + length bs) xs"

text \<open>
  How many octets the length of an ASN.1 element takes, the first of them, and what of the length
  is left for the others; \<open>None\<close> when the element is too large.
\<close>

definition asn1_length_form :: "nat \<Rightarrow> (nat \<times> byte \<times> nat) option" where
  "asn1_length_form len =
     (if len > 0xfffffffe then None
      else if len > 0xffffff then Some (5, 0x84, len)
      else if len > 0xffff then Some (4, 0x83, len)
      else if len > 0xff then Some (3, 0x82, len)
      else if len > 0x7f then Some (2, 0x81, len)
      else Some (1, of_nat len, 0))"

text \<open>
  The second half of \<open>CBB_flush\<close>: \<open>write_length\<close> stores what is left of the length behind the
  child's offset, \<open>flush_asn1\<close> first makes room for the long form.  The new bytes of the room are
  indeterminate in C; they are overwritten before the function returns.
\<close>

definition write_length :: "nat \<Rightarrow> cbb_child \<Rightarrow> cbb_buffer \<Rightarrow> bool \<times> cbb_buffer \<times> cbb_child" where
  "write_length len c b =
     (let (bs, r) = store_size (pending_len_len c) len;
          b = b\<lparr>buf := overwrite (offset c) bs (buf b)\<rparr>
      in if r \<noteq> 0 then (False, set_error b, c) else (True, b, c))"

definition flush_asn1 :: "nat \<Rightarrow> nat \<Rightarrow> cbb_child \<Rightarrow> cbb_buffer \<Rightarrow> bool \<times> cbb_buffer \<times> cbb_child" where
  "flush_asn1 child_start len c b =
     (case asn1_length_form len of
        None \<Rightarrow> (False, set_error b, c)
      | Some (len_len, initial_length_byte, rest) \<Rightarrow>
          (let extra_bytes = len_len - 1;
               (ok, b) = (if len_len \<noteq> 1 then cbb_buffer_add (replicate extra_bytes 0) b else (True, b))
           in if \<not> ok then (False, set_error b, c)
              else let xs = (if len_len \<noteq> 1 then memmove (child_start + extra_bytes) child_start len (buf b) else buf b);
                       b = b\<lparr>buf := overwrite (offset c) [initial_length_byte] xs\<rparr>
                   in write_length rest (c\<lparr>offset := offset c + 1, pending_len_len := len_len - 1\<rparr>) b))"

fun flush_children :: "cbb_child list \<Rightarrow> cbb_buffer \<Rightarrow> bool \<times> cbb_buffer \<times> cbb_child list" where
  "flush_children [] b = (\<not> error b, b, [])"
| "flush_children (c # cs) b =
     (if error b then (False, b, c # cs)
      else if pending_len_len c = 0 then (True, b, c # cs)
      else
        let child_start = size_add (offset c) (pending_len_len c);
            (ok, b, cs) = flush_children cs b
        in if \<not> ok \<or> child_start < offset c \<or> length (buf b) < child_start
           then (False, set_error b, c # cs)
           else
             let len = length (buf b) - child_start;
                 (ok, b, c) = (if pending_is_asn1 c then flush_asn1 child_start len c b else write_length len c b)
             in if ok then (True, b, []) else (False, b, c # cs))"

definition CBB_flush :: "nat \<Rightarrow> cbb step" where
  "CBB_flush d cbb =
     (case base cbb of
        None \<Rightarrow> (False, cbb)
      | Some b \<Rightarrow>
          if d > length (children cbb) then (False, cbb)
          else let (ok, b', cs) = flush_children (drop d (children cbb)) b
               in (ok, cbb\<lparr>base := Some b', children := take d (children cbb) @ cs\<rparr>))"

section \<open>Reading the state\<close>

definition self_offset :: "nat \<Rightarrow> cbb \<Rightarrow> nat" where
  \<comment> \<open>\<open>cbb->offset + cbb->pending_len_len\<close> of the handle\<close>
  "self_offset d cbb =
     (if d = 0 then 0 else offset (children cbb ! (d - 1)) + pending_len_len (children cbb ! (d - 1)))"

definition CBB_data :: "nat \<Rightarrow> cbb \<Rightarrow> byte list" where
  "CBB_data d cbb = (case base cbb of None \<Rightarrow> [] | Some b \<Rightarrow> drop (self_offset d cbb) (buf b))"

definition CBB_len :: "nat \<Rightarrow> cbb \<Rightarrow> nat" where
  "CBB_len d cbb = (case base cbb of None \<Rightarrow> 0 | Some b \<Rightarrow> length (buf b) - self_offset d cbb)"

text \<open>
  \<open>CBB_finish\<close> returns the bytes as well.  \<open>wants_out\<close> says whether both \<open>out_data\<close> and \<open>out_len\<close>
  are given.
\<close>

definition CBB_finish :: "nat \<Rightarrow> bool \<Rightarrow> cbb \<Rightarrow> byte list option \<times> cbb" where
  "CBB_finish d wants_out cbb =
     (if d > 0 then (None, cbb)
      else case CBB_flush d cbb of
             (False, cbb) \<Rightarrow> (None, cbb)
           | (True, cbb) \<Rightarrow>
               (case base cbb of
                  None \<Rightarrow> (None, cbb)
                | Some b \<Rightarrow>
                    if can_resize b \<and> \<not> wants_out then (None, cbb)
                    else (Some (buf b), CBB_cleanup d cbb)))"

section \<open>Adding\<close>

definition on_base :: "cbb_buffer step \<Rightarrow> cbb step" where
  "on_base f cbb =
     (case base cbb of
        None \<Rightarrow> (False, cbb)
      | Some b \<Rightarrow> let (ok, b') = f b in (ok, cbb\<lparr>base := Some b'\<rparr>))"

definition open_child :: "nat \<Rightarrow> cbb_child \<Rightarrow> cbb \<Rightarrow> cbb" where
  "open_child d c cbb = cbb\<lparr>children := take d (children cbb) @ [c]\<rparr>"

definition base_len :: "cbb \<Rightarrow> nat" where
  "base_len cbb = (case base cbb of None \<Rightarrow> 0 | Some b \<Rightarrow> length (buf b))"

definition cbb_add_length_prefixed :: "nat \<Rightarrow> nat \<Rightarrow> cbb step" where
  "cbb_add_length_prefixed d len_len =
     and_then (CBB_flush d) (\<lambda>cbb.
       let off = base_len cbb
       in and_then (on_base (cbb_buffer_add (replicate len_len 0)))
            (\<lambda>cbb. (True, open_child d \<lparr>offset = off, pending_len_len = len_len, pending_is_asn1 = False\<rparr> cbb)) cbb)"

definition CBB_add_u8_length_prefixed :: "nat \<Rightarrow> cbb step" where
  "CBB_add_u8_length_prefixed d = cbb_add_length_prefixed d 1"

definition CBB_add_u16_length_prefixed :: "nat \<Rightarrow> cbb step" where
  "CBB_add_u16_length_prefixed d = cbb_add_length_prefixed d 2"

definition CBB_add_u24_length_prefixed :: "nat \<Rightarrow> cbb step" where
  "CBB_add_u24_length_prefixed d = cbb_add_length_prefixed d 3"

definition cbb_add_u :: "nat \<Rightarrow> u64 \<Rightarrow> nat \<Rightarrow> cbb step" where
  "cbb_add_u d v len_len = and_then (CBB_flush d) (on_base (cbb_buffer_add_u v len_len))"

definition CBB_add_u8 :: "nat \<Rightarrow> byte \<Rightarrow> cbb step" where
  "CBB_add_u8 d v = cbb_add_u d (ucast v) 1"

definition CBB_add_u16 :: "nat \<Rightarrow> u16 \<Rightarrow> cbb step" where
  "CBB_add_u16 d v = cbb_add_u d (ucast v) 2"

definition CBB_add_u16le :: "nat \<Rightarrow> u16 \<Rightarrow> cbb step" where
  "CBB_add_u16le d v = CBB_add_u16 d (CRYPTO_bswap2 v)"

definition CBB_add_u24 :: "nat \<Rightarrow> u32 \<Rightarrow> cbb step" where
  "CBB_add_u24 d v = cbb_add_u d (ucast v) 3"

definition CBB_add_u32 :: "nat \<Rightarrow> u32 \<Rightarrow> cbb step" where
  "CBB_add_u32 d v = cbb_add_u d (ucast v) 4"

definition CBB_add_u32le :: "nat \<Rightarrow> u32 \<Rightarrow> cbb step" where
  "CBB_add_u32le d v = CBB_add_u32 d (CRYPTO_bswap4 v)"

definition CBB_add_u64 :: "nat \<Rightarrow> u64 \<Rightarrow> cbb step" where
  "CBB_add_u64 d v = cbb_add_u d v 8"

definition CBB_add_u64le :: "nat \<Rightarrow> u64 \<Rightarrow> cbb step" where
  "CBB_add_u64le d v = CBB_add_u64 d (CRYPTO_bswap8 v)"

fun add_octets :: "nat \<Rightarrow> byte list \<Rightarrow> cbb step" where
  "add_octets d [] = succeed"
| "add_octets d (b # bs) = and_then (CBB_add_u8 d b) (add_octets d bs)"

definition add_base128_integer :: "nat \<Rightarrow> u64 \<Rightarrow> cbb step" where
  "add_base128_integer d v = add_octets d (base128_octets v)"

definition CBB_add_asn1 :: "nat \<Rightarrow> u32 \<Rightarrow> cbb step" where
  "CBB_add_asn1 d tag =
     and_then (CBB_flush d)
    (and_then
       (let tag_bits = ucast (drop_bit CBS_ASN1_TAG_SHIFT tag) AND 0xe0;
            tag_number = tag AND CBS_ASN1_TAG_NUMBER_MASK
        in if tag_number \<ge> 0x1f
           then and_then (CBB_add_u8 d (tag_bits OR 0x1f)) (add_base128_integer d (ucast tag_number))
           else CBB_add_u8 d (tag_bits OR ucast tag_number))
       (\<lambda>cbb. let off = base_len cbb
              in and_then (CBB_add_u8 d 0)
                   (\<lambda>cbb. (True, open_child d \<lparr>offset = off, pending_len_len = 1, pending_is_asn1 = True\<rparr> cbb)) cbb))"

definition CBB_add_bytes :: "nat \<Rightarrow> byte list \<Rightarrow> cbb step" where
  "CBB_add_bytes d data = and_then (CBB_flush d) (on_base (cbb_buffer_add data))"

definition CBB_add_space :: "nat \<Rightarrow> byte list \<Rightarrow> cbb step" where
  "CBB_add_space d written = and_then (CBB_flush d) (on_base (cbb_buffer_add written))"

definition CBB_add_zeros :: "nat \<Rightarrow> nat \<Rightarrow> cbb step" where
  "CBB_add_zeros d n = CBB_add_space d (replicate n 0)"

definition CBB_reserve :: "nat \<Rightarrow> nat \<Rightarrow> cbb step" where
  "CBB_reserve d n = and_then (CBB_flush d) (on_base (cbb_buffer_reserve n))"

definition CBB_did_write :: "nat \<Rightarrow> byte list \<Rightarrow> cbb step" where
  "CBB_did_write d written cbb =
     (case base cbb of
        None \<Rightarrow> (False, cbb)
      | Some b \<Rightarrow>
          let newlen = size_add (length (buf b)) (length written)
          in if length (children cbb) \<noteq> d \<or> newlen < length (buf b) \<or> newlen > cap b
             then (False, cbb)
             else (True, cbb\<lparr>base := Some (b\<lparr>buf := buf b @ written\<rparr>)\<rparr>))"

definition CBB_discard_child :: "nat \<Rightarrow> cbb \<Rightarrow> cbb" where
  "CBB_discard_child d cbb =
     (if length (children cbb) \<le> d then cbb
      else cbb\<lparr>base := map_option (buf_update (take (offset (children cbb ! d)))) (base cbb),
               children := take d (children cbb)\<rparr>)"

end
