(* ===== verification/CBB_Spec.thy ===== *)
theory CBB_Spec
  imports CBB
begin

text \<open>
  The meaning of a \<open>CBB\<close> and what each operation of \<open>cbb.c\<close> does to it.  \<open>contents d cbb\<close> is what
  the buffer will hold once the handle \<open>d\<close> is flushed; \<open>emits d f bs ok\<close> says that the operation
  \<open>f\<close> on the handle \<open>d\<close>, when it succeeds, appends \<open>bs\<close> to these contents and leaves the outer
  handles alone, and that it does succeed on a growable buffer when no allocation fails, the sizes
  stay below \<open>2 ^ 62\<close> and \<open>ok\<close> holds.  The rules for \<open>emits\<close> compose as the C code composes calls.
\<close>

section \<open>The buffer\<close>

definition buf_ok :: "cbb_buffer \<Rightarrow> bool" where
  "buf_ok b \<longleftrightarrow> length (buf b) \<le> cap b \<and> cap b < 2 ^ 64"

definition growable :: "cbb_buffer \<Rightarrow> bool" where
  "growable b \<longleftrightarrow> can_resize b \<and> \<not> error b \<and> False \<notin> set (reallocs b)"

lemma set_error_sel [simp]:
  "buf (set_error b) = buf b" "cap (set_error b) = cap b" "error (set_error b)"
  "can_resize (set_error b) = can_resize b" "buf_ok (set_error b) = buf_ok b"
  by (simp_all add: set_error_def buf_ok_def)

lemma cbb_buffer_reserve_props:
  assumes "cbb_buffer_reserve n b = (ok, b')"
  shows "buf b' = buf b" and "can_resize b' = can_resize b"
    and "ok \<Longrightarrow> error b' = error b" and "\<not> ok \<Longrightarrow> error b'"
    and "buf_ok b \<Longrightarrow> buf_ok b'"
    and "buf_ok b \<Longrightarrow> n < 2 ^ 64 \<Longrightarrow> ok \<Longrightarrow> length (buf b) + n \<le> cap b'"
    and "\<not> can_resize b \<Longrightarrow> cap b' = cap b"
proof -
  show "buf b' = buf b" "can_resize b' = can_resize b"
    "ok \<Longrightarrow> error b' = error b" "\<not> ok \<Longrightarrow> error b'" "\<not> can_resize b \<Longrightarrow> cap b' = cap b"
    using assms by (auto simp: cbb_buffer_reserve_def Let_def split: prod.splits if_splits)
  show "buf_ok b \<Longrightarrow> buf_ok b'"
    using assms size_add_bound [simplified]
    by (auto simp: cbb_buffer_reserve_def Let_def buf_ok_def size_mul_def split: prod.splits if_splits)
  show "length (buf b) + n \<le> cap b'" if "buf_ok b" "n < 2 ^ 64" ok
  proof -
    have "length (buf b) < 2 ^ 64" using that by (simp add: buf_ok_def)
    then have "size_add (length (buf b)) n < length (buf b) \<or> size_add (length (buf b)) n = length (buf b) + n"
      using size_add_overflow_iff [of "length (buf b)" n] that(2) by fastforce
    then show ?thesis
      using assms that(3) by (auto simp: cbb_buffer_reserve_def Let_def split: prod.splits if_splits)
  qed
qed

lemma cbb_buffer_reserve_growable:
  assumes "growable b" and "length (buf b) + n < 2 ^ 64"
  shows "fst (cbb_buffer_reserve n b) \<and> growable (snd (cbb_buffer_reserve n b))"
proof -
  have h: "False \<notin> set (reallocs b)" using assms(1) by (simp add: growable_def)
  obtain h' where "heap_alloc (reallocs b) = (True, h')" "False \<notin> set h'"
    using heap_alloc_no_failure [OF h] heap_alloc_keeps_no_failure [OF h]
    by (cases "heap_alloc (reallocs b)") auto
  with assms show ?thesis
    by (auto simp: cbb_buffer_reserve_def growable_def Let_def)
qed

lemma cbb_buffer_add_props:
  assumes "cbb_buffer_add bs b = (ok, b')"
  shows "buf b' = (if ok then buf b @ bs else buf b)" and "can_resize b' = can_resize b"
    and "ok \<Longrightarrow> error b' = error b" and "\<not> ok \<Longrightarrow> error b'"
    and "buf_ok b \<Longrightarrow> length bs < 2 ^ 64 \<Longrightarrow> buf_ok b'"
    and "\<not> can_resize b \<Longrightarrow> cap b' = cap b"
proof -
  obtain r b1 where r: "cbb_buffer_reserve (length bs) b = (r, b1)"
    by (cases "cbb_buffer_reserve (length bs) b")
  note p = cbb_buffer_reserve_props [OF r]
  have b': "ok = r" "b' = (if r then b1\<lparr>buf := buf b1 @ bs\<rparr> else b1)"
    using assms r by (auto simp: cbb_buffer_add_def split: if_splits bool.splits)
  show "buf b' = (if ok then buf b @ bs else buf b)" "can_resize b' = can_resize b"
    "ok \<Longrightarrow> error b' = error b" "\<not> ok \<Longrightarrow> error b'" "\<not> can_resize b \<Longrightarrow> cap b' = cap b"
    using p by (auto simp: b')
  show "buf_ok b \<Longrightarrow> length bs < 2 ^ 64 \<Longrightarrow> buf_ok b'"
    using p(1,5,6) unfolding b' by (auto simp: buf_ok_def)
qed

lemma cbb_buffer_add_growable:
  assumes "growable b" and "length (buf b) + length bs < 2 ^ 64"
  shows "fst (cbb_buffer_add bs b) \<and> growable (snd (cbb_buffer_add bs b))"
  using cbb_buffer_reserve_growable [OF assms]
  by (auto simp: cbb_buffer_add_def growable_def split: prod.splits bool.splits)

lemma store_size_eq: "store_size n v = (be_bytes n v, v div 256 ^ n)"
  by (induction n arbitrary: v) (simp_all add: div_mult2_eq)

lemma store_u64_eq: "n \<le> 8 \<Longrightarrow> store_u64 n v = (be_bytes n (unat v), drop_bit (8 * n) v)"
proof (induction n arbitrary: v)
  case (Suc n)
  have "(ucast v :: byte) = of_nat (unat v)"
    by (simp add: word_unat_eq_iff unat_of_nat_byte unsigned_ucast_eq take_bit_eq_mod)
  moreover have "unat (drop_bit 8 v) = unat v div 256"
    by (simp add: unat_drop_bit_div)
  ultimately show ?case
    using Suc by (simp add: add.commute)
qed simp

section \<open>Closing the open children\<close>

definition content_start :: "cbb_child \<Rightarrow> nat" where
  "content_start c = offset c + pending_len_len c"

definition child_octets :: "cbb_child \<Rightarrow> nat \<Rightarrow> byte list" where
  "child_octets c n = (if pending_is_asn1 c then der_len n else be_bytes (pending_len_len c) n)"

definition child_fits :: "cbb_child \<Rightarrow> nat \<Rightarrow> bool" where
  "child_fits c n \<longleftrightarrow> (if pending_is_asn1 c then n \<le> 0xfffffffe else n < 256 ^ pending_len_len c)"

definition close_child :: "cbb_child \<Rightarrow> byte list \<Rightarrow> byte list" where
  "close_child c xs =
     take (offset c) xs @ child_octets c (length xs - content_start c) @ drop (content_start c) xs"

definition close :: "cbb_child list \<Rightarrow> byte list \<Rightarrow> byte list" where
  "close cs xs = foldr close_child cs xs"

fun fits :: "cbb_child list \<Rightarrow> byte list \<Rightarrow> bool" where
  "fits [] xs = True"
| "fits (c # cs) xs = (fits cs xs \<and> child_fits c (length (close cs xs) - content_start c))"

fun chain_ok :: "nat \<Rightarrow> cbb_child list \<Rightarrow> nat \<Rightarrow> bool" where
  "chain_ok lo [] n = (lo \<le> n)"
| "chain_ok lo (c # cs) n =
     (lo \<le> offset c \<and> 0 < pending_len_len c \<and> (pending_is_asn1 c \<longrightarrow> pending_len_len c = 1) \<and>
      chain_ok (content_start c) cs n)"

lemma close_simps [simp]: "close [] xs = xs" "close (c # cs) xs = close_child c (close cs xs)"
  by (simp_all add: close_def)

lemma close_snoc: "close (cs @ [c]) xs = close cs (close_child c xs)"
  by (simp add: close_def)

lemma der_len_length: "1 \<le> length (der_len n)" "length (der_len n) \<le> 5"
  by (simp_all add: der_len_def)

lemma chain_ok_le: "chain_ok lo cs n \<Longrightarrow> lo \<le> n"
  by (induction cs arbitrary: lo) (fastforce simp: content_start_def)+

lemma child_octets_length:
  "(pending_is_asn1 c \<longrightarrow> pending_len_len c = 1) \<Longrightarrow> pending_len_len c \<le> length (child_octets c n)"
  using der_len_length [of n] by (auto simp: child_octets_def)

lemma close_prefix:
  "chain_ok lo cs (length xs) \<Longrightarrow> take lo (close cs xs) = take lo xs \<and> length xs \<le> length (close cs xs)"
proof (induction cs arbitrary: lo)
  case Nil
  then show ?case by simp
next
  case (Cons c cs)
  then have IH: "take (content_start c) (close cs xs) = take (content_start c) xs" "length xs \<le> length (close cs xs)"
    by auto
  have lo: "lo \<le> offset c" "offset c \<le> content_start c" "content_start c \<le> length xs"
    using Cons.prems chain_ok_le by (auto simp: content_start_def)
  let ?ys = "close cs xs"
  have "take lo (close_child c ?ys) = take lo (take (content_start c) ?ys)"
    using lo IH(2) by (simp add: close_child_def min_absorb1 min_absorb2)
  also have "\<dots> = take lo xs"
    unfolding IH(1) using lo by (simp add: min_absorb1 min_absorb2)
  finally have "take lo (close_child c ?ys) = take lo xs" .
  moreover have "length ?ys \<le> length (close_child c ?ys)"
    using child_octets_length [of c "length ?ys - content_start c"] Cons.prems lo IH(2)
    by (auto simp: close_child_def content_start_def)
  ultimately show ?case
    using IH(2) by simp
qed

lemma length_overwrite [simp]: "i + length bs \<le> length xs \<Longrightarrow> length (overwrite i bs xs) = length xs"
  by (simp add: overwrite_def)

text \<open>What a success of the two halves of \<open>CBB_flush\<close> has done to the buffer.\<close>

lemma write_length_props:
  assumes "write_length len c b = (ok, b', c')"
  shows "ok \<longleftrightarrow> len < 256 ^ pending_len_len c"
    and "buf b' = overwrite (offset c) (be_bytes (pending_len_len c) len) (buf b)"
    and "error b' \<longleftrightarrow> \<not> ok \<or> error b" and "cap b' = cap b" and "can_resize b' = can_resize b"
    and "growable b' \<longleftrightarrow> ok \<and> growable b"
  using assms by (auto simp: write_length_def store_size_eq Let_def growable_def set_error_def
      div_eq_0_iff split: if_splits)

lemma asn1_length_form_Some:
  "asn1_length_form n = Some (k, b, r) \<longleftrightarrow>
   n \<le> 0xfffffffe \<and> b # be_bytes (k - 1) r = der_len n \<and> k = length (der_len n) \<and> r < 256 ^ (k - 1) \<and>
   (if k = 1 then r = 0 else r = n)"
  by (auto simp: asn1_length_form_def der_len_def)

lemma asn1_length_form_None: "asn1_length_form n = None \<longleftrightarrow> \<not> n \<le> 0xfffffffe"
  by (auto simp: asn1_length_form_def)

lemma overwrite_overwrite:
  assumes "i + 1 + length bs \<le> length xs"
  shows "overwrite (i + 1) bs (overwrite i [b] xs) = overwrite i (b # bs) xs"
  using assms by (simp add: overwrite_def min_absorb1 min_absorb2 add.commute)

text \<open>Making room for \<open>k\<close> octets and overwriting it is inserting them.\<close>

lemma memmove_overwrite:
  assumes "s = i + 1" and "s \<le> length xs" and "length bs = k"
  shows "overwrite i (b # bs) (memmove (s + k) s (length xs - s) (xs @ replicate k 0))
    = take i xs @ (b # bs) @ drop s xs"
proof -
  have "memmove (s + k) s (length xs - s) (xs @ replicate k 0)
      = take (s + k) (xs @ replicate k 0) @ drop s xs"
    using assms(2) by (simp add: memmove_def)
  moreover have "overwrite i (b # bs) (take (s + k) (xs @ replicate k 0) @ drop s xs)
      = take i xs @ (b # bs) @ drop s xs"
    using assms by (simp add: overwrite_def min_absorb1)
  ultimately show ?thesis by simp
qed

lemma write_length_close:
  assumes "write_length (length (buf b) - content_start c) c b = (ok, b', c')"
    and "content_start c \<le> length (buf b)" and "\<not> pending_is_asn1 c"
  shows "ok \<longleftrightarrow> child_fits c (length (buf b) - content_start c)"
    and "ok \<Longrightarrow> buf b' = close_child c (buf b)"
    and "length (buf b') = length (buf b)"
  using assms(2,3) write_length_props [OF assms(1)]
  by (auto simp: child_fits_def close_child_def child_octets_def overwrite_def content_start_def)

lemma flush_asn1_close:
  assumes f: "flush_asn1 (content_start c) (length (buf b) - content_start c) c b = (ok, b', c')"
    and c: "content_start c \<le> length (buf b)" "pending_is_asn1 c" "pending_len_len c = 1"
    and b: "buf_ok b" "\<not> error b"
  shows "ok \<Longrightarrow> child_fits c (length (buf b) - content_start c) \<and> buf b' = close_child c (buf b)"
    and "buf_ok b'" and "error b' \<longleftrightarrow> \<not> ok" and "can_resize b' = can_resize b"
    and "\<not> can_resize b \<Longrightarrow> cap b' = cap b"
    and "growable b \<Longrightarrow> child_fits c (length (buf b) - content_start c) \<Longrightarrow>
         length (close_child c (buf b)) < 2 ^ 64 \<Longrightarrow> ok \<and> growable b'"
proof -
  let ?n = "length (buf b) - content_start c"
  have s: "content_start c = offset c + 1"
    using c by (simp add: content_start_def)
  have "(ok \<longrightarrow> child_fits c ?n \<and> buf b' = close_child c (buf b)) \<and> buf_ok b' \<and> (error b' \<longleftrightarrow> \<not> ok) \<and>
    can_resize b' = can_resize b \<and> (\<not> can_resize b \<longrightarrow> cap b' = cap b) \<and>
    (growable b \<longrightarrow> child_fits c ?n \<longrightarrow> length (close_child c (buf b)) < 2 ^ 64 \<longrightarrow> ok \<and> growable b')"
  proof (cases "asn1_length_form ?n")
    case None
    then have "\<not> ok" "b' = set_error b"
      using f by (simp_all add: flush_asn1_def)
    moreover have "\<not> ?n \<le> 0xfffffffe"
      using None asn1_length_form_None by blast
    ultimately show ?thesis
      using c b by (simp add: child_fits_def)
  next
    case (Some form)
    then obtain len_len ilb r where form: "asn1_length_form ?n = Some (len_len, ilb, r)"
      by (cases form) auto
    then have le: "?n \<le> 0xfffffffe" and octets: "ilb # be_bytes (len_len - 1) r = der_len ?n"
      and k: "len_len = length (der_len ?n)" and r: "r < 256 ^ (len_len - 1)" "if len_len = 1 then r = 0 else r = ?n"
      unfolding asn1_length_form_Some by auto
    let ?k = "len_len - 1"
    have k5: "1 \<le> len_len" "?k \<le> 4" using k der_len_length [of ?n] by auto
    define c1 where "c1 = c\<lparr>offset := offset c + 1, pending_len_len := ?k\<rparr>"
    have cl: "close_child c (buf b) = take (offset c) (buf b) @ der_len ?n @ drop (content_start c) (buf b)"
      using c by (simp add: close_child_def child_octets_def)
    have lcl: "length (close_child c (buf b)) = length (buf b) + ?k"
      using c(1) k5 by (simp add: cl flip: k) (simp add: s)
    obtain ok1 b1 where b1: "(if len_len \<noteq> 1 then cbb_buffer_add (replicate ?k 0) b else (True, b)) = (ok1, b1)"
      by (metis surj_pair)
    have p: "buf b1 = (if ok1 then buf b @ replicate ?k 0 else buf b)" "can_resize b1 = can_resize b"
      "ok1 \<Longrightarrow> \<not> error b1" "buf_ok b1" "\<not> can_resize b \<Longrightarrow> cap b1 = cap b"
      using b1 cbb_buffer_add_props [of "replicate ?k 0" b ok1 b1] b k5 by (auto split: if_splits)
    have g: "ok1 \<and> growable b1" if "growable b" "length (buf b) + ?k < 2 ^ 64"
      using b1 cbb_buffer_add_growable [OF that(1), of "replicate ?k 0"] that by (auto split: if_splits)
    define xs where "xs = (if len_len \<noteq> 1 then memmove (content_start c + ?k) (content_start c) ?n (buf b1) else buf b1)"
    define b2 where "b2 = b1\<lparr>buf := overwrite (offset c) [ilb] xs\<rparr>"
    have eq: "(if \<not> ok1 then (False, set_error b1, c) else write_length r c1 b2) = (ok, b', c')"
      using f by (simp only: flush_asn1_def form option.case prod.case Let_def b1 c1_def b2_def xs_def)
    show ?thesis
    proof (cases ok1)
      case False
      then have "\<not> ok" "b' = set_error b1"
        using eq by simp_all
      with False p g lcl show ?thesis by auto
    next
      case True
      have w: "write_length r c1 b2 = (ok, b', c')"
        using eq True by simp
      note wp = write_length_props [OF w]
      have ok: ok using wp(1) r(1) by (simp add: c1_def)
      have b1': "buf b1 = buf b @ replicate ?k 0" using True p by simp
      have "length xs = length (buf b) + ?k"
        using c(1) by (auto simp: xs_def b1')
      then have "buf b' = overwrite (offset c) (ilb # be_bytes ?k r) xs"
        using wp(2) overwrite_overwrite [of "offset c" "be_bytes ?k r" xs ilb] c(1) s
        by (simp add: c1_def b2_def)
      also have "\<dots> = take (offset c) (buf b) @ (ilb # be_bytes ?k r) @ drop (content_start c) (buf b)"
      proof (cases "len_len = 1")
        case True
        then show ?thesis
          using c(1) s by (simp add: xs_def b1' overwrite_def)
      next
        case False
        then show ?thesis
          using memmove_overwrite [OF s c(1), of "be_bytes ?k r" ?k ilb] by (simp add: xs_def b1')
      qed
      finally have bb: "buf b' = close_child c (buf b)"
        using cl octets by simp
      have "length (buf b1) = length (close_child c (buf b))"
        using lcl b1' by simp
      then show ?thesis
        using ok bb le p wp g True lcl c(2)
        by (auto simp: child_fits_def buf_ok_def b2_def growable_def)
    qed
  qed
  then show "ok \<Longrightarrow> child_fits c ?n \<and> buf b' = close_child c (buf b)"
    and "buf_ok b'" and "error b' \<longleftrightarrow> \<not> ok" and "can_resize b' = can_resize b"
    and "\<not> can_resize b \<Longrightarrow> cap b' = cap b"
    and "growable b \<Longrightarrow> child_fits c ?n \<Longrightarrow>
         length (close_child c (buf b)) < 2 ^ 64 \<Longrightarrow> ok \<and> growable b'"
    by blast+
qed

text \<open>Facts that hold of a buffer before and after any operation, and of the outcome \<open>ok\<close>.\<close>

definition buf_step :: "cbb_buffer \<Rightarrow> bool \<Rightarrow> cbb_buffer \<Rightarrow> bool" where
  "buf_step b ok b' \<longleftrightarrow> (buf_ok b \<longrightarrow> buf_ok b') \<and> (ok \<longrightarrow> \<not> error b') \<and> can_resize b' = can_resize b \<and>
     (\<not> can_resize b \<longrightarrow> cap b' = cap b)"

lemma close_length: 
  assumes "chain_ok lo (c # cs) (length xs)"
  shows "length (close cs xs) \<le> length (close (c # cs) xs)" and "content_start c \<le> length (close cs xs)"
proof -
  have "content_start c \<le> length xs" "length xs \<le> length (close cs xs)"
    using assms chain_ok_le close_prefix by auto
  then show "content_start c \<le> length (close cs xs)" by simp
  then show "length (close cs xs) \<le> length (close (c # cs) xs)"
    using child_octets_length [of c "length (close cs xs) - content_start c"] assms
    by (auto simp: close_child_def content_start_def)
qed

lemma flush_children_props:
  assumes "chain_ok lo cs (length (buf b))" and "buf_ok b" and "\<not> error b"
    and "flush_children cs b = (ok, b', cs')"
  shows "(ok \<longrightarrow> cs' = [] \<and> buf b' = close cs (buf b) \<and> fits cs (buf b)) \<and> (\<not> ok \<longrightarrow> error b') \<and>
    buf_step b ok b' \<and>
    (growable b \<longrightarrow> fits cs (buf b) \<longrightarrow> length (close cs (buf b)) < 2 ^ 64 \<longrightarrow> ok \<and> growable b')"
  using assms
proof (induction cs arbitrary: lo ok b' cs')
  case Nil
  then show ?case by (auto simp: buf_step_def)
next
  case (Cons c cs)
  let ?s = "content_start c"
  have p: "pending_len_len c \<noteq> 0" "pending_is_asn1 c \<longrightarrow> pending_len_len c = 1"
    and ch: "chain_ok ?s cs (length (buf b))"
    using Cons.prems(1) by auto
  have s: "?s \<le> length (buf b)" "?s \<le> length (close cs (buf b))"
    using chain_ok_le [OF ch] close_length [OF Cons.prems(1)] by auto
  have "length (buf b) < 2 ^ 64"
    using Cons.prems(2) by (simp add: buf_ok_def)
  then have sa: "size_add (offset c) (pending_len_len c) = ?s"
    using s(1) by (simp add: content_start_def)
  obtain ok1 b1 cs1 where f1: "flush_children cs b = (ok1, b1, cs1)"
    by (cases "flush_children cs b")
  note IH = Cons.IH [OF ch Cons.prems(2,3) f1]
  obtain ok2 b2 c2 where f2: "(if pending_is_asn1 c then flush_asn1 ?s (length (buf b1) - ?s) c b1
      else write_length (length (buf b1) - ?s) c b1) = (ok2, b2, c2)"
    by (metis surj_pair)
  have eq: "(if \<not> ok1 \<or> ?s < offset c \<or> length (buf b1) < ?s then (False, set_error b1, c # cs1)
      else if ok2 then (True, b2, []) else (False, b2, c2 # cs1)) = (ok, b', cs')"
    using Cons.prems(3,4) p(1)
    by (simp only: flush_children.simps Let_def sa f1 f2 prod.case if_False simp_thms)
  have mono: "length (close cs (buf b)) \<le> length (close (c # cs) (buf b))"
    using close_length [OF Cons.prems(1)] by simp
  show ?case
  proof (cases ok1)
    case False
    then show ?thesis
      using eq IH mono by (auto simp: buf_step_def)
  next
    case True
    with IH have b1: "buf b1 = close cs (buf b)" "fits cs (buf b)" "buf_step b True b1"
      "growable b \<longrightarrow> length (close cs (buf b)) < 2 ^ 64 \<longrightarrow> growable b1" by auto
    have eq2: "(if ok2 then (True, b2, []) else (False, b2, c2 # cs1)) = (ok, b', cs')"
      using eq True s b1(1) by (simp add: content_start_def)
    have s1: "?s \<le> length (buf b1)"
      using s(2) b1(1) by simp
    have bo: "buf_ok b1" "\<not> error b1"
      using b1(3) Cons.prems(2) by (auto simp: buf_step_def)
    have "(ok2 \<longrightarrow> child_fits c (length (buf b1) - ?s) \<and> buf b2 = close_child c (buf b1)) \<and>
       (\<not> ok2 \<longrightarrow> error b2) \<and> buf_step b1 ok2 b2 \<and>
       (growable b1 \<longrightarrow> child_fits c (length (buf b1) - ?s) \<longrightarrow> length (close_child c (buf b1)) < 2 ^ 64 \<longrightarrow>
          ok2 \<and> growable b2)"
    proof (cases "pending_is_asn1 c")
      case True
      then have "flush_asn1 ?s (length (buf b1) - ?s) c b1 = (ok2, b2, c2)"
        using f2 by simp
      note fa = flush_asn1_close [OF this s1 True _ bo]
      have "pending_len_len c = 1" using True p by simp
      note fa = fa [OF this]
      show ?thesis
        unfolding buf_step_def using fa by blast
    next
      case False
      then have w: "write_length (length (buf b1) - ?s) c b1 = (ok2, b2, c2)"
        using f2 by simp
      note wl = write_length_close [OF w s1 False] write_length_props(3-6) [OF w]
      have "buf_ok b2" using wl(3,5) bo(1) by (simp add: buf_ok_def)
      then show ?thesis
        unfolding buf_step_def using wl bo by blast
    qed
    note F = this
    show ?thesis
    proof (cases ok2)
      case True
      then have "ok" "b' = b2" "cs' = []"
        using eq2 by simp_all
      then show ?thesis
        using F b1 True mono by (simp add: buf_step_def)
    next
      case False
      then have "\<not> ok" "b' = b2"
        using eq2 by simp_all
      then show ?thesis
        using F b1 False mono by (auto simp: buf_step_def)
    qed
  qed
qed

section \<open>The contents of a handle\<close>

definition cbb_ok :: "cbb \<Rightarrow> bool" where
  "cbb_ok c \<longleftrightarrow> (\<forall>b. base c = Some b \<longrightarrow> buf_ok b \<and> (\<not> error b \<longrightarrow> chain_ok 0 (children c) (length (buf b))))"

definition contents :: "nat \<Rightarrow> cbb \<Rightarrow> byte list" where
  "contents d c = (case base c of None \<Rightarrow> [] | Some b \<Rightarrow> close (drop d (children c)) (buf b))"

text \<open>On what a handle needs to succeed: room for \<open>n\<close> more bytes, and no open child too long.\<close>

definition ready :: "nat \<Rightarrow> cbb \<Rightarrow> nat \<Rightarrow> bool" where
  "ready d c n \<longleftrightarrow> (\<exists>b. base c = Some b \<and> growable b \<and> fits (drop d (children c)) (buf b)) \<and>
     length (contents d c) + n < 2 ^ 62"

definition emits :: "nat \<Rightarrow> cbb step \<Rightarrow> byte list \<Rightarrow> bool \<Rightarrow> bool" where
  "emits d f bs p \<longleftrightarrow> (\<forall>c ok c'. cbb_ok c \<longrightarrow> d \<le> length (children c) \<longrightarrow> length bs < 2 ^ 64 \<longrightarrow> f c = (ok, c') \<longrightarrow>
     cbb_ok c' \<and>
     (ok \<longrightarrow> d \<le> length (children c') \<and> take d (children c') = take d (children c) \<and>
        contents d c' = contents d c @ bs) \<and>
     (p \<longrightarrow> ready d c (length bs) \<longrightarrow> ok \<and> ready d c' 0))"


lemma emitsI:
  assumes "\<And>c ok c'. cbb_ok c \<Longrightarrow> d \<le> length (children c) \<Longrightarrow> length bs < 2 ^ 64 \<Longrightarrow> f c = (ok, c') \<Longrightarrow>
     cbb_ok c' \<and>
     (ok \<longrightarrow> d \<le> length (children c') \<and> take d (children c') = take d (children c) \<and>
        contents d c' = contents d c @ bs) \<and>
     (p \<longrightarrow> ready d c (length bs) \<longrightarrow> ok \<and> ready d c' 0)"
  shows "emits d f bs p"
  using assms unfolding emits_def by blast

lemma ready_mono: "ready d c n \<Longrightarrow> m \<le> n \<Longrightarrow> ready d c m"
  by (auto simp: ready_def)

lemma ready_size: "ready d c 0 \<Longrightarrow> length (contents d c) + n < 2 ^ 62 \<Longrightarrow> ready d c n"
  by (auto simp: ready_def)

lemma emits_succeed: "emits d succeed [] True"
  by (rule emitsI) (auto simp: succeed_def)

lemma emits_and_then:
  assumes f: "emits d f xs p" and g: "emits d g ys q"
  shows "emits d (and_then f g) (xs @ ys) (p \<and> q)"
proof (rule emitsI)
  fix c ok c'
  assume c: "cbb_ok c" "d \<le> length (children c)" and n: "length (xs @ ys) < 2 ^ 64"
    and r: "and_then f g c = (ok, c')"
  obtain ok1 c1 where f1: "f c = (ok1, c1)" by (cases "f c")
  have F: "cbb_ok c1"
     "ok1 \<longrightarrow> d \<le> length (children c1) \<and> take d (children c1) = take d (children c) \<and>
        contents d c1 = contents d c @ xs"
     "p \<longrightarrow> ready d c (length xs) \<longrightarrow> ok1 \<and> ready d c1 0"
    using f [unfolded emits_def, rule_format, OF c _ f1] n by auto
  show "cbb_ok c' \<and>
     (ok \<longrightarrow> d \<le> length (children c') \<and> take d (children c') = take d (children c) \<and>
        contents d c' = contents d c @ (xs @ ys)) \<and>
     (p \<and> q \<longrightarrow> ready d c (length (xs @ ys)) \<longrightarrow> ok \<and> ready d c' 0)"
  proof (cases ok1)
    case False
    then have "\<not> ok" "c' = c1" using r f1 by (auto simp: and_then_def)
    with F False show ?thesis by (auto intro: ready_mono)
  next
    case True
    with r f1 have g1: "g c1 = (ok, c')" by (simp add: and_then_def)
    have "d \<le> length (children c1)" using F True by simp
    from g [unfolded emits_def, rule_format, OF F(1) this _ g1] n
    have G: "cbb_ok c'"
       "ok \<longrightarrow> d \<le> length (children c') \<and> take d (children c') = take d (children c1) \<and>
          contents d c' = contents d c1 @ ys"
       "q \<longrightarrow> ready d c1 (length ys) \<longrightarrow> ok \<and> ready d c' 0"
      by auto
    have "p \<longrightarrow> ready d c (length (xs @ ys)) \<longrightarrow> ready d c1 (length ys)"
    proof (intro impI)
      assume p and r: "ready d c (length (xs @ ys))"
      then have "ready d c1 0" using F(3) ready_mono [OF r] by simp
      moreover have "length (contents d c1) + length ys < 2 ^ 62"
        using r F(2) True by (simp add: ready_def)
      ultimately show "ready d c1 (length ys)"
        by (rule ready_size)
    qed
    then show ?thesis
      using F(1,2) G True by (intro conjI impI) simp_all
  qed
qed

lemma chain_ok_take: "chain_ok lo cs n \<Longrightarrow> n \<le> m \<Longrightarrow> chain_ok lo (take d cs) m"
proof (induction cs arbitrary: lo d)
  case (Cons c cs)
  then show ?case
    using chain_ok_le [of lo "c # cs" n] by (cases d) auto
qed simp

lemma chain_ok_snoc:
  assumes "chain_ok lo cs n" and "n \<le> offset c" "content_start c \<le> m" "0 < pending_len_len c"
    "pending_is_asn1 c \<longrightarrow> pending_len_len c = 1"
  shows "chain_ok lo (cs @ [c]) m"
  using assms by (induction cs arbitrary: lo) auto

lemma chain_ok_drop: "chain_ok lo cs n \<Longrightarrow> \<exists>lo'. chain_ok lo' (drop d cs) n"
proof (induction cs arbitrary: lo d)
  case (Cons c cs)
  then show ?case by (cases d) (auto intro: exI [of _ lo])
qed auto

lemma flush_children_error: "error b \<Longrightarrow> flush_children cs b = (False, b, cs)"
  by (cases cs) auto

text \<open>What \<open>CBB_flush\<close> does, in terms of the contents of the handle.\<close>

definition flushed :: "nat \<Rightarrow> cbb \<Rightarrow> cbb \<Rightarrow> bool" where
  "flushed d c c' \<longleftrightarrow> (\<exists>b'. base c' = Some b' \<and> \<not> error b' \<and> buf b' = contents d c \<and> buf_ok b' \<and>
     children c' = take d (children c) \<and> length (children c') = d \<and> chain_ok 0 (children c') (length (buf b')) \<and>
     (ready d c 0 \<longrightarrow> growable b'))"

lemma CBB_flush_props:
  assumes "cbb_ok c" and "d \<le> length (children c)" and "CBB_flush d c = (ok, c')"
  shows "cbb_ok c'" and "ok \<Longrightarrow> flushed d c c'" and "ready d c 0 \<Longrightarrow> ok"
proof -
  have "cbb_ok c' \<and> (ok \<longrightarrow> flushed d c c') \<and> (ready d c 0 \<longrightarrow> ok)"
  proof (cases "base c")
    case None
    then have "\<not> ok" "c' = c" using assms(3) by (auto simp: CBB_flush_def)
    with None assms(1) show ?thesis by (simp add: ready_def)
  next
    case (Some b)
    obtain r b' cs where f: "flush_children (drop d (children c)) b = (r, b', cs)"
      by (cases "flush_children (drop d (children c)) b")
    have r: "ok = r" "c' = c\<lparr>base := Some b', children := take d (children c) @ cs\<rparr>"
      using assms(2,3) Some f by (auto simp: CBB_flush_def)
    show ?thesis
    proof (cases "error b")
      case True
      then have "\<not> r" "b' = b" "cs = drop d (children c)"
        using f by (simp_all add: flush_children_error)
      then show ?thesis
        using assms(1) Some True unfolding r by (simp add: cbb_ok_def ready_def growable_def)
    next
      case False
      have b: "buf_ok b" "chain_ok 0 (children c) (length (buf b))"
        using assms(1) Some False by (auto simp: cbb_ok_def)
      obtain lo where lo: "chain_ok lo (drop d (children c)) (length (buf b))"
        using chain_ok_drop [OF b(2)] by blast
      note fp = flush_children_props [OF lo b(1) False f]
      have ct: "contents d c = close (drop d (children c)) (buf b)"
        using Some by (simp add: contents_def)
      have "length (buf b) \<le> length (contents d c)"
        using close_prefix [OF lo] ct by simp
      then have ch: "chain_ok 0 (take d (children c)) (length (contents d c))"
        by (rule chain_ok_take [OF b(2)])
      have ok': "buf_ok b'" using fp b(1) by (simp add: buf_step_def)
      have rd: "growable b \<and> fits (drop d (children c)) (buf b) \<and> length (contents d c) < 2 ^ 64" if "ready d c 0"
        using that Some by (auto simp: ready_def)
      show ?thesis
      proof (cases r)
        case True
        then have x: "cs = []" "buf b' = contents d c" "\<not> error b'"
          using fp ct by (auto simp: buf_step_def)
        have "ready d c 0 \<longrightarrow> growable b'"
          using fp rd ct by auto
        then show ?thesis
          using x True ok' ch assms(2) unfolding r by (simp add: cbb_ok_def flushed_def)
      next
        case False
        then show ?thesis
          using fp rd ct ok' unfolding r by (auto simp: cbb_ok_def)
      qed
    qed
  qed
  then show "cbb_ok c'" "ok \<Longrightarrow> flushed d c c'" "ready d c 0 \<Longrightarrow> ok" by auto
qed

lemma contents_flushed: "flushed d c c' \<Longrightarrow> contents d c' = contents d c"
  by (auto simp: flushed_def contents_def)

lemma emits_flush: "emits d (CBB_flush d) [] True"
proof (rule emitsI)
  fix c ok c'
  assume c: "cbb_ok c" "d \<le> length (children c)" and r: "CBB_flush d c = (ok, c')"
  note f = CBB_flush_props [OF c r]
  have "ready d c 0 \<longrightarrow> ready d c' 0"
    using f contents_flushed [of d c c'] by (auto simp: flushed_def ready_def)
  moreover have "ok \<longrightarrow> d \<le> length (children c') \<and> take d (children c') = take d (children c)"
    using f(2) by (auto simp: flushed_def)
  ultimately show "cbb_ok c' \<and>
     (ok \<longrightarrow> d \<le> length (children c') \<and> take d (children c') = take d (children c) \<and>
        contents d c' = contents d c @ []) \<and>
     (True \<longrightarrow> ready d c (length []) \<longrightarrow> ok \<and> ready d c' 0)"
    using f contents_flushed [of d c c'] by simp
qed

text \<open>An operation on the buffer that appends \<open>bs\<close>.\<close>

definition appends :: "cbb_buffer step \<Rightarrow> byte list \<Rightarrow> bool \<Rightarrow> bool" where
  "appends f bs p \<longleftrightarrow> (\<forall>b ok b'. f b = (ok, b') \<longrightarrow> buf_ok b \<longrightarrow> length bs < 2 ^ 64 \<longrightarrow>
     buf_ok b' \<and> (ok \<longrightarrow> buf b' = buf b @ bs \<and> error b' = error b) \<and> (\<not> ok \<longrightarrow> error b') \<and>
     (p \<longrightarrow> growable b \<longrightarrow> length (buf b) + length bs < 2 ^ 64 \<longrightarrow> ok \<and> growable b'))"

lemma emits_on_base:
  assumes "appends f bs p"
  shows "emits d (and_then (CBB_flush d) (on_base f)) bs p"
proof (rule emitsI)
  fix c ok c'
  assume c: "cbb_ok c" "d \<le> length (children c)" and n: "length bs < 2 ^ 64"
    and r: "and_then (CBB_flush d) (on_base f) c = (ok, c')"
  obtain ok1 c1 where f1: "CBB_flush d c = (ok1, c1)" by (cases "CBB_flush d c")
  note fl = CBB_flush_props [OF c f1]
  show "cbb_ok c' \<and>
     (ok \<longrightarrow> d \<le> length (children c') \<and> take d (children c') = take d (children c) \<and>
        contents d c' = contents d c @ bs) \<and>
     (p \<longrightarrow> ready d c (length bs) \<longrightarrow> ok \<and> ready d c' 0)"
  proof (cases ok1)
    case False
    then have "\<not> ok" "c' = c1" using r f1 by (auto simp: and_then_def)
    with fl False show ?thesis by (auto intro: ready_mono)
  next
    case True
    then obtain b1 where b1: "base c1 = Some b1" "\<not> error b1" "buf b1 = contents d c" "buf_ok b1"
      "children c1 = take d (children c)" "length (children c1) = d" "chain_ok 0 (children c1) (length (buf b1))"
      "ready d c 0 \<longrightarrow> growable b1"
      using fl(2) True unfolding flushed_def by blast
    obtain r2 b2 where f2: "f b1 = (r2, b2)" by (cases "f b1")
    have c': "ok = r2" "c' = c1\<lparr>base := Some b2\<rparr>"
      using r f1 True b1(1) f2 by (auto simp: and_then_def on_base_def)
    have F: "buf_ok b2" "r2 \<longrightarrow> buf b2 = buf b1 @ bs \<and> error b2 = error b1" "\<not> r2 \<longrightarrow> error b2"
       "p \<longrightarrow> growable b1 \<longrightarrow> length (buf b1) + length bs < 2 ^ 64 \<longrightarrow> r2 \<and> growable b2"
      using assms f2 b1(4) n unfolding appends_def by auto
    have "cbb_ok c'"
      using F b1(6,7) chain_ok_take [of 0 "children c1" "length (buf b1)" "length (buf b2)" d]
      unfolding c' by (auto simp: cbb_ok_def)
    moreover have "r2 \<longrightarrow> contents d c' = contents d c @ bs"
      using F b1 unfolding c' by (simp add: contents_def)
    moreover have "p \<longrightarrow> ready d c (length bs) \<longrightarrow> r2 \<and> growable b2 \<and> length (contents d c @ bs) < 2 ^ 62"
      using F(4) b1(3,8) ready_mono [of d c "length bs" 0] by (auto simp: ready_def)
    ultimately show ?thesis
      using b1(5,6) unfolding c' by (auto simp: ready_def)
  qed
qed

section \<open>What each operation emits\<close>

lemma emits_mono: "emits d f bs p \<Longrightarrow> (q \<Longrightarrow> p) \<Longrightarrow> emits d f bs q"
  unfolding emits_def by blast

lemma appends_add: "appends (cbb_buffer_add bs) bs True"
  unfolding appends_def
proof (intro allI impI)
  fix b ok b'
  assume r: "cbb_buffer_add bs b = (ok, b')" and b: "buf_ok b" and n: "length bs < 2 ^ 64"
  note p = cbb_buffer_add_props [OF r]
  show "buf_ok b' \<and> (ok \<longrightarrow> buf b' = buf b @ bs \<and> error b' = error b) \<and> (\<not> ok \<longrightarrow> error b') \<and>
     (True \<longrightarrow> growable b \<longrightarrow> length (buf b) + length bs < 2 ^ 64 \<longrightarrow> ok \<and> growable b')"
    using p(1,3,4) p(5) [OF b n] cbb_buffer_add_growable [of b bs] r by auto
qed

lemma appends_add_u:
  assumes "n \<le> 8"
  shows "appends (cbb_buffer_add_u v n) (be_bytes n (unat v)) (unat v < 256 ^ n)"
proof (cases "n = 0")
  case True
  then show ?thesis by (auto simp: appends_def cbb_buffer_add_u_def)
next
  case False
  have z: "drop_bit (8 * n) v = 0 \<longleftrightarrow> unat v < 256 ^ n"
  proof -
    have "(2 :: nat) ^ (8 * n) = 256 ^ n" by (simp add: power_mult)
    then show ?thesis
      by (simp only: word_unat_eq_iff unat_drop_bit_div unsigned_0 div_eq_0_iff) simp
  qed
  show ?thesis
    unfolding appends_def
  proof (intro allI impI)
    fix b ok b'
    assume r: "cbb_buffer_add_u v n b = (ok, b')" and b: "buf_ok b" "length (be_bytes n (unat v)) < 2 ^ 64"
    obtain ok1 b1 where a: "cbb_buffer_add (be_bytes n (unat v)) b = (ok1, b1)"
      by (cases "cbb_buffer_add (be_bytes n (unat v)) b")
    have A: "buf_ok b1" "ok1 \<longrightarrow> buf b1 = buf b @ be_bytes n (unat v) \<and> error b1 = error b" "\<not> ok1 \<longrightarrow> error b1"
       "growable b \<longrightarrow> length (buf b) + length (be_bytes n (unat v)) < 2 ^ 64 \<longrightarrow> ok1 \<and> growable b1"
      using appends_add [of "be_bytes n (unat v)", unfolded appends_def, rule_format, OF a b] by auto
    have "(ok, b') = (if ok1 then if unat v < 256 ^ n then (True, b1) else (False, set_error b1) else (False, b1))"
      using r a False z by (auto simp: cbb_buffer_add_u_def store_u64_eq assms split: bool.splits if_splits)
    with A show "buf_ok b' \<and>
       (ok \<longrightarrow> buf b' = buf b @ be_bytes n (unat v) \<and> error b' = error b) \<and> (\<not> ok \<longrightarrow> error b') \<and>
       (unat v < 256 ^ n \<longrightarrow> growable b \<longrightarrow> length (buf b) + length (be_bytes n (unat v)) < 2 ^ 64 \<longrightarrow>
          ok \<and> growable b')"
      by (auto split: if_splits)
  qed
qed

lemma appends_reserve: "appends (cbb_buffer_reserve n) [] False"
  unfolding appends_def
proof (intro allI impI)
  fix b ok b'
  assume "cbb_buffer_reserve n b = (ok, b')" "buf_ok b"
  from cbb_buffer_reserve_props [OF this(1)] this(2)
  show "buf_ok b' \<and> (ok \<longrightarrow> buf b' = buf b @ [] \<and> error b' = error b) \<and> (\<not> ok \<longrightarrow> error b') \<and>
     (False \<longrightarrow> growable b \<longrightarrow> length (buf b) + length [] < 2 ^ 64 \<longrightarrow> ok \<and> growable b')"
    by auto
qed

named_theorems emits_rules \<comment> \<open>what each operation emits\<close>

lemma emits_add_bytes [emits_rules]: "emits d (CBB_add_bytes d bs) bs True"
  unfolding CBB_add_bytes_def by (rule emits_on_base [OF appends_add])

lemma emits_add_space [emits_rules]: "emits d (CBB_add_space d bs) bs True"
  unfolding CBB_add_space_def by (rule emits_on_base [OF appends_add])

lemma emits_add_zeros [emits_rules]: "emits d (CBB_add_zeros d n) (replicate n 0) True"
  unfolding CBB_add_zeros_def by (rule emits_add_space)

lemma emits_reserve: "emits d (CBB_reserve d n) [] False"
  unfolding CBB_reserve_def by (rule emits_on_base [OF appends_reserve])

lemma emits_add_u: "n \<le> 8 \<Longrightarrow> emits d (cbb_add_u d v n) (be_bytes n (unat v)) (unat v < 256 ^ n)"
  unfolding cbb_add_u_def by (rule emits_on_base [OF appends_add_u])

lemma emits_add_u8 [emits_rules]: "emits d (CBB_add_u8 d v) [v] True"
  using emits_add_u [of 1 d "ucast v"] by (auto simp: CBB_add_u8_def intro: emits_mono)

lemma emits_add_u16 [emits_rules]: "emits d (CBB_add_u16 d v) (be_bytes 2 (unat v)) True"
  using emits_add_u [of 2 d "ucast v"] unsigned_less [of v]
  by (auto simp: CBB_add_u16_def intro: emits_mono)

lemma emits_add_u16le [emits_rules]: "emits d (CBB_add_u16le d v) (be_bytes 2 (unat (CRYPTO_bswap2 v))) True"
  unfolding CBB_add_u16le_def by (rule emits_add_u16)

lemma emits_add_u24 [emits_rules]: "emits d (CBB_add_u24 d v) (be_bytes 3 (unat v)) (unat v < 2 ^ 24)"
  using emits_add_u [of 3 d "ucast v"] by (auto simp: CBB_add_u24_def intro: emits_mono)

lemma emits_add_u32 [emits_rules]: "emits d (CBB_add_u32 d v) (be_bytes 4 (unat v)) True"
  using emits_add_u [of 4 d "ucast v"] unsigned_less [of v]
  by (auto simp: CBB_add_u32_def intro: emits_mono)

lemma emits_add_u32le [emits_rules]: "emits d (CBB_add_u32le d v) (be_bytes 4 (unat (CRYPTO_bswap4 v))) True"
  unfolding CBB_add_u32le_def by (rule emits_add_u32)

lemma emits_add_u64 [emits_rules]: "emits d (CBB_add_u64 d v) (be_bytes 8 (unat v)) True"
  using emits_add_u [of 8 d v] unsigned_less [of v]
  by (auto simp: CBB_add_u64_def intro: emits_mono)

lemma emits_add_u64le [emits_rules]: "emits d (CBB_add_u64le d v) (be_bytes 8 (unat (CRYPTO_bswap8 v))) True"
  unfolding CBB_add_u64le_def by (rule emits_add_u64)

lemma emits_add_octets: "emits d (add_octets d bs) bs True"
proof (induction bs)
  case Nil
  then show ?case by (simp add: emits_succeed)
next
  case (Cons b bs)
  then show ?case
    using emits_and_then [OF emits_add_u8 [of d b] Cons.IH] by simp
qed

lemma emits_add_base128 [emits_rules]: "emits d (add_base128_integer d v) (base128 (unat v)) True"
  unfolding add_base128_integer_def base128_octets_eq by (rule emits_add_octets)


section \<open>Opening a child\<close>

definition prefix_octets :: "nat \<Rightarrow> bool \<Rightarrow> nat \<Rightarrow> byte list" where
  "prefix_octets k asn1 n = (if asn1 then der_len n else be_bytes k n)"

definition prefix_fits :: "nat \<Rightarrow> bool \<Rightarrow> nat \<Rightarrow> bool" where
  "prefix_fits k asn1 n \<longleftrightarrow> (if asn1 then n \<le> 0xfffffffe else n < 256 ^ k)"

text \<open>\<open>f\<close> writes \<open>pre\<close> and opens a child of the handle \<open>d\<close> with a prefix of \<open>k\<close> octets.\<close>

definition opens :: "nat \<Rightarrow> cbb step \<Rightarrow> byte list \<Rightarrow> nat \<Rightarrow> bool \<Rightarrow> bool" where
  "opens d f pre k asn1 \<longleftrightarrow> 0 < k \<and> (asn1 \<longrightarrow> k = 1) \<and>
     (\<forall>c ok c'. cbb_ok c \<longrightarrow> d \<le> length (children c) \<longrightarrow> length pre + k < 2 ^ 64 \<longrightarrow> f c = (ok, c') \<longrightarrow>
        cbb_ok c' \<and>
        (ok \<longrightarrow> (\<exists>b. base c' = Some b \<and> \<not> error b \<and>
            children c' = take d (children c) @
              [\<lparr>offset = length (contents d c @ pre), pending_len_len = k, pending_is_asn1 = asn1\<rparr>] \<and>
            buf b = contents d c @ pre @ replicate k 0 \<and>
            (ready d c (length pre + k) \<longrightarrow> growable b))) \<and>
        (ready d c (length pre + k) \<longrightarrow> ok))"

lemma prefix_octets_length: "0 < k \<Longrightarrow> asn1 \<longrightarrow> k = 1 \<Longrightarrow> k \<le> length (prefix_octets k asn1 n)"
  using der_len_length [of n] by (auto simp: prefix_octets_def)

lemma emits_in_child:
  assumes f: "opens d f pre k asn1" and g: "emits (Suc d) g xs p"
  shows "emits d (and_then f g) (pre @ prefix_octets k asn1 (length xs) @ xs) (p \<and> prefix_fits k asn1 (length xs))"
proof (rule emitsI)
  fix c ok c'
  let ?bs = "pre @ prefix_octets k asn1 (length xs) @ xs"
  assume c: "cbb_ok c" "d \<le> length (children c)" and n: "length ?bs < 2 ^ 64"
    and r: "and_then f g c = (ok, c')"
  have k: "0 < k" "asn1 \<longrightarrow> k = 1" using f by (simp_all add: opens_def)
  note kl = prefix_octets_length [OF k, of "length xs"]
  have n1: "length pre + k < 2 ^ 64" "length xs < 2 ^ 64" using n kl by simp_all
  obtain ok1 c1 where f1: "f c = (ok1, c1)" by (cases "f c")
  let ?ch = "\<lparr>offset = length (contents d c @ pre), pending_len_len = k, pending_is_asn1 = asn1\<rparr>"
  have F: "cbb_ok c1" "ok1 \<longrightarrow> (\<exists>b. base c1 = Some b \<and> \<not> error b \<and>
            children c1 = take d (children c) @ [?ch] \<and>
            buf b = contents d c @ pre @ replicate k 0 \<and>
            (ready d c (length pre + k) \<longrightarrow> growable b))"
    "ready d c (length pre + k) \<longrightarrow> ok1"
    using f c n1(1) f1 unfolding opens_def by blast+
  show "cbb_ok c' \<and>
     (ok \<longrightarrow> d \<le> length (children c') \<and> take d (children c') = take d (children c) \<and>
        contents d c' = contents d c @ ?bs) \<and>
     (p \<and> prefix_fits k asn1 (length xs) \<longrightarrow> ready d c (length ?bs) \<longrightarrow> ok \<and> ready d c' 0)"
  proof (cases ok1)
    case False
    then have "\<not> ok" "c' = c1" using r f1 by (auto simp: and_then_def)
    moreover have "\<not> ready d c (length ?bs)"
      using F(3) False kl ready_mono [of d c "length ?bs" "length pre + k"] by auto
    ultimately show ?thesis
      using F(1) by simp
  next
    case True
    then obtain b where b: "base c1 = Some b" "\<not> error b" "children c1 = take d (children c) @ [?ch]"
      "buf b = contents d c @ pre @ replicate k 0" "ready d c (length pre + k) \<longrightarrow> growable b"
      using F(2) by blast
    have len: "length (children c1) = Suc d" using b(3) c(2) by simp
    have g1: "g c1 = (ok, c')" using r f1 True by (simp add: and_then_def)
    have ct: "contents (Suc d) c1 = contents d c @ pre @ replicate k 0"
      using b len by (simp add: contents_def)
    have G: "cbb_ok c'"
      "ok \<longrightarrow> Suc d \<le> length (children c') \<and> take (Suc d) (children c') = take (Suc d) (children c1) \<and>
         contents (Suc d) c' = contents (Suc d) c1 @ xs"
      "p \<longrightarrow> ready (Suc d) c1 (length xs) \<longrightarrow> ok \<and> ready (Suc d) c' 0"
      using g [unfolded emits_def, rule_format, OF F(1) _ n1(2) g1] len by auto
    have S: "Suc d \<le> length (children c') \<and> take d (children c') = take d (children c) \<and>
        contents d c' = contents d c @ ?bs \<and>
        (prefix_fits k asn1 (length xs) \<longrightarrow> ready (Suc d) c' 0 \<longrightarrow> length (contents d c @ ?bs) < 2 ^ 62 \<longrightarrow> ready d c' 0)"
      if ok
    proof -
      have l: "Suc d \<le> length (children c')" and t: "take (Suc d) (children c') = take d (children c) @ [?ch]"
        and ct': "contents (Suc d) c' = contents d c @ pre @ replicate k 0 @ xs"
        using G(2) that ct b(3) len by auto
      have td: "take d (children c') = take d (children c)"
        using arg_cong [OF t, of "take d"] l c(2) by (simp add: min_absorb1)
      have "children c' ! d = take (Suc d) (children c') ! d"
        by simp
      then have ch: "children c' ! d = ?ch"
        using c(2) by (simp only: t) (simp add: nth_append)
      have dr: "drop d (children c') = ?ch # drop (Suc d) (children c')"
        using l ch by (metis Cons_nth_drop_Suc Suc_le_lessD)
      obtain b' where b': "base c' = Some b'"
        using ct' k(1) by (cases "base c'") (auto simp: contents_def)
      have cl: "close (drop (Suc d) (children c')) (buf b') = contents d c @ pre @ replicate k 0 @ xs"
        using ct' b' by (simp add: contents_def)
      have ctd: "contents d c' = contents d c @ ?bs"
        using b' by (simp add: contents_def dr cl close_child_def child_octets_def content_start_def prefix_octets_def)
      have "prefix_fits k asn1 (length xs) \<longrightarrow> ready (Suc d) c' 0 \<longrightarrow> fits (drop d (children c')) (buf b')"
        using b' by (simp add: ready_def dr cl child_fits_def content_start_def prefix_fits_def)
      then show ?thesis
        using l td ctd b' by (auto simp: ready_def)
    qed
    have R: "ready (Suc d) c1 (length xs) \<and> length (contents d c @ ?bs) < 2 ^ 62" if "ready d c (length ?bs)"
    proof -
      have "ready d c (length pre + k)"
        using kl by (intro ready_mono [OF that]) simp
      then have "growable b" using b(5) by simp
      moreover have "length (contents d c @ ?bs) < 2 ^ 62"
        using that by (simp add: ready_def)
      ultimately show ?thesis
        using b(1) len kl by (auto simp: ready_def ct)
    qed
    show ?thesis
      using G S R by auto
  qed
qed


text \<open>Two operations in a row, of which the second one flushes: the handle has no open child left.\<close>

definition flat :: "nat \<Rightarrow> cbb step \<Rightarrow> bool" where
  "flat d f \<longleftrightarrow> (\<forall>c c'. cbb_ok c \<longrightarrow> d \<le> length (children c) \<longrightarrow> f c = (True, c') \<longrightarrow>
     (\<exists>b. base c' = Some b \<and> \<not> error b) \<and> length (children c') = d)"

lemma flat_on_base:
  assumes "appends f bs p" and "length bs < 2 ^ 64"
  shows "flat d (and_then (CBB_flush d) (on_base f))"
  unfolding flat_def
proof (intro allI impI)
  fix c c'
  assume c: "cbb_ok c" "d \<le> length (children c)" and r: "and_then (CBB_flush d) (on_base f) c = (True, c')"
  then obtain c1 where f1: "CBB_flush d c = (True, c1)" and g: "on_base f c1 = (True, c')"
    by (auto simp: and_then_def split: prod.splits if_splits)
  obtain b1 where b1: "base c1 = Some b1" "\<not> error b1" "buf_ok b1" "length (children c1) = d"
    using CBB_flush_props(2) [OF c f1] by (auto simp: flushed_def)
  obtain b2 where b2: "f b1 = (True, b2)" "c' = c1\<lparr>base := Some b2\<rparr>"
    using g b1(1) by (cases "f b1") (auto simp: on_base_def)
  have "\<not> error b2"
    using assms b2(1) b1(2,3) unfolding appends_def by blast
  then show "(\<exists>b. base c' = Some b \<and> \<not> error b) \<and> length (children c') = d"
    using b2(2) b1(4) by simp
qed

lemma flat_add_u8: "flat d (CBB_add_u8 d v)"
  unfolding CBB_add_u8_def cbb_add_u_def by (rule flat_on_base [OF appends_add_u]) simp_all

lemma flat_and_then:
  assumes "emits d f xs p" and "length xs < 2 ^ 64" and "flat d g"
  shows "flat d (and_then f g)"
  unfolding flat_def
proof (intro allI impI)
  fix c c'
  assume c: "cbb_ok c" "d \<le> length (children c)" and r: "and_then f g c = (True, c')"
  then obtain c1 where f1: "f c = (True, c1)" and g: "g c1 = (True, c')"
    by (auto simp: and_then_def split: prod.splits if_splits)
  have "cbb_ok c1" "d \<le> length (children c1)"
    using assms(1) [unfolded emits_def, rule_format, OF c assms(2) f1] by auto
  then show "(\<exists>b. base c' = Some b \<and> \<not> error b) \<and> length (children c') = d"
    using assms(3) g unfolding flat_def by blast
qed

lemma flat_add_octets: "bs \<noteq> [] \<Longrightarrow> flat d (add_octets d bs)"
proof (induction bs)
  case (Cons b bs)
  show ?case
  proof (cases bs)
    case Nil
    have "and_then (CBB_add_u8 d b) succeed = CBB_add_u8 d b"
      by (rule ext) (auto simp: and_then_def succeed_def split: prod.splits)
    then show ?thesis using Nil flat_add_u8 by simp
  next
    case (Cons b' bs')
    then show ?thesis
      using flat_and_then [OF emits_add_u8 _ Cons.IH] by simp
  qed
qed simp

text \<open>An operation that leaves the handle without open children, then one prefix.\<close>

lemma opensI:
  assumes f: "emits d f pre True" "flat d f" and k: "0 < k" "asn1 \<longrightarrow> k = 1"
    and g: "emits d g (replicate k 0) True" "flat d g"
  shows "opens d (and_then f (\<lambda>c. and_then g
      (\<lambda>c'. (True, open_child d \<lparr>offset = base_len c, pending_len_len = k, pending_is_asn1 = asn1\<rparr> c')) c)) pre k asn1"
  unfolding opens_def
proof (intro conjI allI impI)
  fix c ok c'
  assume c: "cbb_ok c" "d \<le> length (children c)" and n: "length pre + k < 2 ^ 64"
    and r: "and_then f (\<lambda>c. and_then g
      (\<lambda>c'. (True, open_child d \<lparr>offset = base_len c, pending_len_len = k, pending_is_asn1 = asn1\<rparr> c')) c) c = (ok, c')"
  let ?ch = "\<lparr>offset = length (contents d c @ pre), pending_len_len = k, pending_is_asn1 = asn1\<rparr>"
  obtain ok1 c1 where f1: "f c = (ok1, c1)" by (cases "f c")
  obtain ok2 c2 where g1: "g c1 = (ok2, c2)" by (cases "g c1")
  have fg: "and_then f g c = (ok1 \<and> ok2, if ok1 then c2 else c1)"
    using f1 g1 by (auto simp: and_then_def)
  have ok: "ok = (ok1 \<and> ok2)"
    "c' = (if ok1 then if ok2 then open_child d \<lparr>offset = base_len c1, pending_len_len = k, pending_is_asn1 = asn1\<rparr> c2
       else c2 else c1)"
    using r f1 g1 by (auto simp: and_then_def split: if_splits)
  have E: "cbb_ok (if ok1 then c2 else c1)"
    "ok1 \<and> ok2 \<longrightarrow> d \<le> length (children c2) \<and> take d (children c2) = take d (children c) \<and>
       contents d c2 = contents d c @ pre @ replicate k 0"
    "ready d c (length pre + k) \<longrightarrow> ok1 \<and> ok2 \<and> ready d c2 0"
    using emits_and_then [OF f(1) g(1), unfolded emits_def, rule_format, OF c _ fg] n by auto
  have S: "(\<exists>b. base c' = Some b \<and> \<not> error b \<and> children c' = take d (children c) @ [?ch] \<and>
            buf b = contents d c @ pre @ replicate k 0 \<and> (ready d c (length pre + k) \<longrightarrow> growable b)) \<and> cbb_ok c'"
    if oks: "ok1 \<and> ok2"
  proof -
    have C1: "cbb_ok c1" "d \<le> length (children c1)" "contents d c1 = contents d c @ pre"
      using f(1) [unfolded emits_def, rule_format, OF c _ f1] n oks by auto
    obtain b1 where b1: "base c1 = Some b1" "\<not> error b1" "length (children c1) = d"
      using f(2) [unfolded flat_def, rule_format, OF c, of c1] f1 oks by fastforce
    obtain b2 where b2: "base c2 = Some b2" "\<not> error b2" "length (children c2) = d"
      using g(2) [unfolded flat_def, rule_format, OF C1(1,2), of c2] g1 oks by auto
    have "base_len c1 = length (contents d c @ pre)"
      using C1(3) b1(1,3) by (simp add: base_len_def contents_def)
    then have c': "c' = open_child d ?ch c2"
      using ok(2) oks by simp
    have ch: "children c2 = take d (children c)" and bb: "buf b2 = contents d c @ pre @ replicate k 0"
      using E(2) oks b2 by (simp_all add: contents_def)
    have ok2: "buf_ok b2" "chain_ok 0 (children c2) (length (buf b2))"
      using E(1) oks b2 by (simp_all add: cbb_ok_def)
    have "chain_ok 0 (take d (children c)) (length (contents d c @ pre))"
    proof -
      have "buf_ok b1 \<and> chain_ok 0 (children c1) (length (buf b1))"
        using C1(1) b1 by (simp add: cbb_ok_def)
      moreover have "children c1 = take d (children c)"
        using f(1) [unfolded emits_def, rule_format, OF c _ f1] n oks b1(3) by simp
      moreover have "buf b1 = contents d c @ pre"
        using C1(3) b1 by (simp add: contents_def)
      ultimately show ?thesis by simp
    qed
    then have "chain_ok 0 (take d (children c) @ [?ch]) (length (buf b2))"
      using k by (intro chain_ok_snoc) (auto simp: content_start_def bb)
    then have "cbb_ok c'"
      using b2(1) ok2(1) ch b2(3) by (simp add: c' open_child_def cbb_ok_def)
    moreover have "ready d c (length pre + k) \<longrightarrow> growable b2"
      using E(3) b2(1) by (auto simp: ready_def)
    ultimately show ?thesis
      using b2 ch bb by (simp add: c' open_child_def)
  qed
  show "cbb_ok c'"
    using S E(1) ok by (auto split: if_splits)
  show "\<exists>b. base c' = Some b \<and> \<not> error b \<and> children c' = take d (children c) @ [?ch] \<and>
            buf b = contents d c @ pre @ replicate k 0 \<and> (ready d c (length pre + k) \<longrightarrow> growable b)" if ok
    using S that ok(1) by blast
  show "ready d c (length pre + k) \<Longrightarrow> ok"
    using E(3) ok(1) by blast
qed (use k in auto)


lemma CBB_flush_flat:
  "base c = Some b \<Longrightarrow> \<not> error b \<Longrightarrow> length (children c) = d \<Longrightarrow> CBB_flush d c = (True, c)"
  by (simp add: CBB_flush_def)

lemma CBB_flush_flush:
  assumes "cbb_ok c" and "d \<le> length (children c)" and "CBB_flush d c = (True, c')"
  shows "CBB_flush d c' = (True, c')"
  using CBB_flush_props(2) [OF assms] CBB_flush_flat by (auto simp: flushed_def)

lemma flat_flush: "flat d (CBB_flush d)"
  unfolding flat_def using CBB_flush_props(2) by (fastforce simp: flushed_def)

lemma opens_length_prefixed:
  assumes "0 < k" and "k < 2 ^ 64"
  shows "opens d (cbb_add_length_prefixed d k) [] k False"
proof -
  let ?open = "\<lambda>c c'. (True, open_child d \<lparr>offset = base_len c, pending_len_len = k, pending_is_asn1 = False\<rparr> c')"
  let ?g = "and_then (CBB_flush d) (on_base (cbb_buffer_add (replicate k 0)))"
  have "opens d (and_then (CBB_flush d) (\<lambda>c. and_then ?g (?open c) c)) [] k False"
    using assms by (intro opensI emits_flush flat_flush emits_on_base flat_on_base [OF appends_add] appends_add) auto
  moreover have "and_then (CBB_flush d) (\<lambda>c. and_then ?g (?open c) c) c = cbb_add_length_prefixed d k c"
    if "cbb_ok c" "d \<le> length (children c)" for c
    using CBB_flush_flush [OF that]
    by (auto simp: cbb_add_length_prefixed_def and_then_def split: prod.splits)
  ultimately show ?thesis
    unfolding opens_def by fastforce
qed

lemma and_then_assoc: "and_then (and_then f g) h = and_then f (and_then g h)"
  by (rule ext) (auto simp: and_then_def split: prod.splits)

lemma opens_asn1: "opens d (CBB_add_asn1 d tag) (der_tag tag) 1 True"
proof -
  let ?bits = "ucast (drop_bit CBS_ASN1_TAG_SHIFT tag) AND 0xe0 :: byte"
  let ?number = "tag AND CBS_ASN1_TAG_NUMBER_MASK"
  let ?tagop = "if ?number \<ge> 0x1f then and_then (CBB_add_u8 d (?bits OR 0x1f)) (add_base128_integer d (ucast ?number))
    else CBB_add_u8 d (?bits OR ucast ?number)"
  let ?open = "\<lambda>c c'. (True, open_child d \<lparr>offset = base_len c, pending_len_len = 1, pending_is_asn1 = True\<rparr> c')"
  have e: "emits d ?tagop (der_tag tag) True"
    using emits_and_then [OF emits_add_u8 emits_add_octets]
    by (auto simp: der_tag_def Let_def add_base128_integer_def intro: emits_add_u8)
  have fl: "flat d ?tagop"
  proof -
    have "base128_octets v \<noteq> []" for v by (simp add: base128_octets_eq)
    then show ?thesis
      using flat_and_then [OF emits_add_u8 _ flat_add_octets] flat_add_u8
      by (simp add: add_base128_integer_def)
  qed
  have z: "emits d (CBB_add_u8 d 0) (replicate 1 0) True"
    using emits_add_u8 [of d 0] by simp
  have "opens d (and_then (and_then (CBB_flush d) ?tagop) (\<lambda>c. and_then (CBB_add_u8 d 0) (?open c) c)) (der_tag tag) 1 True"
    using emits_and_then [OF emits_flush e] flat_and_then [OF emits_flush _ fl] flat_add_u8 z
    by (intro opensI) auto
  then show ?thesis
    by (simp only: and_then_assoc CBB_add_asn1_def Let_def)
qed

text \<open>The two forms of an open child, with what is written into it.\<close>

lemma emits_length_prefixed [emits_rules]:
  "emits (Suc d) g xs p \<Longrightarrow> 0 < k \<Longrightarrow> k < 2 ^ 64 \<Longrightarrow>
   emits d (and_then (cbb_add_length_prefixed d k) g) (be_bytes k (length xs) @ xs) (p \<and> length xs < 256 ^ k)"
  using emits_in_child [OF opens_length_prefixed] by (fastforce simp: prefix_octets_def prefix_fits_def)

lemma emits_asn1 [emits_rules]:
  "emits (Suc d) g xs p \<Longrightarrow>
   emits d (and_then (CBB_add_asn1 d tag) g) (der tag xs) (p \<and> length xs \<le> 0xfffffffe)"
  using emits_in_child [OF opens_asn1] by (simp add: prefix_octets_def prefix_fits_def der_def)

section \<open>From \<open>CBB_init\<close> to \<open>CBB_finish\<close>\<close>

lemma CBB_init_props:
  assumes "CBB_init n h = (ok, c)" and "n < 2 ^ 64"
  shows "cbb_ok c" and "ok \<Longrightarrow> contents 0 c = []" and "False \<notin> set h \<Longrightarrow> ok \<and> ready 0 c 0"
proof -
  obtain ok1 h1 where h1: "heap_alloc h = (ok1, h1)" by (cases "heap_alloc h")
  obtain ok2 h2 where h2: "heap_alloc h1 = (ok2, h2)" by (cases "heap_alloc h1")
  have "False \<notin> set h \<longrightarrow> ok1 \<and> ok2 \<and> False \<notin> set h2"
    using heap_alloc_no_failure [of h] heap_alloc_keeps_no_failure [of h]
      heap_alloc_no_failure [of h1] heap_alloc_keeps_no_failure [of h1] h1 h2 by auto
  with assms h1 h2 have "cbb_ok c \<and> (ok \<longrightarrow> contents 0 c = []) \<and> (False \<notin> set h \<longrightarrow> ok \<and> ready 0 c 0)"
    by (auto simp: CBB_init_def cbb_init_def Let_def cbb_ok_def contents_def ready_def growable_def buf_ok_def CBB_zero_def
        split: prod.splits if_splits)
  then show "cbb_ok c" "ok \<Longrightarrow> contents 0 c = []" "False \<notin> set h \<Longrightarrow> ok \<and> ready 0 c 0"
    by auto
qed

lemma CBB_init_fixed_props:
  assumes "CBB_init_fixed n h = (ok, c)" and "n < 2 ^ 64"
  shows "cbb_ok c" and "ok \<Longrightarrow> contents 0 c = []"
    and "ok \<Longrightarrow> \<exists>b. base c = Some b \<and> cap b = n \<and> \<not> can_resize b"
  using assms by (auto simp: CBB_init_fixed_def cbb_init_def Let_def cbb_ok_def contents_def buf_ok_def CBB_zero_def
      split: prod.splits if_splits bool.splits)

lemma CBB_finish_props:
  assumes "cbb_ok c" and "CBB_finish 0 w c = (out, c')"
  shows "out = Some bs \<Longrightarrow> bs = contents 0 c" and "ready 0 c 0 \<Longrightarrow> w \<Longrightarrow> out = Some (contents 0 c)"
proof -
  obtain ok c1 where f: "CBB_flush 0 c = (ok, c1)" by (cases "CBB_flush 0 c")
  note F = CBB_flush_props [OF assms(1) _ f, simplified]
  show "bs = contents 0 c" if "out = Some bs"
    using assms(2) f F(2) that
    by (auto simp: CBB_finish_def flushed_def split: bool.splits option.splits if_splits)
  show "out = Some (contents 0 c)" if "ready 0 c 0" w
    using assms(2) f F(2,3) that
    by (auto simp: CBB_finish_def flushed_def split: bool.splits option.splits if_splits)
qed

end
