(* ===== verification/CBB_Prog.thy ===== *)
theory CBB_Prog
  imports CBB_Spec
begin

text \<open>
  Programs over a \<open>CBB\<close>: trees of items and the calls that write them, any sequence of calls
  (\<open>cbb_reachable\<close>), and the properties of the writer of \<open>crypto/bytestring/cbb.c\<close>.
\<close>

section \<open>Trees of items\<close>

text \<open>What a caller writes: runs of octets, length-prefixed vectors and ASN.1 elements, nested.\<close>

datatype item =
    Octets "byte list"
  | Prefixed nat "item list" \<comment> \<open>a prefix of 1, 2 or 3 octets\<close>
  | Element u32 "item list"

fun enc :: "item \<Rightarrow> byte list" and enc_all :: "item list \<Rightarrow> byte list" where
  "enc (Octets bs) = bs"
| "enc (Prefixed k is) = be_bytes k (length (enc_all is)) @ enc_all is"
| "enc (Element tag is) = der tag (enc_all is)"
| "enc_all [] = []"
| "enc_all (i # is) = enc i @ enc_all is"

fun item_fits :: "item \<Rightarrow> bool" and items_fit :: "item list \<Rightarrow> bool" where
  "item_fits (Octets bs) = True"
| "item_fits (Prefixed k is) = (items_fit is \<and> length (enc_all is) < 256 ^ k)"
| "item_fits (Element tag is) = (items_fit is \<and> length (enc_all is) \<le> 0xfffffffe)"
| "items_fit [] = True"
| "items_fit (i # is) = (item_fits i \<and> items_fit is)"

fun item_wf :: "item \<Rightarrow> bool" and items_wf :: "item list \<Rightarrow> bool" where
  "item_wf (Octets bs) = True"
| "item_wf (Prefixed k is) = (k \<in> {1, 2, 3} \<and> items_wf is)"
| "item_wf (Element tag is) = items_wf is"
| "items_wf [] = True"
| "items_wf (i # is) = (item_wf i \<and> items_wf is)"

fun build :: "nat \<Rightarrow> item \<Rightarrow> cbb step" and build_all :: "nat \<Rightarrow> item list \<Rightarrow> cbb step" where
  "build d (Octets bs) = CBB_add_bytes d bs"
| "build d (Prefixed k is) = and_then (cbb_add_length_prefixed d k) (build_all (Suc d) is)"
| "build d (Element tag is) = and_then (CBB_add_asn1 d tag) (build_all (Suc d) is)"
| "build_all d [] = succeed"
| "build_all d (i # is) = and_then (build d i) (build_all d is)"

lemma emits_build:
  "item_wf i \<Longrightarrow> emits d (build d i) (enc i) (item_fits i)"
  "items_wf is \<Longrightarrow> emits d (build_all d is) (enc_all is) (items_fit is)"
proof (induction d i and d "is" rule: build_build_all.induct)
  case (1 d bs)
  then show ?case by (simp add: emits_add_bytes)
next
  case (2 d k "is")
  then show ?case using emits_length_prefixed [of d "build_all (Suc d) is" "enc_all is" "items_fit is" k] by auto
next
  case (3 d tag "is")
  then show ?case using emits_asn1 by simp
next
  case (4 d)
  then show ?case by (simp add: emits_succeed)
next
  case (5 d i "is")
  then show ?case using emits_and_then by simp
qed

lemma emits_run:
  assumes "emits 0 f bs p" and "CBB_init n h = (ok, c)" and "n < 2 ^ 64" and "length bs < 2 ^ 64"
    and "f c = (ok1, c1)" and "CBB_finish 0 w c1 = (out, c2)"
  shows "ok \<Longrightarrow> ok1 \<Longrightarrow> out = Some data \<Longrightarrow> data = bs"
    and "False \<notin> set h \<Longrightarrow> p \<Longrightarrow> w \<Longrightarrow> length bs < 2 ^ 62 \<Longrightarrow> ok \<and> ok1 \<and> out = Some bs"
proof -
  note I = CBB_init_props [OF assms(2,3)]
  have E: "cbb_ok c1" "ok1 \<longrightarrow> contents 0 c1 = contents 0 c @ bs"
    "p \<longrightarrow> ready 0 c (length bs) \<longrightarrow> ok1 \<and> ready 0 c1 0"
    using assms(1) [unfolded emits_def, rule_format, OF I(1) _ assms(4,5)] by auto
  note F = CBB_finish_props [OF E(1) assms(6)]
  show "data = bs" if "ok" "ok1" "out = Some data"
    using F(1) [OF that(3)] E(2) I(2) that by simp
  show "ok \<and> ok1 \<and> out = Some bs" if "False \<notin> set h" p w "length bs < 2 ^ 62"
  proof -
    have ok: ok and r: "ready 0 c 0" using I(3) that(1) by auto
    have "ready 0 c (length bs)"
      using that(4) I(2) [OF ok] by (intro ready_size [OF r]) simp
    then have "ok1" "ready 0 c1 0" using E(3) that(2) by auto
    then show ?thesis using F(2) that(3) E(2) I(2) ok by simp
  qed
qed

section \<open>All operations\<close>

datatype cbb_op =
    Flush nat | AddBytes nat "byte list" | AddSpace nat "byte list" | AddU nat u64 nat
  | AddPrefixed nat nat | AddAsn1 nat u32 | Reserve nat nat | DidWrite nat "byte list" | Discard nat

text \<open>\<open>CBB_add_u8\<close> .. \<open>CBB_add_u64le\<close> are the instances of \<open>AddU\<close>, \<open>CBB_add_zeros\<close> is one of \<open>AddSpace\<close>.\<close>

fun cbb_op_ok :: "cbb_op \<Rightarrow> bool" where
  "cbb_op_ok (AddBytes d bs) = (length bs < 2 ^ 64)"
| "cbb_op_ok (AddSpace d bs) = (length bs < 2 ^ 64)"
| "cbb_op_ok (AddU d v n) = (n \<in> {1, 2, 3, 4, 8})"
| "cbb_op_ok (AddPrefixed d k) = (k \<in> {1, 2, 3})"
| "cbb_op_ok (DidWrite d bs) = (length bs < 2 ^ 64)"
| "cbb_op_ok op = True"

fun run_op :: "cbb_op \<Rightarrow> cbb step" where
  "run_op (Flush d) = CBB_flush d"
| "run_op (AddBytes d bs) = CBB_add_bytes d bs"
| "run_op (AddSpace d bs) = CBB_add_space d bs"
| "run_op (AddU d v n) = cbb_add_u d v n"
| "run_op (AddPrefixed d k) = cbb_add_length_prefixed d k"
| "run_op (AddAsn1 d tag) = CBB_add_asn1 d tag"
| "run_op (Reserve d n) = CBB_reserve d n"
| "run_op (DidWrite d bs) = CBB_did_write d bs"
| "run_op (Discard d) = (\<lambda>c. (True, CBB_discard_child d c))"

inductive cbb_reachable :: "cbb \<Rightarrow> cbb \<Rightarrow> bool" for c where
  start: "cbb_reachable c c"
| op: "cbb_reachable c c' \<Longrightarrow> cbb_op_ok op \<Longrightarrow> run_op op c' = (ok, c'') \<Longrightarrow> cbb_reachable c c''"

text \<open>A handle whose child has been flushed fails and changes nothing.\<close>

lemma CBB_flush_stale: "length (children c) < d \<Longrightarrow> CBB_flush d c = (False, c)"
  by (auto simp: CBB_flush_def split: option.splits)

lemma and_then_stale: "length (children c) < d \<Longrightarrow> and_then (CBB_flush d) f c = (False, c)"
  by (simp add: and_then_def CBB_flush_stale)

lemmas flush_first = CBB_add_bytes_def CBB_add_space_def CBB_reserve_def cbb_add_u_def
  cbb_add_length_prefixed_def CBB_add_asn1_def

definition op_handle :: "cbb_op \<Rightarrow> nat" where
  "op_handle op = (case op of Flush d \<Rightarrow> d | AddBytes d _ \<Rightarrow> d | AddSpace d _ \<Rightarrow> d | AddU d _ _ \<Rightarrow> d
     | AddPrefixed d _ \<Rightarrow> d | AddAsn1 d _ \<Rightarrow> d | Reserve d _ \<Rightarrow> d | DidWrite d _ \<Rightarrow> d | Discard d \<Rightarrow> d)"

lemma run_op_stale:
  "length (children c) < op_handle op \<Longrightarrow> (case op of Discard d \<Rightarrow> False | _ \<Rightarrow> True) \<Longrightarrow> run_op op c = (False, c)"
  by (cases op) (auto simp: op_handle_def flush_first and_then_stale CBB_flush_stale CBB_did_write_def
      Let_def split: option.splits)

lemma cbb_ok_discard: "cbb_ok c \<Longrightarrow> cbb_ok (CBB_discard_child d c)"
proof -
  have "chain_ok 0 (take d cs) (min n (offset (cs ! d)))" if "chain_ok lo cs n" "d < length cs" "lo = 0" for lo cs n
  proof -
    have "chain_ok lo (take d cs) (min n (offset (cs ! d)))"
      using that(1,2)
    proof (induction cs arbitrary: lo d)
      case (Cons c cs)
      have "lo \<le> n" using Cons.prems(1) by (rule chain_ok_le)
      with Cons show ?case by (cases d) auto
    qed simp
    with that(3) show ?thesis by simp
  qed
  then show "cbb_ok c \<Longrightarrow> cbb_ok (CBB_discard_child d c)"
    by (auto simp: CBB_discard_child_def cbb_ok_def buf_ok_def not_le min_def split: if_splits) 
qed

lemma cbb_ok_did_write: "cbb_ok c \<Longrightarrow> length bs < 2 ^ 64 \<Longrightarrow> CBB_did_write d bs c = (ok, c') \<Longrightarrow> cbb_ok c'"
proof -
  assume c: "cbb_ok c" and n: "length bs < 2 ^ 64" and r: "CBB_did_write d bs c = (ok, c')"
  show "cbb_ok c'"
  proof (cases "ok")
    case False
    then show ?thesis using r c by (auto simp: CBB_did_write_def Let_def split: option.splits if_splits)
  next
    case True
    then obtain b where b: "base c = Some b" and w: "\<not> size_add (length (buf b)) (length bs) < length (buf b)"
      "size_add (length (buf b)) (length bs) \<le> cap b" and c': "c' = c\<lparr>base := Some (b\<lparr>buf := buf b @ bs\<rparr>)\<rparr>"
      using r by (auto simp: CBB_did_write_def Let_def not_less split: option.splits if_splits)
    have b64: "buf_ok b" "length (buf b) < 2 ^ 64" using c b by (auto simp: cbb_ok_def buf_ok_def)
    then have "size_add (length (buf b)) (length bs) = length (buf b) + length bs"
      using w(1) n size_add_overflow_iff [of "length (buf b)" "length bs"] by simp
    then show ?thesis
      using c b b64(1) w(2) chain_ok_take [of 0 "children c" "length (buf b)" "length (buf b) + length bs" "length (children c)"]
      unfolding c' by (auto simp: cbb_ok_def buf_ok_def)
  qed
qed

lemma run_op_cbb_ok:
  assumes "cbb_ok c" and "cbb_op_ok op" and "run_op op c = (ok, c')"
  shows "cbb_ok c'"
proof (cases "op_handle op \<le> length (children c)")
  case False
  then show ?thesis
    using run_op_stale [of c op] assms cbb_ok_discard [OF assms(1)] by (cases op) auto
next
  case True
  have em: "cbb_ok c'" if "emits (op_handle op) (run_op op) bs p" "length bs < 2 ^ 64" for bs p
    using that assms(1,3) True unfolding emits_def by blast
  have opn: "cbb_ok c'" if "opens (op_handle op) (run_op op) pre k a" "length pre + k < 2 ^ 64" for pre k a
    using that assms(1,3) True unfolding opens_def by blast
  show ?thesis
  proof (cases op)
    case (Flush d)
    then show ?thesis using em [of "[]" True] by (simp add: op_handle_def emits_flush)
  next
    case (AddBytes d bs)
    then show ?thesis using em [of bs True] assms(2) by (simp add: op_handle_def emits_add_bytes)
  next
    case (AddSpace d bs)
    then show ?thesis using em [of bs True] assms(2) by (simp add: op_handle_def emits_add_space)
  next
    case (AddU d v n)
    then have "n \<le> 8" using assms(2) by auto
    with AddU show ?thesis using em [of "be_bytes n (unat v)" "unat v < 256 ^ n"] by (simp add: op_handle_def emits_add_u)
  next
    case (AddPrefixed d k)
    then show ?thesis
      using opn [of "[]" k False] assms(2) opens_length_prefixed [of k d] by (auto simp: op_handle_def)
  next
    case (AddAsn1 d tag)
    then show ?thesis
      using opn [of "der_tag tag" 1 True] opens_asn1 [of d tag] der_tag_length [of tag] by (simp add: op_handle_def)
  next
    case (Reserve d n)
    then show ?thesis using em [of "[]" False] by (simp add: op_handle_def emits_reserve)
  next
    case (DidWrite d bs)
    then show ?thesis using cbb_ok_did_write assms by auto
  next
    case (Discard d)
    then show ?thesis using cbb_ok_discard assms by auto
  qed
qed


section \<open>What never changes\<close>

definition frame :: "cbb_buffer \<Rightarrow> cbb_buffer \<Rightarrow> bool" where
  "frame b b' \<longleftrightarrow> can_resize b' = can_resize b \<and> (\<not> can_resize b \<longrightarrow> cap b' = cap b)"

lemma frame_refl [simp]: "frame b b"
  by (simp add: frame_def)

lemma frame_trans: "frame b b' \<Longrightarrow> frame b' b'' \<Longrightarrow> frame b b''"
  by (auto simp: frame_def)

lemma frame_updates [simp]:
  "frame b (set_error b')= frame b b'" "frame b (b'\<lparr>buf := xs\<rparr>) = frame b b'"
  by (auto simp: frame_def)

lemma cbb_buffer_add_frame: "cbb_buffer_add bs b = (ok, b') \<Longrightarrow> frame b b'"
  using cbb_buffer_add_props by (auto simp: frame_def)

lemma write_length_frame: "write_length len c b = (ok, b', c') \<Longrightarrow> frame b b'"
  by (auto simp: write_length_def Let_def split: prod.splits if_splits)

lemma flush_asn1_frame:
  assumes "flush_asn1 s len c b = (ok, b', c')"
  shows "frame b b'"
proof (cases "asn1_length_form len")
  case None
  then show ?thesis using assms by (auto simp: flush_asn1_def)
next
  case (Some form)
  obtain k ilb r where form: "asn1_length_form len = Some (k, ilb, r)"
    using Some by (cases form) auto
  obtain ok1 b1 where b1: "(if k \<noteq> 1 then cbb_buffer_add (replicate (k - 1) 0) b else (True, b)) = (ok1, b1)"
    by (metis surj_pair)
  have "frame b b1"
    using b1 cbb_buffer_add_frame by (auto split: if_splits)
  moreover have "b' = set_error b1 \<or> (\<exists>xs c1 ok c2. write_length r c1 (b1\<lparr>buf := xs\<rparr>) = (ok, b', c2))"
    using assms unfolding flush_asn1_def form option.case prod.case Let_def b1
    by (auto split: if_splits)
  ultimately show ?thesis
    using write_length_frame by (auto simp: frame_def)
qed

lemma flush_children_frame: "flush_children cs b = (ok, b', cs') \<Longrightarrow> frame b b'"
proof (induction cs arbitrary: ok b' cs')
  case (Cons c cs)
  obtain ok1 b1 cs1 where f1: "flush_children cs b = (ok1, b1, cs1)"
    by (cases "flush_children cs b")
  let ?s = "size_add (offset c) (pending_len_len c)"
  obtain ok2 b2 c2 where f2: "(if pending_is_asn1 c then flush_asn1 ?s (length (buf b1) - ?s) c b1
      else write_length (length (buf b1) - ?s) c b1) = (ok2, b2, c2)"
    by (metis surj_pair)
  have "frame b b1" using Cons.IH [OF f1] .
  moreover have "frame b1 b2"
    using f2 flush_asn1_frame write_length_frame by (auto split: if_splits)
  moreover have "b' = b \<or> b' = set_error b1 \<or> b' = b2"
    using Cons.prems unfolding flush_children.simps Let_def f1 f2 prod.case
    by (auto split: if_splits)
  ultimately show ?case
    by (auto intro: frame_trans)
qed auto

definition base_frame :: "cbb \<Rightarrow> cbb \<Rightarrow> bool" where
  "base_frame c c' \<longleftrightarrow> (\<forall>b. base c = Some b \<longrightarrow> (\<exists>b'. base c' = Some b' \<and> frame b b'))"

lemma CBB_flush_frame: "CBB_flush d c = (ok, c') \<Longrightarrow> base_frame c c'"
  by (auto simp: CBB_flush_def base_frame_def dest: flush_children_frame split: option.splits prod.splits if_splits)

definition frames :: "cbb step \<Rightarrow> bool" where
  "frames f \<longleftrightarrow> (\<forall>c ok c'. f c = (ok, c') \<longrightarrow> base_frame c c')"

lemma base_frame_trans: "base_frame c c' \<Longrightarrow> base_frame c' c'' \<Longrightarrow> base_frame c c''"
  unfolding base_frame_def by (meson frame_trans)

lemma frames_and_then [intro]: "frames f \<Longrightarrow> frames g \<Longrightarrow> frames (and_then f g)"
  unfolding frames_def and_then_def by (auto split: prod.splits if_splits) (metis base_frame_trans)

lemma frames_flush [intro]: "frames (CBB_flush d)"
  using CBB_flush_frame by (simp add: frames_def)

lemma frames_on_base [intro]:
  "(\<And>b ok b'. f b = (ok, b') \<Longrightarrow> frame b b') \<Longrightarrow> frames (on_base f)"
  by (auto simp: frames_def on_base_def base_frame_def split: option.splits prod.splits)

lemma cbb_buffer_reserve_frame: "cbb_buffer_reserve n b = (ok, b') \<Longrightarrow> frame b b'"
  using cbb_buffer_reserve_props by (auto simp: frame_def)

lemma cbb_buffer_add_u_frame: "cbb_buffer_add_u v n b = (ok, b') \<Longrightarrow> frame b b'"
  by (auto simp: cbb_buffer_add_u_def Let_def dest: cbb_buffer_add_frame split: prod.splits bool.splits if_splits)

lemmas buffer_frames = cbb_buffer_add_frame cbb_buffer_reserve_frame cbb_buffer_add_u_frame

lemma frames_add_u8 [intro]: "frames (CBB_add_u8 d v)"
  unfolding CBB_add_u8_def cbb_add_u_def by (blast intro: buffer_frames)

lemma frames_add_octets [intro]: "frames (add_octets d bs)"
proof (induction bs)
  case Nil
  then show ?case by (simp add: frames_def succeed_def base_frame_def)
next
  case (Cons b bs)
  then show ?case by auto
qed

lemma frames_open: "frames g \<Longrightarrow> frames (\<lambda>c. and_then g (\<lambda>c'. (True, open_child d (ch c) c')) c)"
  by (auto simp: frames_def and_then_def open_child_def base_frame_def split: prod.splits if_splits)

lemma frames_run_op: "frames (run_op op)"
proof (cases op)
  case (AddPrefixed d k)
  have "frames (on_base (cbb_buffer_add (replicate k 0)))"
    by (blast intro: buffer_frames)
  from frames_and_then [OF frames_flush [of d] frames_open [OF this]] show ?thesis
    by (simp add: AddPrefixed cbb_add_length_prefixed_def Let_def)
next
  case (AddAsn1 d tag)
  have "frames (if a then and_then (CBB_add_u8 d x) (add_base128_integer d y) else CBB_add_u8 d z)" for a x y z
    by (auto simp: add_base128_integer_def)
  from frames_and_then [OF frames_flush [of d] frames_and_then [OF this frames_open [OF frames_add_u8]]]
  show ?thesis
    by (simp add: AddAsn1 CBB_add_asn1_def Let_def)
next
  case (DidWrite d bs)
  then show ?thesis
    by (auto simp: frames_def CBB_did_write_def base_frame_def Let_def split: option.splits if_splits)
next
  case (Discard d)
  then show ?thesis
    by (auto simp: frames_def CBB_discard_child_def base_frame_def frame_def split: if_splits)
qed (auto simp: CBB_add_bytes_def CBB_add_space_def cbb_add_u_def CBB_reserve_def intro: buffer_frames)

text \<open>Once the buffer has hit an error, every operation but the two that do not flush fails.\<close>

lemma CBB_flush_error: "base c = Some b \<Longrightarrow> error b \<Longrightarrow> CBB_flush d c = (False, c)"
  by (cases c) (auto simp: CBB_flush_def flush_children_error)

lemma run_op_error:
  "base c = Some b \<Longrightarrow> error b \<Longrightarrow> (case op of Discard _ \<Rightarrow> False | DidWrite _ _ \<Rightarrow> False | _ \<Rightarrow> True) \<Longrightarrow>
   run_op op c = (False, c)"
  using CBB_flush_error [of c b] by (cases op) (auto simp: flush_first and_then_def)


section \<open>Properties\<close>

text \<open>C1: Writing any tree of octets, length-prefixed vectors and ASN.1 elements into a fresh growable
  \<open>CBB\<close> and finishing it succeeds and yields exactly the reference encoding, when no allocation
  fails and every content fits its prefix.\<close>

theorem CBB_build_finish:
  assumes "items_wf is" and "items_fit is" and "length (enc_all is) < 2 ^ 62"
    and "False \<notin> set h" and "n < 2 ^ 64"
  shows "case CBB_init n h of (ok, c) \<Rightarrow> ok \<and>
      (case build_all 0 is c of (ok1, c1) \<Rightarrow> ok1 \<and> fst (CBB_finish 0 True c1) = Some (enc_all is))"
proof -
  obtain ok c where c: "CBB_init n h = (ok, c)" by (cases "CBB_init n h")
  obtain ok1 c1 where c1: "build_all 0 is c = (ok1, c1)" by (cases "build_all 0 is c")
  obtain out c2 where c2: "CBB_finish 0 True c1 = (out, c2)" by (cases "CBB_finish 0 True c1")
  show ?thesis
    using emits_run(2) [OF emits_build(2) [OF assms(1)] c assms(5) _ c1 c2] assms c c1 c2 by simp
qed

theorem CBB_build_finish_witness:
  "case CBB_init 4 [True] of (ok, c) \<Rightarrow> ok \<and>
      (case build_all 0 [Prefixed 2 [Element 0x20000010 [Octets [1, 2], Prefixed 1 []]], Octets [7]] c of
         (ok1, c1) \<Rightarrow> ok1 \<and> fst (CBB_finish 0 True c1) = Some [0, 5, 0x30, 3, 1, 2, 0, 7])"
proof -
  let ?is = "[Prefixed 2 [Element 0x20000010 [Octets [1, 2], Prefixed 1 []]], Octets [7]]"
  have e: "enc_all ?is = [0, 5, 0x30, 3, 1, 2, 0, 7]"
    by code_simp
  have "items_wf ?is" "items_fit ?is"
    by (code_simp, code_simp)
  then show ?thesis
    using CBB_build_finish [of ?is "[True]" 4] unfolding e by simp
qed

text \<open>C12: Whatever allocations fail, and also over a fixed buffer: if every call succeeds and
  \<open>CBB_finish\<close> returns bytes, they are the reference encoding of what was written.\<close>

theorem CBB_build_sound:
  assumes "items_wf is" and "length (enc_all is) < 2 ^ 64" and "n < 2 ^ 64"
    and "CBB_init n h = (True, c) \<or> CBB_init_fixed n h = (True, c)"
    and "build_all 0 is c = (True, c1)" and "CBB_finish 0 w c1 = (Some out, c2)"
  shows "out = enc_all is"
proof -
  have c: "cbb_ok c" "contents 0 c = []"
    using assms(3,4) CBB_init_props(1,2) CBB_init_fixed_props(1,2) by blast+
  have "cbb_ok c1" "contents 0 c1 = enc_all is"
    using emits_build(2) [OF assms(1), unfolded emits_def, rule_format, OF c(1) _ assms(2,5)] c(2) by auto
  then show ?thesis
    using CBB_finish_props(1) assms(6) by auto
qed

theorem CBB_build_sound_witness:
  "case CBB_init_fixed 6 [] of (ok, c) \<Rightarrow>
     (case build_all 0 [Prefixed 1 [Octets [1, 2, 3, 4, 5]]] c of (ok1, c1) \<Rightarrow>
        ok1 \<and> fst (CBB_finish 0 False c1) = Some (enc_all [Prefixed 1 [Octets [1, 2, 3, 4, 5]]]))"
proof -
  let ?is = "[Prefixed 1 [Octets [1, 2, 3, 4, 5 :: byte]]]"
  obtain ok c where c: "CBB_init_fixed 6 [] = (ok, c)" by (cases "CBB_init_fixed 6 []")
  obtain ok1 c1 where c1: "build_all 0 ?is c = (ok1, c1)" by (cases "build_all 0 ?is c")
  obtain out c2 where c2: "CBB_finish 0 False c1 = (out, c2)" by (cases "CBB_finish 0 False c1")
  have run: "case CBB_init_fixed 6 [] of (ok, c) \<Rightarrow> ok \<and> (case build_all 0 ?is c of (ok1, c1) \<Rightarrow>
      ok1 \<and> fst (CBB_finish 0 False c1) \<noteq> None)"
    by code_simp
  then obtain data where "ok" "ok1" "out = Some data"
    using c c1 c2 by auto
  then show ?thesis
    using CBB_build_sound [of ?is 6 "[]" c c1 False data c2] c c1 c2 by simp
qed

text \<open>C13: However a \<open>CBB\<close> over a caller's buffer of \<open>n\<close> bytes is used, it never holds more than
  \<open>n\<close> bytes and never takes itself to have more room.\<close>

theorem CBB_fixed_bound:
  assumes "CBB_init_fixed n h = (True, c)" and "n < 2 ^ 64" and "cbb_reachable c c'" and "base c' = Some b"
  shows "length (buf b) \<le> n \<and> cap b = n"
proof -
  have "cbb_ok c' \<and> (\<exists>b. base c' = Some b \<and> cap b = n \<and> \<not> can_resize b)"
    using assms(3)
  proof induction
    case start
    then show ?case using CBB_init_fixed_props [OF assms(1,2)] by simp
  next
    case (op c1 op ok c2)
    then have "cbb_ok c2" "base_frame c1 c2"
      using run_op_cbb_ok frames_run_op [of op] unfolding frames_def by blast+
    with op.IH show ?case
      by (auto simp: base_frame_def frame_def)
  qed
  with assms(4) show ?thesis
    by (auto simp: cbb_ok_def buf_ok_def)
qed

theorem CBB_fixed_bound_witness:
  "\<exists>c b. CBB_init_fixed 2 [] = (True, c) \<and> base (snd (run_op (AddPrefixed 0 1) c)) = Some b \<and>
     length (buf b) \<le> 2 \<and> cap b = 2"
proof -
  let ?c = "snd (CBB_init_fixed 2 [])"
  let ?c' = "snd (run_op (AddPrefixed 0 1) ?c)"
  have i: "CBB_init_fixed 2 [] = (True, ?c)" and b: "base ?c' \<noteq> None"
    by (code_simp, code_simp)
  have "cbb_reachable ?c ?c'"
    by (rule cbb_reachable.op [OF cbb_reachable.start, of "AddPrefixed 0 1"]) (simp_all add: prod_eq_iff)
  then show ?thesis
    using CBB_fixed_bound [OF i] i b by fastforce
qed

text \<open>C27: After an error the writer stays in it: every operation but \<open>CBB_did_write\<close> and
  \<open>CBB_discard_child\<close> fails and changes nothing, and \<open>CBB_finish\<close> returns no bytes.\<close>

theorem CBB_error_sticky:
  assumes "base c = Some b" and "error b"
  shows "(case op of Discard _ \<Rightarrow> True | DidWrite _ _ \<Rightarrow> True | _ \<Rightarrow> run_op op c = (False, c)) \<and>
    CBB_finish d w c = (None, c)"
  using CBB_flush_error [OF assms] run_op_error [OF assms, of op]
  by (cases op) (simp_all add: CBB_finish_def)

theorem CBB_error_sticky_witness:
  "CBB_finish 0 True \<lparr>base = Some \<lparr>buf = [1], cap = 1, can_resize = False, error = True, reallocs = []\<rparr>, children = []\<rparr>
    = (None, \<lparr>base = Some \<lparr>buf = [1], cap = 1, can_resize = False, error = True, reallocs = []\<rparr>, children = []\<rparr>)"
  using CBB_error_sticky [of _ _ "Flush 0" 0 True] by fastforce

end
