(* ===== verification/Comparator.thy ===== *)
theory Comparator
  imports Prelude "HOL-Library.Multiset"
begin

text \<open>
  Comparison functions in the style of C: negative, zero or positive.  \<open>qsort\<close> of the C library is
  modelled as insertion sort; any other sort returns the same list up to elements that compare
  equal.  The locale states what the callers of \<open>qsort\<close> and of a binary search need of their
  comparison function.
\<close>

fun qsort_insert :: "('a \<Rightarrow> 'a \<Rightarrow> int) \<Rightarrow> 'a \<Rightarrow> 'a list \<Rightarrow> 'a list" where
  "qsort_insert cmp x [] = [x]"
| "qsort_insert cmp x (y # ys) = (if cmp x y \<le> 0 then x # y # ys else y # qsort_insert cmp x ys)"

definition qsort :: "('a \<Rightarrow> 'a \<Rightarrow> int) \<Rightarrow> 'a list \<Rightarrow> 'a list" where
  "qsort cmp xs = foldr (qsort_insert cmp) xs []"

definition ordered :: "('a \<Rightarrow> 'a \<Rightarrow> int) \<Rightarrow> 'a list \<Rightarrow> bool" where
  "ordered cmp xs \<longleftrightarrow> sorted_wrt (\<lambda>x y. cmp x y \<le> 0) xs"

lemma mset_qsort_insert: "mset (qsort_insert cmp x xs) = add_mset x (mset xs)"
  by (induction xs) auto

lemma mset_qsort [simp]: "mset (qsort cmp xs) = mset xs"
  by (induction xs) (simp_all add: qsort_def mset_qsort_insert)

lemma set_qsort [simp]: "set (qsort cmp xs) = set xs"
  by (metis mset_qsort set_mset_mset)

lemma length_qsort [simp]: "length (qsort cmp xs) = length xs"
  by (metis mset_qsort size_mset)

locale comparator =
  fixes cmp :: "'a \<Rightarrow> 'a \<Rightarrow> int"
  assumes antisym: "sgn (cmp y x) = - sgn (cmp x y)"
    and trans: "cmp x y \<le> 0 \<Longrightarrow> cmp y z \<le> 0 \<Longrightarrow> cmp x z \<le> 0"
begin

lemma total: "\<not> cmp x y \<le> 0 \<Longrightarrow> cmp y x \<le> 0"
  using antisym [of x y] by (auto simp: sgn_if split: if_splits)

lemma refl: "cmp x x = 0"
  using antisym [of x x] by (auto simp: sgn_if split: if_splits)

lemma zero_sym: "cmp x y = 0 \<longleftrightarrow> cmp y x = 0"
  using antisym [of x y] by (auto simp: sgn_if split: if_splits)

lemma ordered_insert: "ordered cmp xs \<Longrightarrow> ordered cmp (qsort_insert cmp x xs)"
proof (induction xs)
  case Nil
  then show ?case by (simp add: ordered_def)
next
  case (Cons y ys)
  have s: "set (qsort_insert cmp x ys) = insert x (set ys)"
    by (metis mset_qsort_insert set_mset_mset set_mset_add_mset_insert)
  from Cons show ?case
    using trans total [of x y] by (auto simp: ordered_def s)
qed

lemma ordered_qsort: "ordered cmp (qsort cmp xs)"
proof (induction xs)
  case Nil
  then show ?case by (simp add: qsort_def ordered_def)
next
  case (Cons x xs)
  then show ?case using ordered_insert by (simp add: qsort_def)
qed

end

text \<open>A comparison that tells all elements apart fixes the sorted list.\<close>

locale linear_comparator = comparator +
  assumes zero_eq: "cmp x y = 0 \<Longrightarrow> x = y"
begin

lemma ordered_unique:
  assumes "mset xs = mset ys" and "ordered cmp xs" and "ordered cmp ys"
  shows "xs = ys"
  using assms
proof (induction xs arbitrary: ys)
  case Nil
  then show ?case by simp
next
  case (Cons x xs)
  then obtain y ys' where ys: "ys = y # ys'"
    by (cases ys) auto
  have "y \<in> set (x # xs)" "x \<in> set ys"
    using Cons.prems(1) ys by (metis list.set_intros(1) set_mset_mset)+
  then have "cmp x y \<le> 0" "cmp y x \<le> 0"
    using Cons.prems(2,3) refl ys by (auto simp: ordered_def)
  then have "x = y"
    using antisym [of x y] zero_eq [of x y] by (auto simp: sgn_if split: if_splits)
  with Cons ys show ?case by (auto simp: ordered_def)
qed

end

end
