(* ===== verification/Asn1_Build.thy ===== *)
theory Asn1_Build
  imports CBB_Prog Comparator
begin

text \<open>
  The ASN.1 writers of \<open>crypto/bytestring/cbb.c\<close> (integers, octet strings, booleans, object
  identifiers from text, SET OF), the way back from an object identifier to text
  (\<open>CBS_asn1_oid_to_text\<close> of \<open>cbs.c\<close>) and \<open>CBB_finish_i2d\<close> of \<open>asn1_compat.c\<close>.
\<close>

section \<open>Integers, strings and booleans\<close>

text \<open>The loop over the eight octets of the value, from the top one, with its flag \<open>started\<close>.\<close>

fun uint64_loop :: "nat \<Rightarrow> bool \<Rightarrow> byte list \<Rightarrow> cbb step" where
  "uint64_loop child started [] = (if \<not> started then CBB_add_u8 child 0 else succeed)"
| "uint64_loop child started (byte # bytes) =
     (if \<not> started \<and> byte = 0 then uint64_loop child started bytes
      else and_then (if \<not> started \<and> byte AND 0x80 \<noteq> 0 then CBB_add_u8 child 0 else succeed)
          (and_then (CBB_add_u8 child byte) (uint64_loop child True bytes)))"

definition uint64_byte :: "u64 \<Rightarrow> nat \<Rightarrow> byte" where
  "uint64_byte value i = ucast (drop_bit (8 * (7 - i)) value) AND 0xff"

definition CBB_add_asn1_uint64 :: "nat \<Rightarrow> u64 \<Rightarrow> cbb step" where
  "CBB_add_asn1_uint64 d value =
     and_then (CBB_add_asn1 d CBS_ASN1_INTEGER)
    (and_then (uint64_loop (Suc d) False (map (uint64_byte value) [0..<8]))
              (CBB_flush d))"

text \<open>
  \<open>u.bytes\<close> on a little-endian machine, and the loop that skips leading sign-extension octets:
  it returns the index of the highest octet to write.
\<close>

definition int64_bytes :: "int \<Rightarrow> byte list" where
  "int64_bytes value = rev (be_bytes 8 (unat (word_of_int value :: u64)))"

fun int64_start :: "byte list \<Rightarrow> nat \<Rightarrow> nat" where
  "int64_start bytes 0 = 0"
| "int64_start bytes (Suc s) =
     (if bytes ! Suc s = 0xff \<and> bytes ! s AND 0x80 \<noteq> 0 then int64_start bytes s else Suc s)"

definition CBB_add_asn1_int64 :: "nat \<Rightarrow> int \<Rightarrow> cbb step" where
  "CBB_add_asn1_int64 d value =
     (if value \<ge> 0 then CBB_add_asn1_uint64 d (word_of_int value)
      else let bytes = int64_bytes value; start = int64_start bytes 7
           in and_then (CBB_add_asn1 d CBS_ASN1_INTEGER)
             (and_then (add_octets (Suc d) (map ((!) bytes) (rev [0..<Suc start])))
                       (CBB_flush d)))"

definition CBB_add_asn1_octet_string :: "nat \<Rightarrow> byte list \<Rightarrow> cbb step" where
  "CBB_add_asn1_octet_string d data =
     and_then (CBB_add_asn1 d CBS_ASN1_OCTETSTRING)
    (and_then (CBB_add_bytes (Suc d) data) (CBB_flush d))"

definition CBB_add_asn1_bool :: "nat \<Rightarrow> int \<Rightarrow> cbb step" where
  "CBB_add_asn1_bool d value =
     and_then (CBB_add_asn1 d CBS_ASN1_BOOLEAN)
    (and_then (CBB_add_u8 (Suc d) (if value \<noteq> 0 then 0xff else 0)) (CBB_flush d))"

section \<open>Object identifiers\<close>

abbreviation char_0 :: byte where "char_0 \<equiv> 48"
abbreviation char_9 :: byte where "char_9 \<equiv> 57"
abbreviation char_dot :: byte where "char_dot \<equiv> 46"
abbreviation UINT64_MAX :: u64 where "UINT64_MAX \<equiv> 0xffffffffffffffff"

fun dotted_loop :: "u64 \<Rightarrow> bool \<Rightarrow> u64 reader" where
  "dotted_loop out seen_digit [] = (if seen_digit then Some out else None, [])"
| "dotted_loop out seen_digit (u # cbs) =
     (if u = char_dot \<and> CBS_len cbs > 0 then (if seen_digit then Some out else None, cbs)
      else if u < char_0 \<or> u > char_9 \<or> (seen_digit \<and> out = 0) \<or> out > UINT64_MAX div 10
              \<or> out * 10 > UINT64_MAX - ucast (u - char_0)
           then (None, cbs)
           else dotted_loop (out * 10 + ucast (u - char_0)) True cbs)"

definition parse_dotted_decimal :: "u64 reader" where
  "parse_dotted_decimal cbs = dotted_loop 0 False cbs"

lemma dotted_loop_length:
  "dotted_loop out seen cbs = (r, rest) \<Longrightarrow> length rest \<le> length cbs - (if cbs = [] then 0 else 1)"
  by (induction out seen cbs rule: dotted_loop.induct) (fastforce split: if_splits)+

lemma dotted_loop_shorter: "(r, rest) = dotted_loop out seen cbs \<Longrightarrow> cbs \<noteq> [] \<Longrightarrow> length rest < length cbs"
  using dotted_loop_length [of out seen cbs r rest] by (cases cbs) auto

function oid_components :: "nat \<Rightarrow> cbs \<Rightarrow> cbb step" where
  "oid_components d cbs =
     (if CBS_len cbs = 0 then succeed
      else case parse_dotted_decimal cbs of
             (None, _) \<Rightarrow> fail
           | (Some a, cbs') \<Rightarrow> and_then (add_base128_integer d a) (oid_components d cbs'))"
  by pat_completeness auto
termination
  by (relation "measure (\<lambda>(d, cbs). length cbs)")
    (auto simp: parse_dotted_decimal_def CBS_len_def intro: dotted_loop_shorter)

declare oid_components.simps [simp del]

definition CBB_add_asn1_oid_from_text :: "nat \<Rightarrow> byte list \<Rightarrow> cbb step" where
  "CBB_add_asn1_oid_from_text d text =
     and_then (CBB_flush d)
       (case parse_dotted_decimal (CBS_init text) of
          (None, _) \<Rightarrow> fail
        | (Some a, cbs) \<Rightarrow>
       (case parse_dotted_decimal cbs of
          (None, _) \<Rightarrow> fail
        | (Some b, cbs) \<Rightarrow>
            if a > 2 \<or> (a < 2 \<and> b > 39) \<or> b > UINT64_MAX - 80 then fail
            else and_then (add_base128_integer d (40 * a + b)) (oid_components d cbs)))"

text \<open>\<open>BIO_snprintf(buf, sizeof(buf), "%" PRIu64, v)\<close>.\<close>

fun decimal :: "nat \<Rightarrow> byte list" where
  "decimal n = (if n < 10 then [of_nat (48 + n)] else decimal (n div 10) @ [of_nat (48 + n mod 10)])"

declare decimal.simps [simp del]

definition add_decimal :: "u64 \<Rightarrow> cbb step" where
  "add_decimal v = CBB_add_bytes 0 (decimal (unat v))"

lemma parse_base128_length:
  "parse_base128_integer cbs = (Some v, rest) \<Longrightarrow> length rest < length cbs"
  using base128.get_shortens [of cbs v rest] base128.put_nonempty [of v]
  by (cases "base128_octets v") auto

function oid_text_components :: "cbs \<Rightarrow> cbb step" where
  "oid_text_components copy =
     (if CBS_len copy = 0 then succeed
      else case parse_base128_integer copy of
             (None, _) \<Rightarrow> fail
           | (Some v, copy') \<Rightarrow>
               and_then (CBB_add_u8 0 char_dot) (and_then (add_decimal v) (oid_text_components copy')))"
  by pat_completeness auto
termination
  by (relation "measure length") (auto dest: parse_base128_length sym)

declare oid_text_components.simps [simp del]

definition oid_text :: "cbs \<Rightarrow> cbb step" where
  "oid_text cbs =
     (case parse_base128_integer cbs of
        (None, _) \<Rightarrow> fail
      | (Some v, copy) \<Rightarrow>
          and_then
            (if v \<ge> 80 then and_then (CBB_add_bytes 0 [50, 46]) (add_decimal (v - 80))
             else and_then (add_decimal (v div 40)) (and_then (CBB_add_u8 0 char_dot) (add_decimal (v mod 40))))
            (and_then (oid_text_components copy) (CBB_add_u8 0 0)))"

definition CBS_asn1_oid_to_text :: "cbs \<Rightarrow> heap \<Rightarrow> byte list option" where
  "CBS_asn1_oid_to_text cbs h =
     (case CBB_init 32 h of
        (False, _) \<Rightarrow> None
      | (True, cbb) \<Rightarrow>
          (case oid_text cbs cbb of
             (False, _) \<Rightarrow> None
           | (True, cbb) \<Rightarrow> fst (CBB_finish 0 True cbb)))"

section \<open>SET OF\<close>

definition compare_set_of_element :: "cbs \<Rightarrow> cbs \<Rightarrow> int" where
  "compare_set_of_element a b =
     (let a_len = CBS_len a; b_len = CBS_len b;
          min_len = (if a_len < b_len then a_len else b_len);
          ret = memcmp (take min_len (CBS_data a)) (take min_len (CBS_data b))
      in if ret \<noteq> 0 then ret
         else if a_len = b_len then 0
         else if a_len < b_len then - 1 else 1)"

text \<open>The first loop counts the elements, the second one keeps them; both are this one.\<close>

fun set_of_children :: "nat \<Rightarrow> cbs \<Rightarrow> cbs list option" where
  "set_of_children fuel [] = Some []"
| "set_of_children 0 (b # bs) = None"
| "set_of_children (Suc fuel) (b # bs) =
     (case CBS_get_any_asn1_element (b # bs) of
        (None, _) \<Rightarrow> None
      | (Some (child, _, _), rest) \<Rightarrow> map_option ((#) child) (set_of_children fuel rest))"

fun add_all :: "nat \<Rightarrow> cbs list \<Rightarrow> cbb step" where
  "add_all d [] = succeed"
| "add_all d (child # cs) = and_then (CBB_add_bytes d (CBS_data child)) (add_all d cs)"

definition rewind :: "nat \<Rightarrow> cbb \<Rightarrow> cbb" where
  "rewind d cbb = cbb\<lparr>base := map_option (buf_update (take (self_offset d cbb))) (base cbb)\<rparr>"

definition alloc_two :: "cbb step" where
  \<comment> \<open>the copy of the contents and the array of children\<close>
  "alloc_two = on_base (\<lambda>b. let (ok1, h) = heap_alloc (reallocs b); (ok2, h) = heap_alloc h
                           in (ok1 \<and> ok2, b\<lparr>reallocs := h\<rparr>))"

definition CBB_flush_asn1_set_of :: "nat \<Rightarrow> cbb step" where
  "CBB_flush_asn1_set_of d =
     and_then (CBB_flush d)
       (\<lambda>cbb. let cbs = CBB_data d cbb
              in case set_of_children (length cbs) cbs of
                   None \<Rightarrow> (False, cbb)
                 | Some elems \<Rightarrow>
                     if length elems < 2 then (True, cbb)
                     else if length elems > size_max div 16 then (False, cbb)
                     else and_then alloc_two
                            (\<lambda>cbb. add_all d (qsort compare_set_of_element elems) (rewind d cbb)) cbb)"

section \<open>i2d output\<close>

text \<open>
  \<open>outp\<close> is NULL, points to NULL (the function allocates), or points to a buffer.  The result is
  the return value and, in the last two cases, the bytes the caller gets.
\<close>

datatype i2d_out = No_out | Alloc_out | Into_out

definition CBB_finish_i2d :: "i2d_out \<Rightarrow> cbb \<Rightarrow> int \<times> byte list option" where
  "CBB_finish_i2d outp cbb =
     (case CBB_finish 0 True cbb of
        (None, _) \<Rightarrow> (- 1, None)
      | (Some out, _) \<Rightarrow>
          if length out > INT_MAX then (- 1, None)
          else (int (length out), if outp = No_out then None else Some out))"

end
