(* ===== verification/Asn1_Build_Spec.thy ===== *)
theory Asn1_Build_Spec
  imports Asn1_Build
begin

text \<open>
  What the ASN.1 writers emit: the integer writers write \<open>int_octets\<close>, the minimal two's
  complement form their readers take; the object-identifier functions are a bijection between
  dotted decimals and the base-128 content octets; \<open>CBB_flush_asn1_set_of\<close> sorts.
\<close>

section \<open>Integers, strings and booleans\<close>

fun uint64_octets :: "bool \<Rightarrow> byte list \<Rightarrow> byte list" where
  "uint64_octets started [] = (if started then [] else [0])"
| "uint64_octets started (b # bs) =
     (if \<not> started \<and> b = 0 then uint64_octets started bs
      else (if \<not> started \<and> b AND 0x80 \<noteq> 0 then [0] else []) @ b # uint64_octets True bs)"

lemma emits_cong: "emits d f xs p \<Longrightarrow> xs = ys \<Longrightarrow> emits d f ys p"
  by simp

lemma emits_uint64_loop: "emits d (uint64_loop d started bs) (uint64_octets started bs) True"
proof (induction d started bs rule: uint64_loop.induct)
  case (1 d started)
  then show ?case by (simp add: emits_add_u8 emits_succeed)
next
  case (2 d started b bs)
  show ?case
  proof (cases "\<not> started \<and> b = 0")
    case True
    then show ?thesis using 2(1) by simp
  next
    case False
    let ?pad = "\<not> started \<and> b AND 0x80 \<noteq> 0"
    have p: "emits d (if ?pad then CBB_add_u8 d 0 else succeed) (if ?pad then [0] else []) True"
      by (simp add: emits_add_u8 emits_succeed)
    have "emits d (and_then (if ?pad then CBB_add_u8 d 0 else succeed)
        (and_then (CBB_add_u8 d b) (uint64_loop d True bs)))
      ((if ?pad then [0] else []) @ [b] @ uint64_octets True bs) (True \<and> True \<and> True)"
      by (intro emits_and_then p emits_add_u8 2(2) False)
    then show ?thesis
      using False by (simp only: uint64_loop.simps uint64_octets.simps if_False append_Cons append_Nil simp_thms)
  qed
qed

lemma uint64_octets_True: "uint64_octets True bs = bs"
  by (induction bs) auto

lemma uint64_octets_minimal:
  "minimal_int (uint64_octets False bs) \<and> int_val (uint64_octets False bs) = int (be_val bs)"
proof (induction bs)
  case Nil
  have "int_val [0] = 0" by (simp add: int_val_def)
  then show ?case by simp
next
  case (Cons b bs)
  show ?case
  proof (cases "b = 0")
    case True
    then show ?thesis using Cons by simp
  next
    case False
    show ?thesis
    proof (cases "b AND 0x80 = 0")
      case True
      have "minimal_int (b # bs)"
        using False True by (cases bs) auto
      moreover have "\<not> 0x80 \<le> b"
        using True by (simp add: byte_ge_80)
      ultimately show ?thesis
        using False True by (simp add: uint64_octets_True int_val_def)
    next
      case high: False
      then show ?thesis
        using False by (simp add: uint64_octets_True int_val_def)
    qed
  qed
qed

lemma uint64_bytes_eq: "map (uint64_byte v) [0..<8] = be_bytes 8 (unat v)"
proof -
  have b: "uint64_byte v i = of_nat (unat v div 256 ^ (7 - i))" for i
  proof -
    have "(ucast w :: byte) AND 0xff = of_nat (unat w)" for w :: u64
    proof -
      have "(0xff :: byte) = - 1" by simp
      then have "(ucast w :: byte) AND 0xff = ucast w" by (simp only: and.right_neutral)
      then show ?thesis
        by (simp add: word_unat_eq_iff unat_of_nat_byte unsigned_ucast_eq take_bit_eq_mod)
    qed
    moreover have "(2 :: nat) ^ (8 * (7 - i)) = 256 ^ (7 - i)" by (simp add: power_mult)
    ultimately show ?thesis by (simp only: uint64_byte_def unat_drop_bit_div)
  qed
  then show ?thesis
    using be_bytes_map [of 8 "unat v"] by simp
qed

lemma uint64_octets_eq: "uint64_octets False (map (uint64_byte v) [0..<8]) = int_octets (uint v)"
proof -
  have "be_val (be_bytes 8 (unat v)) = unat v"
    using u64_bound [of v] by (simp add: be_val_be_bytes)
  then have "int_val (uint64_octets False (map (uint64_byte v) [0..<8])) = uint v"
    using uint64_octets_minimal by (simp add: uint64_bytes_eq)
  then show ?thesis
    using uint64_octets_minimal int_octets_int_val by metis
qed

text \<open>An ASN.1 element written in one go: open, fill, flush.\<close>

lemma emits_element:
  assumes "emits (Suc d) g xs p"
  shows "emits d (and_then (CBB_add_asn1 d tag) (and_then g (CBB_flush d))) (der tag xs) (p \<and> length xs \<le> 0xfffffffe)"
proof -
  have "emits d (and_then (and_then (CBB_add_asn1 d tag) g) (CBB_flush d)) (der tag xs @ [])
    ((p \<and> length xs \<le> 0xfffffffe) \<and> True)"
    by (intro emits_and_then emits_asn1 emits_flush assms)
  then show ?thesis by (simp add: and_then_assoc)
qed

lemma emits_asn1_uint64 [emits_rules]:
  "emits d (CBB_add_asn1_uint64 d v) (der CBS_ASN1_INTEGER (int_octets (uint v))) True"
  unfolding CBB_add_asn1_uint64_def
  using int_octets_u64_length [of v]
  by (intro emits_mono [OF emits_element [OF emits_uint64_loop [of "Suc d" False "map (uint64_byte v) [0..<8]"],
        of CBS_ASN1_INTEGER, unfolded uint64_octets_eq]]) simp

lemma int_val_ff: "bs \<noteq> [] \<Longrightarrow> hd bs AND 0x80 \<noteq> 0 \<Longrightarrow> int_val (0xff # bs) = int_val bs"
proof -
  assume bs: "bs \<noteq> []" "hd bs AND 0x80 \<noteq> 0"
  have "unat (0xff :: byte) = 255" "(0x80 :: byte) \<le> 0xff"
    by (simp, simp add: word_le_nat_alt)
  then show ?thesis
    using bs by (simp add: int_val_def byte_ge_80 del: unsigned_numeral)
qed

lemma int64_start_props:
  assumes "s < length bytes" and "bytes ! s AND 0x80 \<noteq> 0"
  shows "int64_start bytes s \<le> s \<and>
    int_val (rev (take (Suc (int64_start bytes s)) bytes)) = int_val (rev (take (Suc s) bytes)) \<and>
    minimal_int (rev (take (Suc (int64_start bytes s)) bytes))"
  using assms
proof (induction s)
  case 0
  then show ?case by (cases bytes) auto
next
  case (Suc s)
  have t: "rev (take (Suc (Suc s)) bytes) = bytes ! Suc s # rev (take (Suc s) bytes)"
    "rev (take (Suc s) bytes) = bytes ! s # rev (take s bytes)"
    using Suc.prems(1) by (simp_all add: take_Suc_conv_app_nth)
  show ?case
  proof (cases "bytes ! Suc s = 0xff \<and> bytes ! s AND 0x80 \<noteq> 0")
    case True
    then have "int_val (rev (take (Suc (Suc s)) bytes)) = int_val (rev (take (Suc s) bytes))"
      unfolding t(1) using int_val_ff [of "rev (take (Suc s) bytes)"] by (simp add: t(2))
    with Suc True show ?thesis by simp
  next
    case False
    moreover have "bytes ! Suc s \<noteq> 0" using Suc.prems(2) by auto
    ultimately show ?thesis by (auto simp: t)
  qed
qed

lemma int64_octets_eq:
  assumes "- (2 ^ 63) \<le> v" and "v < 0"
  shows "map ((!) (int64_bytes v)) (rev [0..<Suc (int64_start (int64_bytes v) 7)]) = int_octets v"
proof -
  let ?b = "int64_bytes v"
  let ?s = "int64_start ?b 7"
  define n where "n = nat (v + 2 ^ 64)"
  have n: "int n = v + 2 ^ 64" "2 ^ 63 \<le> n" "n < 2 ^ 64"
    using assms by (simp_all add: n_def)
  have "unat (word_of_int v :: u64) = n"
  proof -
    have "v mod 2 ^ 64 = int n"
      using n assms by (intro int_mod_pos_eq [of _ _ "- 1"]) auto
    then show ?thesis by (simp add: unat_eq_nat_uint uint_word_of_int)
  qed
  then have b: "?b = rev (be_bytes 8 n)" by (simp add: int64_bytes_def)
  have len: "length ?b = 8" by (simp add: b)
  have val: "be_val (rev ?b) = n" using n by (simp add: b be_val_be_bytes)
  have top: "?b ! 7 AND 0x80 \<noteq> 0"
  proof -
    have r: "rev ?b = ?b ! 7 # rev (take 7 ?b)"
      using len by (simp add: take_Suc_conv_app_nth [of 7 ?b, symmetric, simplified] flip: rev.simps(2))
    have "be_val (rev (take 7 ?b)) < 256 ^ 7"
      using be_val_bound [of "rev (take 7 ?b)"] len by simp
    moreover have "n = unat (?b ! 7) * 256 ^ 7 + be_val (rev (take 7 ?b))"
      using val len by (simp add: r)
    ultimately have "128 \<le> unat (?b ! 7)"
      using n(2) by simp
    then show ?thesis by (simp add: byte_high_bit)
  qed
  note sp = int64_start_props [of 7 ?b, OF _ top, unfolded len, simplified]
  have "int_val (rev ?b) = v"
  proof -
    have "hd (rev ?b) = ?b ! 7" using len by (cases ?b rule: rev_cases) (auto simp: nth_append)
    moreover have "rev ?b \<noteq> []" using len by auto
    ultimately show ?thesis
      using top val len n(1) by (simp add: int_val_def byte_ge_80)
  qed
  then have "int_octets v = rev (take (Suc ?s) ?b)"
    using sp int_octets_int_val [of "rev (take (Suc ?s) ?b)"] len by simp
  moreover have "map ((!) ?b) (rev [0..<Suc ?s]) = rev (take (Suc ?s) ?b)"
    using sp len by (intro nth_equalityI) (auto simp: rev_nth simp del: upt_Suc)
  ultimately show ?thesis by simp
qed


lemma emits_asn1_int64 [emits_rules]:
  assumes "- (2 ^ 63) \<le> v" and "v < 2 ^ 63"
  shows "emits d (CBB_add_asn1_int64 d v) (der CBS_ASN1_INTEGER (int_octets v)) True"
proof (cases "0 \<le> v")
  case True
  then have "uint (word_of_int v :: u64) = v"
    using assms by (simp add: uint_word_of_int)
  then show ?thesis
    using True emits_asn1_uint64 [of d "word_of_int v"] by (simp add: CBB_add_asn1_int64_def)
next
  case False
  have "length (int_octets v) \<le> 8"
    using assms by (simp add: int_octets_length_le_8)
  then show ?thesis
    using False assms emits_element [OF emits_add_octets [of "Suc d" "int_octets v"], of CBS_ASN1_INTEGER]
    by (auto simp: CBB_add_asn1_int64_def Let_def int64_octets_eq simp del: upt_Suc intro: emits_mono)
qed

lemma emits_asn1_octet_string [emits_rules]:
  "emits d (CBB_add_asn1_octet_string d bs) (der CBS_ASN1_OCTETSTRING bs) (length bs \<le> 0xfffffffe)"
  unfolding CBB_add_asn1_octet_string_def using emits_element [OF emits_add_bytes] by simp

lemma emits_asn1_bool [emits_rules]:
  "emits d (CBB_add_asn1_bool d v) (der CBS_ASN1_BOOLEAN [if v = 0 then 0 else 0xff]) True"
  unfolding CBB_add_asn1_bool_def
  using emits_element [OF emits_add_u8 [of "Suc d" "if v = 0 then 0 else 0xff"]]
  by (auto intro: emits_mono)

section \<open>Dotted decimals\<close>

fun dotted :: "nat list \<Rightarrow> byte list" where
  "dotted [] = []"
| "dotted [n] = decimal n"
| "dotted (n # m # ns) = decimal n @ char_dot # dotted (m # ns)"

lemma decimal_nonempty [simp]: "decimal n \<noteq> []"
  by (subst decimal.simps) simp

lemma dotted_empty [simp]: "dotted ns = [] \<longleftrightarrow> ns = []"
  by (cases ns rule: dotted.cases) auto

lemma decimal_snoc: "0 < m \<Longrightarrow> k < 10 \<Longrightarrow> decimal (10 * m + k) = decimal m @ [of_nat (48 + k)]"
  by (subst decimal.simps) simp

lemma digit_word: "k < 10 \<Longrightarrow> unat (of_nat (48 + k) :: byte) = 48 + k"
  by (subst unat_of_nat_byte) simp

lemma byte_order_nat:
  fixes u :: byte
  shows "u < char_0 \<longleftrightarrow> unat u < 48" "u > char_9 \<longleftrightarrow> 57 < unat u" "u = char_dot \<longleftrightarrow> unat u = 46"
  by (auto simp: word_less_nat_alt word_unat_eq_iff)

lemma digit_value: "48 \<le> unat u \<Longrightarrow> unat (u - char_0 :: byte) = unat u - 48"
  by (subst unat_sub) (auto simp: word_le_nat_alt)

lemma UINT64_MAX_nat: "unat UINT64_MAX = 18446744073709551615"
  by simp

lemma dotted_loop_step:
  assumes "m < 2 ^ 64" and "48 \<le> unat u" and "unat u \<le> 57" and "\<not> (seen \<and> m = 0)"
  shows "dotted_loop (of_nat m) seen (u # cbs) =
    (if 10 * m + (unat u - 48) < 2 ^ 64 then dotted_loop (of_nat (10 * m + (unat u - 48))) True cbs else (None, cbs))"
proof -
  define k where "k = unat u - 48"
  have k: "k < 10" using assms(2,3) by (simp add: k_def)
  have um: "unat (of_nat m :: u64) = m" using assms(1) by (simp add: unat_of_nat)
  have uk: "unat (ucast (u - char_0) :: u64) = k"
    using assms(2) by (simp add: digit_value k_def)
  have c1: "of_nat m > UINT64_MAX div 10 \<longleftrightarrow> m > 1844674407370955161"
    by (simp add: word_less_nat_alt um)
  have c2: "of_nat m * 10 > UINT64_MAX - ucast (u - char_0) \<longleftrightarrow> 10 * m > 18446744073709551615 - k"
    if "m \<le> 1844674407370955161"
  proof -
    have "unat (of_nat m * 10 :: u64) = 10 * m"
      using that by (simp add: unat_word_ariths um)
    moreover have "unat (UINT64_MAX - ucast (u - char_0)) = 18446744073709551615 - k"
      by (subst unat_sub) (use k uk in \<open>auto simp: word_le_nat_alt\<close>)
    ultimately show ?thesis by (simp add: word_less_nat_alt)
  qed
  have z: "of_nat m = (0 :: u64) \<longleftrightarrow> m = 0"
    by (simp only: word_unat_eq_iff um unsigned_0)
  have e: "of_nat m * 10 + ucast (u - char_0) = (of_nat (10 * m + k) :: u64)"
  proof -
    have "unat (of_nat k :: u64) = k" using k by (simp add: unat_of_nat)
    then have "(ucast (u - char_0) :: u64) = of_nat k"
      using uk by (simp only: word_unat_eq_iff)
    then show ?thesis by (simp only: of_nat_add of_nat_mult of_nat_numeral mult.commute)
  qed
  have "\<not> u < char_0" "\<not> u > char_9" "u \<noteq> char_dot"
    using assms(2,3) by (auto simp: byte_order_nat)
  then have "dotted_loop (of_nat m) seen (u # cbs) =
     (if of_nat m > UINT64_MAX div 10 \<or> of_nat m * 10 > UINT64_MAX - ucast (u - char_0) then (None, cbs)
      else dotted_loop (of_nat (10 * m + k)) True cbs)"
    using assms(4) z e by (simp only: dotted_loop.simps) auto
  also have "(of_nat m > UINT64_MAX div 10 \<or> of_nat m * 10 > UINT64_MAX - ucast (u - char_0)) \<longleftrightarrow> \<not> 10 * m + k < 2 ^ 64"
  proof (cases "m \<le> 1844674407370955161")
    case True
    then show ?thesis using c1 c2 [OF True] k by auto
  next
    case False
    then show ?thesis using c1 by auto
  qed
  finally show ?thesis by (simp add: k_def)
qed

declare dotted_loop.simps(2) [simp del]

lemma dotted_loop_decimal:
  "n < 2 ^ 64 \<Longrightarrow> dotted_loop 0 False (decimal n @ rest) = dotted_loop (of_nat n) True rest"
proof (induction n arbitrary: rest rule: decimal.induct)
  case (1 n)
  show ?case
  proof (cases "n < 10")
    case True
    then show ?thesis
      using dotted_loop_step [of 0 "of_nat (48 + n)" False rest] digit_word [of n]
      by (subst decimal.simps) (simp del: of_nat_add)
  next
    case False
    then have "dotted_loop 0 False (decimal (n div 10) @ of_nat (48 + n mod 10) # rest)
      = dotted_loop (of_nat (n div 10)) True (of_nat (48 + n mod 10) # rest)"
      using 1 by (intro "1.IH") auto
    also have "\<dots> = dotted_loop (of_nat n) True rest"
      using "1.prems" False dotted_loop_step [of "n div 10" "of_nat (48 + n mod 10)" True rest] digit_word [of "n mod 10"]
      by (simp del: of_nat_add)
    finally show ?thesis
      using False by (subst decimal.simps) simp
  qed
qed

lemma dotted_loop_out:
  "seen \<Longrightarrow> dotted_loop out seen (char_dot # cbs) = (if cbs \<noteq> [] then (Some out, cbs) else (None, cbs))"
  by (auto simp: dotted_loop.simps CBS_len_def)

lemma parse_dotted_decimal_eq:
  assumes "n < 2 ^ 64"
  shows "parse_dotted_decimal (decimal n) = (Some (of_nat n), [])"
    and "rest \<noteq> [] \<Longrightarrow> parse_dotted_decimal (decimal n @ char_dot # rest) = (Some (of_nat n), rest)"
  using dotted_loop_decimal [OF assms, of "[]"] dotted_loop_decimal [OF assms, of "char_dot # rest"]
  by (auto simp: parse_dotted_decimal_def dotted_loop_out)

lemma dotted_loop_digit:
  assumes "dotted_loop (of_nat m) seen (u # cbs) = (Some v, rest)" and "m < 2 ^ 64" "\<not> (u = char_dot \<and> cbs \<noteq> [])"
  shows "48 \<le> unat u \<and> unat u \<le> 57 \<and> \<not> (seen \<and> m = 0) \<and> 10 * m + (unat u - 48) < 2 ^ 64 \<and>
    dotted_loop (of_nat (10 * m + (unat u - 48))) True cbs = (Some v, rest)"
proof -
  have um: "unat (of_nat m :: u64) = m" using assms(2) by (simp add: unat_of_nat)
  have "of_nat m = (0 :: u64) \<longleftrightarrow> m = 0"
    by (simp only: word_unat_eq_iff um unsigned_0)
  with assms(1,3) have d: "\<not> u < char_0" "\<not> u > char_9" "\<not> (seen \<and> m = 0)"
    by (auto simp: dotted_loop.simps CBS_len_def split: if_splits)
  then have n: "48 \<le> unat u" "unat u \<le> 57" by (simp_all add: byte_order_nat)
  show ?thesis
    using assms(1) dotted_loop_step [OF assms(2) n d(3), of cbs] n d(3) by (auto split: if_splits)
qed

lemma dotted_loop_canonical:
  assumes "dotted_loop (of_nat m) True cbs = (Some v, rest)" and "m < 2 ^ 64"
  shows "\<exists>ds. decimal m @ ds = decimal (unat v) \<and> (cbs = ds \<and> rest = [] \<or> cbs = ds @ char_dot # rest \<and> rest \<noteq> [])"
  using assms
proof (induction cbs arbitrary: m)
  case Nil
  then have "unat v = m" by (auto simp: unat_of_nat)
  with Nil show ?case by auto
next
  case (Cons u cbs)
  show ?case
  proof (cases "u = char_dot \<and> cbs \<noteq> []")
    case True
    then have "unat v = m" "rest = cbs"
      using Cons.prems by (auto simp: dotted_loop_out unat_of_nat)
    with True show ?thesis by auto
  next
    case False
    let ?k = "unat u - 48"
    note dl = dotted_loop_digit [OF Cons.prems False]
    have d: "48 \<le> unat u" "unat u \<le> 57" "m \<noteq> 0"
      using dl by simp_all
    have d4: "10 * m + ?k < 2 ^ 64"
      using dl by (elim conjE)
    have "dotted_loop (of_nat (10 * m + ?k)) True cbs = (Some v, rest)"
      using dl by (elim conjE)
    then obtain ds where ds: "decimal (10 * m + ?k) @ ds = decimal (unat v)"
      "cbs = ds \<and> rest = [] \<or> cbs = ds @ char_dot # rest \<and> rest \<noteq> []"
      using Cons.IH d4 by blast
    have k: "?k < 10" "48 + ?k = unat u" using d(1,2) by auto
    have "decimal (10 * m + ?k) = decimal m @ [of_nat (48 + ?k)]"
      using d(3) k(1) by (intro decimal_snoc) auto
    moreover have "of_nat (48 + ?k) = u"
      by (simp only: k(2) of_nat_unat ucast_id)
    ultimately have "decimal m @ (u # ds) = decimal (unat v)"
      using ds(1) by simp
    with ds(2) show ?thesis by (intro exI [of _ "u # ds"]) auto
  qed
qed

lemma parse_dotted_decimal_canonical:
  assumes "parse_dotted_decimal cbs = (Some v, rest)"
  shows "cbs = decimal (unat v) \<and> rest = [] \<or> cbs = decimal (unat v) @ char_dot # rest \<and> rest \<noteq> []"
proof (cases cbs)
  case Nil
  then show ?thesis using assms by (simp add: parse_dotted_decimal_def)
next
  case (Cons u r)
  have nd: "\<not> (u = char_dot \<and> r \<noteq> [])"
  proof
    assume "u = char_dot \<and> r \<noteq> []"
    then have "parse_dotted_decimal cbs = (None, r)"
      by (simp add: Cons parse_dotted_decimal_def dotted_loop.simps CBS_len_def)
    then show False using assms by simp
  qed
  let ?k = "unat u - 48"
  have d: "48 \<le> unat u" "unat u \<le> 57" "dotted_loop (of_nat ?k) True r = (Some v, rest)"
    using dotted_loop_digit [of 0 False u r v rest] assms Cons nd by (auto simp: parse_dotted_decimal_def)
  have lt: "?k < 2 ^ 64" using d(2) by simp
  obtain ds where ds: "decimal ?k @ ds = decimal (unat v)"
    "r = ds \<and> rest = [] \<or> r = ds @ char_dot # rest \<and> rest \<noteq> []"
    using dotted_loop_canonical [OF d(3) lt] by blast
  have k: "?k < 10" "48 + ?k = unat u" using d(1,2) by auto
  have "(of_nat (48 + ?k) :: byte) = u"
    by (simp only: k(2) of_nat_unat ucast_id)
  then have "decimal ?k = [u]"
    using k(1) by (subst decimal.simps) simp
  with ds Cons show ?thesis by auto
qed

lemma parse_dotted_Cons:
  assumes "n < 2 ^ 64"
  shows "parse_dotted_decimal (dotted (n # ns)) = (Some (of_nat n), dotted ns)"
  using parse_dotted_decimal_eq [OF assms] by (cases ns) auto

lemma parse_dotted_Some:
  assumes "parse_dotted_decimal cbs = (Some v, rest)" and "rest = dotted ns"
  shows "cbs = dotted (unat v # ns)"
  using parse_dotted_decimal_canonical [OF assms(1)] assms(2) by (cases ns) auto

section \<open>Object identifiers\<close>

definition oid_ok :: "nat list \<Rightarrow> bool" where
  "oid_ok ns \<longleftrightarrow> (case ns of a # b # cs \<Rightarrow> a \<le> 2 \<and> (a < 2 \<longrightarrow> b \<le> 39) \<and> b \<le> 2 ^ 64 - 81 \<and> list_all (\<lambda>n. n < 2 ^ 64) cs
     | _ \<Rightarrow> False)"

definition oid_octets :: "nat list \<Rightarrow> byte list" where
  "oid_octets ns = (case ns of a # b # cs \<Rightarrow> base128 (40 * a + b) @ concat (map base128 cs) | _ \<Rightarrow> [])"

lemma emits_oid_components:
  "list_all (\<lambda>n. n < 2 ^ 64) ns \<Longrightarrow> emits d (oid_components d (dotted ns)) (concat (map base128 ns)) True"
proof (induction ns)
  case Nil
  then show ?case by (subst oid_components.simps) (simp add: CBS_len_def emits_succeed)
next
  case (Cons n ns)
  then have n: "n < 2 ^ 64" by simp
  then have "emits d (and_then (add_base128_integer d (of_nat n)) (oid_components d (dotted ns)))
      (base128 (unat (of_nat n :: u64)) @ concat (map base128 ns)) (True \<and> True)"
    using Cons by (intro emits_and_then emits_add_base128) simp
  moreover have "unat (of_nat n :: u64) = n" using n by (simp add: unat_of_nat)
  ultimately show ?case
    using parse_dotted_Cons [OF n, of ns]
    by (subst oid_components.simps) (simp add: CBS_len_def)
qed

lemma oid_components_canonical:
  "oid_components d cbs c = (True, c') \<Longrightarrow> \<exists>ns. list_all (\<lambda>n. n < 2 ^ 64) ns \<and> cbs = dotted ns"
proof (induction cbs arbitrary: c rule: length_induct)
  case (1 cbs)
  show ?case
  proof (cases "cbs = []")
    case True
    then show ?thesis by (intro exI [of _ "[]"]) simp
  next
    case False
    from 1(2) False obtain a cbs' c1 where p: "parse_dotted_decimal cbs = (Some a, cbs')"
      and r: "oid_components d cbs' c1 = (True, c')"
      by (subst (asm) oid_components.simps)
        (auto simp: CBS_len_def fail_def and_then_def split: option.splits prod.splits if_splits)
    have "length cbs' < length cbs"
      using p False by (auto simp: parse_dotted_decimal_def intro: dotted_loop_shorter [OF sym])
    then obtain ns where ns: "list_all (\<lambda>n. n < 2 ^ 64) ns" "cbs' = dotted ns"
      using 1(1) r by blast
    have "unat a < 2 ^ 64" using u64_bound [of a] by simp
    then show ?thesis
      using parse_dotted_Some [OF p ns(2)] ns(1) by (intro exI [of _ "unat a # ns"]) simp
  qed
qed

lemma oid_first_bounds:
  fixes a b :: u64
  shows "a > 2 \<or> (a < 2 \<and> b > 39) \<or> b > UINT64_MAX - 80 \<longleftrightarrow> 
     \<not> (unat a \<le> 2 \<and> (unat a < 2 \<longrightarrow> unat b \<le> 39) \<and> unat b \<le> 2 ^ 64 - 81)"
  by (auto simp: word_less_nat_alt not_less)

lemma emits_oid_from_text [emits_rules]:
  assumes "oid_ok ns"
  shows "emits d (CBB_add_asn1_oid_from_text d (dotted ns)) (oid_octets ns) True"
proof -
  obtain a b cs where ns: "ns = a # b # cs" and ab: "a \<le> 2" "a < 2 \<longrightarrow> b \<le> 39" "b \<le> 2 ^ 64 - 81"
    and cs: "list_all (\<lambda>n. n < 2 ^ 64) cs"
    using assms by (auto simp: oid_ok_def split: list.splits)
  have u: "unat (of_nat a :: u64) = a" "unat (of_nat b :: u64) = b"
    using ab by (simp_all add: unat_of_nat)
  have u': "unat (40 * of_nat a + of_nat b :: u64) = 40 * a + b"
    using ab by (simp add: unat_word_ariths u)
  have n: "a < 2 ^ 64" "b < 2 ^ 64" using ab by auto
  have nf: "\<not> (of_nat a > (2 :: u64) \<or> (of_nat a < (2 :: u64) \<and> of_nat b > (39 :: u64)) \<or> of_nat b > UINT64_MAX - 80)"
    unfolding oid_first_bounds u using ab by simp
  have "CBB_add_asn1_oid_from_text d (dotted ns)
    = and_then (CBB_flush d) (and_then (add_base128_integer d (40 * of_nat a + of_nat b)) (oid_components d (dotted cs)))"
    unfolding CBB_add_asn1_oid_from_text_def CBS_init_def ns
    by (simp only: parse_dotted_Cons [OF n(1)] parse_dotted_Cons [OF n(2)] prod.case option.case nf if_False)
  moreover have "emits d (and_then (CBB_flush d)
      (and_then (add_base128_integer d (40 * of_nat a + of_nat b)) (oid_components d (dotted cs))))
    ([] @ base128 (unat (40 * of_nat a + of_nat b :: u64)) @ concat (map base128 cs)) (True \<and> True \<and> True)"
    by (intro emits_and_then emits_flush emits_add_base128 emits_oid_components cs)
  ultimately show ?thesis
    by (simp add: u' oid_octets_def ns)
qed

lemma oid_from_text_canonical:
  assumes "CBB_add_asn1_oid_from_text d text c = (True, c')"
  shows "\<exists>ns. oid_ok ns \<and> text = dotted ns"
proof -
  obtain a r1 b r2 c1 where p: "parse_dotted_decimal text = (Some a, r1)" "parse_dotted_decimal r1 = (Some b, r2)"
    and ok: "\<not> (a > 2 \<or> (a < 2 \<and> b > 39) \<or> b > UINT64_MAX - 80)"
    and r: "oid_components d r2 c1 = (True, c')"
    using assms
    by (auto simp: CBB_add_asn1_oid_from_text_def CBS_init_def and_then_def fail_def
        split: option.splits prod.splits if_splits)
  obtain cs where cs: "list_all (\<lambda>n. n < 2 ^ 64) cs" "r2 = dotted cs"
    using oid_components_canonical [OF r] by blast
  have "text = dotted (unat a # unat b # cs)"
    using parse_dotted_Some [OF p(1) parse_dotted_Some [OF p(2) cs(2)]] .
  then show ?thesis
    using ok cs(1) unfolding oid_first_bounds by (intro exI [of _ "unat a # unat b # cs"]) (simp add: oid_ok_def)
qed


section \<open>Object identifiers as text\<close>

lemma emits_add_decimal: "emits 0 (add_decimal v) (decimal (unat v)) True"
  unfolding add_decimal_def by (rule emits_add_bytes)

fun dotted_tail :: "nat list \<Rightarrow> byte list" where
  "dotted_tail [] = []"
| "dotted_tail (n # ns) = char_dot # decimal n @ dotted_tail ns"

lemma dotted_Cons: "dotted (n # ns) = decimal n @ dotted_tail ns"
  by (induction ns arbitrary: n) simp_all

lemma base128_bound: "list_all (\<lambda>n. n < 2 ^ 64) ns \<Longrightarrow> n \<in> set ns \<Longrightarrow> unat (of_nat n :: u64) = n"
  by (simp add: list_all_iff unat_of_nat)

lemma emits_oid_text_components:
  "list_all (\<lambda>n. n < 2 ^ 64) ns \<Longrightarrow>
   emits 0 (oid_text_components (concat (map base128 ns))) (dotted_tail ns) True"
proof (induction ns)
  case Nil
  then show ?case by (subst oid_text_components.simps) (simp add: CBS_len_def emits_succeed)
next
  case (Cons n ns)
  then have n: "n < 2 ^ 64" and u: "unat (of_nat n :: u64) = n" by (simp_all add: unat_of_nat)
  have "emits 0 (and_then (CBB_add_u8 0 char_dot) (and_then (add_decimal (of_nat n))
      (oid_text_components (concat (map base128 ns)))))
    ([char_dot] @ decimal (unat (of_nat n :: u64)) @ dotted_tail ns) (True \<and> True \<and> True)"
    using Cons by (intro emits_and_then emits_add_u8 emits_add_decimal) simp
  then show ?case
    using parse_base128 [OF n, of "concat (map base128 ns)"] u
    by (subst oid_text_components.simps) (simp add: CBS_len_def)
qed

lemma emits_oid_text:
  assumes "oid_ok ns"
  shows "emits 0 (oid_text (oid_octets ns)) (dotted ns @ [0]) True"
proof -
  obtain a b cs where ns: "ns = a # b # cs" and ab: "a \<le> 2" "a < 2 \<longrightarrow> b \<le> 39" "b \<le> 2 ^ 64 - 81"
    and cs: "list_all (\<lambda>n. n < 2 ^ 64) cs"
    using assms by (auto simp: oid_ok_def split: list.splits)
  define v where "v = (of_nat (40 * a + b) :: u64)"
  have n: "40 * a + b < 2 ^ 64" using ab by auto
  then have v: "unat v = 40 * a + b" by (simp add: v_def unat_of_nat del: of_nat_add of_nat_mult)
  have ge: "v \<ge> 80 \<longleftrightarrow> a = 2"
    using ab v by (auto simp: word_le_nat_alt)
  let ?first = "if v \<ge> 80 then and_then (CBB_add_bytes 0 [50, 46]) (add_decimal (v - 80))
     else and_then (add_decimal (v div 40)) (and_then (CBB_add_u8 0 char_dot) (add_decimal (v mod 40)))"
  have first: "emits 0 ?first (decimal a @ char_dot # decimal b) True"
  proof (cases "v \<ge> 80")
    case True
    then have a: "a = 2" using ge by simp
    have "unat (v - 80) = b"
      using True v a by (subst unat_sub) auto
    moreover have "decimal 2 = [50]" by (simp add: decimal.simps)
    ultimately show ?thesis
      using True emits_and_then [OF emits_add_bytes [of 0 "[50, 46]"] emits_add_decimal [of "v - 80"]] a by simp
  next
    case False
    then have "b \<le> 39" using ab ge by auto
    then have "unat (v div 40) = a" "unat (v mod 40) = b"
      using v by (simp_all add: unat_div unat_mod)
    then show ?thesis
      using False emits_and_then [OF emits_add_decimal [of "v div 40"]
        emits_and_then [OF emits_add_u8 [of 0 char_dot] emits_add_decimal [of "v mod 40"]]] by simp
  qed
  have p: "parse_base128_integer (oid_octets ns) = (Some v, concat (map base128 cs))"
    using parse_base128 [OF n, of "concat (map base128 cs)"]
    by (simp add: oid_octets_def ns v_def del: of_nat_add of_nat_mult)
  have "emits 0 (and_then ?first (and_then (oid_text_components (concat (map base128 cs))) (CBB_add_u8 0 0)))
    ((decimal a @ char_dot # decimal b) @ dotted_tail cs @ [0]) (True \<and> True \<and> True)"
    by (intro emits_and_then first emits_oid_text_components cs emits_add_u8)
  then show ?thesis
    unfolding oid_text_def p by (simp add: ns dotted_Cons)
qed

lemma oid_text_components_canonical:
  "oid_text_components cbs c = (True, c') \<Longrightarrow> \<exists>ns. list_all (\<lambda>n. n < 2 ^ 64) ns \<and> cbs = concat (map base128 ns)"
proof (induction cbs arbitrary: c rule: length_induct)
  case (1 cbs)
  show ?case
  proof (cases "cbs = []")
    case True
    then show ?thesis by (intro exI [of _ "[]"]) simp
  next
    case False
    from 1(2) False obtain v copy c1 where p: "parse_base128_integer cbs = (Some v, copy)"
      and r: "oid_text_components copy c1 = (True, c')"
      by (subst (asm) oid_text_components.simps)
        (auto simp: CBS_len_def fail_def and_then_def split: option.splits prod.splits if_splits)
    obtain ns where ns: "list_all (\<lambda>n. n < 2 ^ 64) ns" "copy = concat (map base128 ns)"
      using 1(1) parse_base128_length [OF p] r by blast
    have "unat v < 2 ^ 64" using u64_bound [of v] by simp
    then show ?thesis
      using parse_base128_canonical [OF p] ns by (intro exI [of _ "unat v # ns"]) simp
  qed
qed

lemma oid_text_canonical:
  assumes "oid_text cbs c = (True, c')"
  shows "\<exists>ns. oid_ok ns \<and> cbs = oid_octets ns"
proof -
  obtain v copy c1 c2 where p: "parse_base128_integer cbs = (Some v, copy)"
    and r: "oid_text_components copy c1 = (True, c2)"
    using assms by (auto simp: oid_text_def fail_def and_then_def split: option.splits prod.splits if_splits)
  obtain cs where cs: "list_all (\<lambda>n. n < 2 ^ 64) cs" "copy = concat (map base128 cs)"
    using oid_text_components_canonical [OF r] by blast
  define a where "a = (if unat v < 40 then 0 else if unat v < 80 then 1 else 2 :: nat)"
  have e: "40 * a + (unat v - 40 * a) = unat v"
    by (auto simp: a_def)
  have "oid_ok (a # (unat v - 40 * a) # cs)"
    using cs(1) u64_bound [of v] by (auto simp: oid_ok_def a_def)
  moreover have "cbs = oid_octets (a # (unat v - 40 * a) # cs)"
    using parse_base128_canonical [OF p] cs(2) by (simp add: oid_octets_def e)
  ultimately show ?thesis by blast
qed

lemma decimal_length: "n < 10 ^ Suc k \<Longrightarrow> length (decimal n) \<le> Suc k"
proof (induction k arbitrary: n)
  case 0
  then show ?case by (subst decimal.simps) simp
next
  case (Suc k)
  have "n div 10 < 10 ^ Suc k"
    using Suc.prems by (simp add: less_mult_imp_div_less mult.commute)
  then have "length (decimal (n div 10)) \<le> Suc k"
    by (rule Suc.IH)
  then show ?case by (subst decimal.simps) simp
qed

lemma dotted_tail_length: "list_all (\<lambda>n. n < 2 ^ 64) ns \<Longrightarrow> length (dotted_tail ns) \<le> 21 * length (concat (map base128 ns))"
proof (induction ns)
  case (Cons n ns)
  then have "length (decimal n) \<le> Suc 19"
    by (intro decimal_length) simp
  moreover have "1 \<le> length (base128 n)"
    by (simp add: base128_def)
  ultimately show ?case using Cons by simp
qed simp

lemma dotted_length:
  assumes "oid_ok ns"
  shows "length (dotted ns) \<le> 41 + 21 * length (oid_octets ns)"
proof -
  obtain a b cs where ns: "ns = a # b # cs" and ab: "a \<le> 2" "b \<le> 2 ^ 64 - 81" and cs: "list_all (\<lambda>n. n < 2 ^ 64) cs"
    using assms by (auto simp: oid_ok_def split: list.splits)
  have "length (decimal a) \<le> Suc 0" "length (decimal b) \<le> Suc 19"
    using ab by (intro decimal_length; simp)+
  then show ?thesis
    using dotted_tail_length [OF cs] by (simp add: ns dotted_Cons oid_octets_def)
qed

lemma CBS_asn1_oid_to_text_sound:
  assumes "CBS_asn1_oid_to_text cbs h = Some txt" and "length cbs < 2 ^ 56"
  shows "\<exists>ns. oid_ok ns \<and> cbs = oid_octets ns \<and> txt = dotted ns @ [0]"
proof -
  obtain c c1 where c: "CBB_init 32 h = (True, c)" and t: "oid_text cbs c = (True, c1)"
    and fo: "fst (CBB_finish 0 True c1) = Some txt"
    using assms(1) by (auto simp: CBS_asn1_oid_to_text_def split: prod.splits bool.splits)
  obtain c2 where f: "CBB_finish 0 True c1 = (Some txt, c2)"
    using fo by (cases "CBB_finish 0 True c1") auto
  obtain ns where ns: "oid_ok ns" "cbs = oid_octets ns"
    using oid_text_canonical [OF t] by blast
  have "txt = dotted ns @ [0]"
    using emits_run(1) [OF emits_oid_text [OF ns(1)] c _ _ t [unfolded ns(2)] f] dotted_length [OF ns(1)] assms(2) ns(2)
    by simp
  with ns show ?thesis by blast
qed

lemma CBS_asn1_oid_to_text_complete:
  assumes "oid_ok ns" and "False \<notin> set h" and "length (oid_octets ns) < 2 ^ 56"
  shows "CBS_asn1_oid_to_text (oid_octets ns) h = Some (dotted ns @ [0])"
proof -
  obtain ok c where c: "CBB_init 32 h = (ok, c)" by (cases "CBB_init 32 h")
  obtain ok1 c1 where c1: "oid_text (oid_octets ns) c = (ok1, c1)" by (cases "oid_text (oid_octets ns) c")
  obtain out c2 where c2: "CBB_finish 0 True c1 = (out, c2)" by (cases "CBB_finish 0 True c1")
  have "ok \<and> ok1 \<and> out = Some (dotted ns @ [0])"
    using emits_run(2) [OF emits_oid_text [OF assms(1)] c _ _ c1 c2] assms(2,3) dotted_length [OF assms(1)] by simp
  then show ?thesis
    using c c1 c2 by (simp add: CBS_asn1_oid_to_text_def)
qed

section \<open>SET OF\<close>

text \<open>The order of the elements is the lexicographic order on byte strings.\<close>

fun lex_cmp :: "byte list \<Rightarrow> byte list \<Rightarrow> int" where
  "lex_cmp [] [] = 0"
| "lex_cmp [] (y # ys) = - 1"
| "lex_cmp (x # xs) [] = 1"
| "lex_cmp (x # xs) (y # ys) = (if x < y then - 1 else if y < x then 1 else lex_cmp xs ys)"

lemma compare_set_of_element_eq: "compare_set_of_element a b = lex_cmp a b"
  by (induction a b rule: lex_cmp.induct)
    (auto simp: compare_set_of_element_def CBS_len_def CBS_data_def Let_def split: if_splits)

lemma lex_cmp_antisym: "lex_cmp y x = - lex_cmp x y"
  by (induction x y rule: lex_cmp.induct) auto

lemma lex_cmp_zero: "lex_cmp x y = 0 \<Longrightarrow> x = y"
  by (induction x y rule: lex_cmp.induct) (auto split: if_splits)

lemma lex_cmp_trans: "lex_cmp x y \<le> 0 \<Longrightarrow> lex_cmp y z \<le> 0 \<Longrightarrow> lex_cmp x z \<le> 0"
proof (induction x y arbitrary: z rule: lex_cmp.induct)
  case (4 x xs y ys)
  then show ?case by (cases z) (auto split: if_splits)
qed (case_tac z; auto)+

interpretation set_of_order: linear_comparator compare_set_of_element
proof unfold_locales
  show "sgn (compare_set_of_element y x) = - sgn (compare_set_of_element x y)" for x y
    by (simp only: compare_set_of_element_eq lex_cmp_antisym [of y x] sgn_minus)
qed (auto simp: compare_set_of_element_eq intro: lex_cmp_zero lex_cmp_trans)

lemma set_of_children_Some:
  "set_of_children fuel cbs = Some elems \<Longrightarrow>
   concat elems = cbs \<and> (\<forall>e \<in> set elems. \<exists>tag data. e = der tag data \<and> length data < 2 ^ 32)"
proof (induction fuel cbs arbitrary: elems rule: set_of_children.induct)
  case (3 fuel b bs)
  then obtain e tag hl rest es where g: "CBS_get_any_asn1_element (b # bs) = (Some (e, tag, hl), rest)"
    and r: "set_of_children fuel rest = Some es" and el: "elems = e # es"
    by (auto split: option.splits prod.splits)
  from g obtain data where "length data < 2 ^ 32" "e = der tag data" "b # bs = der tag data @ rest"
    by (auto simp: CBS_get_any_asn1_element_iff)
  moreover have "concat es = rest \<and> (\<forall>e \<in> set es. \<exists>tag data. e = der tag data \<and> length data < 2 ^ 32)"
    using "3.IH" [OF g [symmetric]] r by simp
  ultimately show ?case
    using el by auto
qed auto

lemma emits_add_all: "emits d (add_all d xs) (concat xs) True"
proof (induction xs)
  case (Cons x xs)
  then show ?case using emits_and_then [OF emits_add_bytes] by (simp add: CBS_data_def)
qed (simp add: emits_succeed)

lemma chain_ok_start:
  assumes "chain_ok 0 cs n"
  shows "chain_ok 0 cs (if cs = [] then 0 else content_start (List.last cs)) \<and> 
    (if cs = [] then 0 else content_start (List.last cs)) \<le> n"
proof -
  have "chain_ok lo cs (content_start (List.last cs)) \<and> content_start (List.last cs) \<le> n"
    if "chain_ok lo cs n" "cs \<noteq> []" for lo
    using that
  proof (induction cs arbitrary: lo)
    case (Cons c cs)
    then show ?case
      using chain_ok_le [of "content_start c" cs n] by (cases cs) auto
  qed simp
  then show ?thesis using assms by auto
qed

lemma self_offset_flat:
  assumes "length (children c) = d"
  shows "self_offset d c = (if children c = [] then 0 else content_start (List.last (children c)))"
  using assms by (auto simp: self_offset_def content_start_def last_conv_nth)

lemma qsort_short: "length xs < 2 \<Longrightarrow> qsort cmp xs = xs"
  by (cases xs; cases "tl xs") (auto simp: qsort_def)

lemma CBB_flush_asn1_set_of_contents:
  assumes "cbb_ok c" and "d \<le> length (children c)" and "length (contents d c) < 2 ^ 64"
    and "CBB_flush_asn1_set_of d c = (True, c')"
  obtains elems where "\<forall>e \<in> set elems. \<exists>tag data. e = der tag data \<and> length data < 2 ^ 32"
    and "contents d c = take (self_offset d c) (contents d c) @ concat elems"
    and "contents d c' = take (self_offset d c) (contents d c) @ concat (qsort compare_set_of_element elems)"
    and "take d (children c') = take d (children c)"
proof -
  obtain c1 where f: "CBB_flush d c = (True, c1)"
    using assms(4) by (auto simp: CBB_flush_asn1_set_of_def and_then_def split: prod.splits if_splits)
  obtain b1 where b1: "base c1 = Some b1" "\<not> error b1" "buf b1 = contents d c" "buf_ok b1"
    "children c1 = take d (children c)" "length (children c1) = d" "chain_ok 0 (children c1) (length (buf b1))"
    using CBB_flush_props(2) [OF assms(1,2) f] unfolding flushed_def by blast
  have so: "self_offset d c1 = self_offset d c"
    using assms(2) by (auto simp: self_offset_def b1(5))
  let ?so = "self_offset d c"
  let ?P = "take ?so (contents d c)"
  have data: "CBB_data d c1 = drop ?so (contents d c)"
    using b1 by (simp add: CBB_data_def so)
  obtain elems where el: "set_of_children (length (CBB_data d c1)) (CBB_data d c1) = Some elems"
    and r: "(if length elems < 2 then (True, c1) else if length elems > size_max div 16 then (False, c1)
      else and_then alloc_two (\<lambda>cbb. add_all d (qsort compare_set_of_element elems) (rewind d cbb)) c1) = (True, c')"
    using assms(4) f by (auto simp: CBB_flush_asn1_set_of_def and_then_def Let_def split: option.splits)
  have E: "concat elems = drop ?so (contents d c)" "\<forall>e \<in> set elems. \<exists>tag data. e = der tag data \<and> length data < 2 ^ 32"
    using set_of_children_Some [OF el] data by auto
  have ct: "contents d c = ?P @ concat elems" by (simp add: E(1))
  have "contents d c' = ?P @ concat (qsort compare_set_of_element elems) \<and> take d (children c') = take d (children c)"
  proof (cases "length elems < 2")
    case True
    then have "c' = c1" using r by simp
    then show ?thesis
      using True b1 ct by (simp add: contents_def qsort_short)
  next
    case False
    obtain b2 where b2: "alloc_two c1 = (True, c1\<lparr>base := Some b2\<rparr>)" "buf b2 = buf b1" "error b2 = error b1" "cap b2 = cap b1"
      and a: "add_all d (qsort compare_set_of_element elems) (rewind d (c1\<lparr>base := Some b2\<rparr>)) = (True, c')"
      using r False b1(1) by (auto simp: and_then_def alloc_two_def on_base_def Let_def split: prod.splits if_splits)
    define c2 where "c2 = rewind d (c1\<lparr>base := Some b2\<rparr>)"
    have "self_offset d (c1\<lparr>base := Some b2\<rparr>) = self_offset d c1"
      by (simp add: self_offset_def)
    then have "self_offset d (c1\<lparr>base := Some b2\<rparr>) = ?so"
      using so by simp
    moreover have "buf_update (take ?so) b2 = b2\<lparr>buf := ?P\<rparr>"
      using b1(3) b2(2) by (cases b2) simp
    ultimately have c2: "c2 = c1\<lparr>base := Some (b2\<lparr>buf := ?P\<rparr>)\<rparr>"
      by (simp add: c2_def rewind_def)
    have sl: "?so \<le> length (contents d c)" and ch: "chain_ok 0 (children c1) ?so"
      using chain_ok_start [OF b1(7)] self_offset_flat [OF b1(6)] so b1(3) by auto
    have ok2: "cbb_ok c2"
      using b1(4) b2 ch sl b1(3) by (auto simp: cbb_ok_def c2 buf_ok_def min_def)
    have ct2: "contents d c2 = ?P" using b1(6) by (simp add: contents_def c2)
    have le: "length (concat (qsort compare_set_of_element elems)) < 2 ^ 64"
    proof -
      have "length (concat (qsort compare_set_of_element elems)) = length (concat elems)"
        by (simp only: length_concat mset_map mset_qsort flip: sum_mset_sum_list)
      then show ?thesis using assms(3) E(1) by simp
    qed
    have "d \<le> length (children c2)" using b1(6) by (simp add: c2)
    from emits_add_all [of d "qsort compare_set_of_element elems", unfolded emits_def, rule_format,
        OF ok2 this le a [folded c2_def]]
    show ?thesis using ct2 b1(5) by (simp add: c2)
  qed
  with ct E(2) that show thesis by blast
qed

section \<open>Properties\<close>

text \<open>C14: \<open>CBB_add_asn1_int64\<close> and \<open>CBS_get_asn1_int64\<close> are inverse to each other on every number
  of the range of an \<open>int64_t\<close>: what a fresh \<open>CBB\<close> holds after the writer is read back in full.\<close>

theorem asn1_int64_roundtrip:
  assumes "- (2 ^ 63) \<le> v" and "v < 2 ^ 63" and "False \<notin> set h" and "n < 2 ^ 64"
  shows "case CBB_init n h of (ok, c) \<Rightarrow> ok \<and> (case CBB_add_asn1_int64 0 v c of (ok1, c1) \<Rightarrow> ok1 \<and>
     (case CBB_finish 0 True c1 of (out, c2) \<Rightarrow> \<exists>bs. out = Some bs \<and> CBS_get_asn1_int64 bs = (Some v, [])))"
proof -
  obtain ok c where c: "CBB_init n h = (ok, c)" by (cases "CBB_init n h")
  obtain ok1 c1 where c1: "CBB_add_asn1_int64 0 v c = (ok1, c1)" by (cases "CBB_add_asn1_int64 0 v c")
  obtain out c2 where c2: "CBB_finish 0 True c1 = (out, c2)" by (cases "CBB_finish 0 True c1")
  let ?bs = "der CBS_ASN1_INTEGER (int_octets v)"
  have "length (int_octets v) \<le> 8" using assms(1,2) by (simp add: int_octets_length_le_8)
  then have len: "length ?bs < 2 ^ 62"
    using der_tag_length [of CBS_ASN1_INTEGER] by (simp add: der_def der_len_def)
  have "ok \<and> ok1 \<and> out = Some ?bs"
    using emits_run(2) [OF emits_asn1_int64 [OF assms(1,2)] c assms(4) _ c1 c2 assms(3)] len by simp
  then show ?thesis
    using c c1 c2 int64_codec.get_put [of v "[]"] assms(1,2) by simp
qed

theorem asn1_int64_roundtrip_witness:
  "case CBB_init 16 [] of (ok, c) \<Rightarrow> ok \<and> (case CBB_add_asn1_int64 0 (- 129) c of (ok1, c1) \<Rightarrow> ok1 \<and>
     (case CBB_finish 0 True c1 of (out, c2) \<Rightarrow> \<exists>bs. out = Some bs \<and> CBS_get_asn1_int64 bs = (Some (- 129), [])))"
  using asn1_int64_roundtrip [of "- 129" "[]" 16] by simp

lemma base128_length: "n < 2 ^ 64 \<Longrightarrow> length (base128 n) \<le> 10"
proof -
  assume "n < 2 ^ 64"
  then have "n div 128 < 128 ^ 9" by simp
  then show ?thesis
    using base128_hi_length [of "n div 128" 9] by (simp add: base128_def)
qed

lemma oid_octets_length: "oid_ok ns \<Longrightarrow> length (oid_octets ns) \<le> 10 * length (dotted ns)"
proof -
  have d1: "1 \<le> length (decimal n)" for n by (simp add: Suc_le_eq)
  have t: "length (concat (map base128 cs)) \<le> 10 * length (dotted_tail cs)" if "list_all (\<lambda>n. n < 2 ^ 64) cs" for cs
    using that
  proof (induction cs)
    case (Cons n cs)
    then show ?case using base128_length [of n] d1 [of n] by simp
  qed simp
  assume "oid_ok ns"
  then obtain a b cs where ns: "ns = a # b # cs" "a \<le> 2" "b \<le> 2 ^ 64 - 81" and cs: "list_all (\<lambda>n. n < 2 ^ 64) cs"
    by (auto simp: oid_ok_def split: list.splits)
  have "length (base128 (40 * a + b)) \<le> 10"
    using ns(2,3) by (intro base128_length) auto
  then show ?thesis
    using t [OF cs] d1 [of a] by (simp add: ns(1) dotted_Cons oid_octets_def)
qed



text \<open>C15: Turning text into an object identifier and the octets back into text gives the text that
  was written, followed by its NUL.\<close>

theorem oid_text_roundtrip:
  assumes "CBB_init n h = (True, c)" and "n < 2 ^ 64" and "length text < 2 ^ 32"
    and "CBB_add_asn1_oid_from_text 0 text c = (True, c1)" and "CBB_finish 0 w c1 = (Some bs, c2)"
    and "False \<notin> set h'"
  shows "CBS_asn1_oid_to_text bs h' = Some (text @ [0])"
proof -
  obtain ns where ns: "oid_ok ns" "text = dotted ns"
    using oid_from_text_canonical [OF assms(4)] by blast
  have l: "length (oid_octets ns) < 2 ^ 56"
    using oid_octets_length [OF ns(1)] ns(2) assms(3) by simp
  have "bs = oid_octets ns"
    using emits_run(1) [OF emits_oid_from_text [OF ns(1)] assms(1,2) _ assms(4) [unfolded ns(2)] assms(5)] l by simp
  then show ?thesis
    using CBS_asn1_oid_to_text_complete [OF ns(1) assms(6) l] ns(2) by simp
qed

theorem oid_text_roundtrip_witness:
  "CBS_asn1_oid_to_text (fst (the (map_option (\<lambda>b. (b, ())) (fst (CBB_finish 0 True
      (snd (CBB_add_asn1_oid_from_text 0 [50, 46, 53] (snd (CBB_init 8 []))))))))) [] = Some [50, 46, 53, 0]"
proof -
  let ?c = "snd (CBB_init 8 [])"
  let ?c1 = "snd (CBB_add_asn1_oid_from_text 0 [50, 46, 53] ?c)"
  have run: "fst (CBB_init 8 [])" "fst (CBB_add_asn1_oid_from_text 0 [50, 46, 53] ?c)"
    "fst (CBB_finish 0 True ?c1) = Some [85]"
    by (code_simp, code_simp, code_simp)
  have "CBS_asn1_oid_to_text [85] [] = Some ([50, 46, 53] @ [0])"
    by (rule oid_text_roundtrip [of 8 "[]" ?c _ ?c1 True _ "snd (CBB_finish 0 True ?c1)"])
      (use run in \<open>simp_all add: prod_eq_iff\<close>)
  then show ?thesis using run by simp
qed

text \<open>C16: \<open>CBB_flush_asn1_set_of\<close> replaces the elements a handle holds by the same elements in the
  order of their encodings, and touches nothing before them.\<close>

theorem CBB_flush_asn1_set_of_sorts:
  assumes "cbb_ok c" and "d \<le> length (children c)" and "length (contents d c) < 2 ^ 64"
    and "CBB_flush_asn1_set_of d c = (True, c')"
  shows "\<exists>elems sorted. contents d c = take (self_offset d c) (contents d c) @ concat elems \<and>
     contents d c' = take (self_offset d c) (contents d c) @ concat sorted \<and>
     mset sorted = mset elems \<and> sorted_wrt (\<lambda>a b. lex_cmp a b \<le> 0) sorted \<and>
     (\<forall>e \<in> set elems. \<exists>tag data. e = der tag data)"
proof -
  obtain elems where e: "\<forall>e \<in> set elems. \<exists>tag data. e = der tag data \<and> length data < 2 ^ 32"
    "contents d c = take (self_offset d c) (contents d c) @ concat elems"
    "contents d c' = take (self_offset d c) (contents d c) @ concat (qsort compare_set_of_element elems)"
    by (rule CBB_flush_asn1_set_of_contents [OF assms])
  have "sorted_wrt (\<lambda>a b. lex_cmp a b \<le> 0) (qsort compare_set_of_element elems)"
    using set_of_order.ordered_qsort [of elems] by (simp add: ordered_def compare_set_of_element_eq)
  moreover have "mset (qsort compare_set_of_element elems) = mset elems" by simp
  moreover have "\<forall>e \<in> set elems. \<exists>tag data. e = der tag data" using e(1) by blast
  ultimately show ?thesis
    using e(2,3) by blast
qed

theorem CBB_flush_asn1_set_of_sorts_witness:
  "\<exists>c c'. CBB_flush_asn1_set_of 0 c = (True, c') \<and> contents 0 c = [2, 1, 9, 2, 1, 4] \<and>
     contents 0 c' = [2, 1, 4, 2, 1, 9] \<and>
     (\<exists>elems sorted. contents 0 c = take (self_offset 0 c) (contents 0 c) @ concat elems \<and>
        contents 0 c' = take (self_offset 0 c) (contents 0 c) @ concat sorted \<and> mset sorted = mset elems)"
proof -
  let ?c = "\<lparr>base = Some \<lparr>buf = [2, 1, 9, 2, 1, 4], cap = 6, can_resize = True, error = False, reallocs = []\<rparr>, children = []\<rparr>"
  let ?c' = "snd (CBB_flush_asn1_set_of 0 ?c)"
  have r: "fst (CBB_flush_asn1_set_of 0 ?c)" "contents 0 ?c' = [2, 1, 4, 2, 1, 9]" "contents 0 ?c = [2, 1, 9, 2, 1, 4]"
    by (code_simp, code_simp, code_simp)
  then have run: "CBB_flush_asn1_set_of 0 ?c = (True, ?c')" by (simp add: prod_eq_iff)
  have "cbb_ok ?c" by (simp add: cbb_ok_def buf_ok_def)
  from CBB_flush_asn1_set_of_sorts [OF this _ _ run] r run show ?thesis
    by (intro exI [of _ ?c] exI [of _ ?c']) (auto simp del: snd_conv)
qed

end
