(* ===== verification/Width_Codecs.thy ===== *)
theory Width_Codecs
  imports CBB_Prog
begin

text \<open>
  Writers of \<open>cbb.c\<close> against readers of \<open>cbs.c\<close>: big- and little-endian integers and
  length-prefixed vectors, as interpretations of \<open>codec\<close>, with the byte swaps of
  \<open>crypto/internal.h\<close>.
\<close>

section \<open>Byte swapping\<close>

lemma bswap_masks:
  "(0xff00ff00 :: u32) = push_bit 8 (mask 8) OR push_bit 24 (mask 8)"
  "(0x00ff00ff :: u32) = mask 8 OR push_bit 16 (mask 8)"
  by (simp_all add: mask_eq_exp_minus_1 push_bit_eq_mult)

lemma bit_bswap4:
  "bit (CRYPTO_bswap4 x) n \<longleftrightarrow> n < 32 \<and> bit x (8 * (3 - n div 8) + n mod 8)"
proof -
  have "bit (CRYPTO_bswap4 x) n \<longleftrightarrow> n < 32 \<and>
      (if n < 8 then bit x (24 + n) else if n < 16 then bit x (8 + n) else if n < 24 then bit x (n - 8) else bit x (n - 24))"
    unfolding CRYPTO_bswap4_def Let_def bswap_masks by (auto simp: bit_simps dest: bit_imp_le_length)
  also have "\<dots> \<longleftrightarrow> n < 32 \<and> bit x (8 * (3 - n div 8) + n mod 8)"
  proof (cases "n < 32")
    case True
    have "n = 8 * (n div 8) + n mod 8" "n mod 8 < 8" by simp_all
    then obtain q r where n: "n = 8 * q + r" "r < 8" "n div 8 = q" "n mod 8 = r" by blast
    then have "q = 0 \<or> q = 1 \<or> q = 2 \<or> q = 3" using True by auto
    then show ?thesis using n by (elim disjE) auto
  qed simp
  finally show ?thesis .
qed

lemma CRYPTO_bswap4_involution [simp]: "CRYPTO_bswap4 (CRYPTO_bswap4 x) = x"
proof (rule bit_word_eqI)
  fix n assume "n < LENGTH(32)"
  then have n: "n < 32" by simp
  obtain q r where q: "n = 8 * q + r" "r < 8" by (metis mod_less_divisor mult_div_mod_eq zero_less_numeral)
  then have "q < 4" using n by simp
  moreover from this have "8 * (3 - q) + r < 32" using q by linarith
  ultimately show "bit (CRYPTO_bswap4 (CRYPTO_bswap4 x)) n = bit x n"
    using q by (simp add: bit_bswap4)
qed

lemma bit_bswap8:
  "bit (CRYPTO_bswap8 x) n \<longleftrightarrow> n < 64 \<and> bit x (8 * (7 - n div 8) + n mod 8)"
proof -
  obtain q r where q: "n = 8 * q + r" "r < 8" by (metis mod_less_divisor mult_div_mod_eq zero_less_numeral)
  consider "n < 32" | "32 \<le> n" "n < 64" | "64 \<le> n" by linarith
  then show ?thesis
  proof cases
    case 1
    then have c: "q = 0 \<or> q = 1 \<or> q = 2 \<or> q = 3" using q by auto
    have dm: "n div 8 = q" "n mod 8 = r" using q by auto
    have "bit (CRYPTO_bswap8 x) n \<longleftrightarrow> 8 * (3 - q) + r < 32 \<and> bit x (32 + (8 * (3 - q) + r))"
      using 1 by (simp add: CRYPTO_bswap8_def bit_simps bit_bswap4 dm)
    also have "\<dots> \<longleftrightarrow> bit x (8 * (7 - q) + r)"
      using c q(2) by (elim disjE) simp_all
    finally show ?thesis using 1 by (simp add: dm)
  next
    case 2
    then have "4 \<le> q" "q < 8" using q by auto
    moreover from this have "n - 32 = 8 * (q - 4) + r" using q by simp
    then have "(n - 32) div 8 = q - 4" "(n - 32) mod 8 = r" using q(2) by simp_all
    ultimately have "(n - 32) div 8 = q - 4" "(n - 32) mod 8 = r" "4 \<le> q" "q < 8" by auto
    then show ?thesis using q 2
      by (auto simp: CRYPTO_bswap8_def bit_simps bit_bswap4 algebra_simps dest: bit_imp_le_length)
  next
    case 3
    then show ?thesis by (auto dest: bit_imp_le_length)
  qed
qed

lemma CRYPTO_bswap8_involution [simp]: "CRYPTO_bswap8 (CRYPTO_bswap8 x) = x"
proof (rule bit_word_eqI)
  fix n assume "n < LENGTH(64)"
  then have n: "n < 64" by simp
  obtain q r where q: "n = 8 * q + r" "r < 8" by (metis mod_less_divisor mult_div_mod_eq zero_less_numeral)
  then have "q < 8" using n by simp
  moreover from this have "8 * (7 - q) + r < 64" using q by linarith
  ultimately show "bit (CRYPTO_bswap8 (CRYPTO_bswap8 x)) n = bit x n"
    using q by (simp add: bit_bswap8)
qed

section \<open>Fixed-width integers\<close>

text \<open>The octets of a word of \<open>n\<close> bytes.\<close>

lemma cbs_get_u_codec:
  "n \<le> 8 \<Longrightarrow> cbs_get_u n cbs = (Some v, rest) \<longleftrightarrow> cbs = be_bytes n (unat v) @ rest \<and> unat v < 256 ^ n"
  (is "_ \<Longrightarrow> ?get \<longleftrightarrow> ?put")
proof -
  assume n: "n \<le> 8"
  have lt: "be_val bs < 2 ^ 64" if "length bs = n" for bs
    using be_val_bound [of bs] power_increasing [OF n, of "256 :: nat"] that by simp
  show "?get \<longleftrightarrow> ?put"
  proof
    assume ?get
    then have g: "n \<le> length cbs" "v = of_nat (be_val (take n cbs))" "rest = drop n cbs"
      by (auto simp: cbs_get_u_eq split: if_splits)
    then have "unat v = be_val (take n cbs)"
      using lt [of "take n cbs"] by (simp add: unat_of_nat)
    moreover have "length (take n cbs) = n" using g(1) by simp
    ultimately show ?put
      using g(3) be_bytes_be_val [of "take n cbs"] be_val_bound [of "take n cbs"]
      by (simp del: length_take)
  next
    assume ?put
    then show ?get by (simp add: cbs_get_u_append be_val_be_bytes)
  qed
qed

lemma codec_u:
  fixes put :: "'a::len word \<Rightarrow> byte list" and get :: "'a word reader"
  assumes "\<And>v. put v = be_bytes n (unat v)"
    and "\<And>cbs. get cbs = (case cbs_get_u n cbs of (None, c) \<Rightarrow> (None, c) | (Some v, c) \<Rightarrow> (Some (ucast v), c))"
    and "n \<le> 8" and "8 * n \<le> LENGTH('a)" and "LENGTH('a) \<le> 64"
  shows "codec put get (\<lambda>v. unat v < 256 ^ n)"
proof
  fix v :: "'a word" and rest
  have u: "unat (ucast v :: u64) = unat v" using assms(5) by simp
  assume "unat v < 256 ^ n"
  then have "cbs_get_u n (put v @ rest) = (Some (ucast v), rest)"
    using cbs_get_u_codec [OF assms(3)] by (simp add: assms(1) u)
  then show "get (put v @ rest) = (Some v, rest)"
    using assms(5) by (simp add: assms(2) ucast_ucast_up)
next
  fix cbs v rest
  assume "get cbs = (Some v, rest)"
  then obtain w where w: "cbs_get_u n cbs = (Some w, rest)" "v = ucast w"
    by (auto simp: assms(2) split: option.splits prod.splits)
  then have c: "cbs = be_bytes n (unat w) @ rest" "unat w < 256 ^ n"
    using cbs_get_u_codec [OF assms(3)] by auto
  have "(256 :: nat) ^ n \<le> 2 ^ LENGTH('a)"
    using assms(4) power_increasing [of "8 * n" "LENGTH('a)" "2 :: nat"] by (simp add: power_mult)
  then have "unat v = unat w"
    using c(2) by (simp add: w(2) unsigned_ucast_eq take_bit_nat_eq_self)
  then show "unat v < 256 ^ n \<and> cbs = put v @ rest"
    using c by (simp add: assms(1))
qed

interpretation u16_codec: codec "\<lambda>v. be_bytes 2 (unat v)" CBS_get_u16 "\<lambda>v. unat v < 256 ^ 2"
  by (rule codec_u) (simp_all add: CBS_get_u16_def)

interpretation u24_codec: codec "\<lambda>v. be_bytes 3 (unat v)" CBS_get_u24 "\<lambda>v. unat v < 256 ^ 3"
  by (rule codec_u) (simp_all add: CBS_get_u24_def)

interpretation u32_codec: codec "\<lambda>v. be_bytes 4 (unat v)" CBS_get_u32 "\<lambda>v. unat v < 256 ^ 4"
  by (rule codec_u) (simp_all add: CBS_get_u32_def)

interpretation u64_codec: codec "\<lambda>v. be_bytes 8 (unat v)" CBS_get_u64 "\<lambda>v. unat v < 256 ^ 8"
  by (rule codec_u) (auto simp add: CBS_get_u64_def split: option.splits prod.splits)

section \<open>Length-prefixed vectors\<close>

lemma cbs_get_length_prefixed_iff:
  assumes "k \<le> 8"
  shows "cbs_get_length_prefixed k cbs = (Some data, rest) \<longleftrightarrow>
    length data < 256 ^ k \<and> cbs = be_bytes k (length data) @ data @ rest"
proof
  assume "cbs_get_length_prefixed k cbs = (Some data, rest)"
  then obtain v r where v: "cbs_get_u k cbs = (Some v, r)" "CBS_get_bytes (unat v) r = (Some data, rest)"
    by (auto simp: cbs_get_length_prefixed_def split: option.splits prod.splits)
  then have "r = data @ rest" "length data = unat v"
    by (auto simp: CBS_get_bytes_eq split: if_splits)
  then show "length data < 256 ^ k \<and> cbs = be_bytes k (length data) @ data @ rest"
    using v(1) cbs_get_u_codec [OF assms] by auto
next
  assume d: "length data < 256 ^ k \<and> cbs = be_bytes k (length data) @ data @ rest"
  have "length data < 2 ^ 64"
    using d power_increasing [OF assms, of "256 :: nat"] by simp
  then have u: "unat (of_nat (length data) :: u64) = length data" by (simp add: unat_of_nat)
  then have "cbs_get_u k cbs = (Some (of_nat (length data)), data @ rest)"
    using d cbs_get_u_codec [OF assms] by simp
  then show "cbs_get_length_prefixed k cbs = (Some data, rest)"
    using u by (simp add: cbs_get_length_prefixed_def CBS_get_bytes_append)
qed

lemma length_prefixed_codec: "0 < k \<Longrightarrow> k \<le> 8 \<Longrightarrow>
  nonempty_codec (\<lambda>data. be_bytes k (length data) @ data) (cbs_get_length_prefixed k) (\<lambda>data. length data < 256 ^ k)"
proof unfold_locales
  assume k: "0 < k" "k \<le> 8"
  fix data rest bs
  show "length data < 256 ^ k \<Longrightarrow> cbs_get_length_prefixed k ((be_bytes k (length data) @ data) @ rest) = (Some data, rest)"
    by (simp add: cbs_get_length_prefixed_iff k)
  show "cbs_get_length_prefixed k bs = (Some data, rest) \<Longrightarrow> length data < 256 ^ k \<and> bs = (be_bytes k (length data) @ data) @ rest"
    by (simp add: cbs_get_length_prefixed_iff k)
  show "be_bytes k (length data) @ data \<noteq> []"
    using k length_be_bytes [of k "length data"] by (cases "be_bytes k (length data)") auto
qed


section \<open>Little-endian integers\<close>

lemma bit_be_byte: "i < n \<Longrightarrow> n \<le> 8 \<Longrightarrow> j < 8 \<Longrightarrow>
  bit (be_bytes n (unat (w :: 'a::len word)) ! i) j \<longleftrightarrow> bit w (8 * (n - 1 - i) + j)"
proof -
  assume i: "i < n" and "n \<le> 8" and j: "j < 8"
  have "be_bytes n (unat w) ! i = of_nat (unat w div 256 ^ (n - 1 - i))"
    using i by (simp add: be_bytes_map)
  moreover have "(256 :: nat) ^ (n - 1 - i) = 2 ^ (8 * (n - 1 - i))"
    by (simp add: power_mult)
  ultimately have "be_bytes n (unat w) ! i = of_nat (drop_bit (8 * (n - 1 - i)) (unat w))"
    by (simp only: drop_bit_eq_div)
  then show ?thesis
    using j by (simp add: bit_simps)
qed

lemma be_bytes_bswap:
  fixes w w' :: "'a::len word"
  assumes "n \<le> 8" and "\<And>i. i < 8 * n \<Longrightarrow> bit w' i = bit w (8 * (n - 1 - i div 8) + i mod 8)"
  shows "be_bytes n (unat w') = rev (be_bytes n (unat w))"
proof (rule nth_equalityI)
  fix i assume "i < length (be_bytes n (unat w'))"
  then have i: "i < n" by simp
  show "be_bytes n (unat w') ! i = rev (be_bytes n (unat w)) ! i"
  proof (rule bit_word_eqI)
    fix j assume "j < LENGTH(8)"
    then have j: "j < 8" by simp
    let ?k = "8 * (n - 1 - i) + j"
    have "?k < 8 * n" "?k div 8 = n - 1 - i" "?k mod 8 = j" "n - 1 - (n - 1 - i) = i"
      using i j by auto
    then show "bit (be_bytes n (unat w') ! i) j = bit (rev (be_bytes n (unat w)) ! i) j"
      using i j assms(1) assms(2) [of ?k] bit_be_byte [of i n j w'] bit_be_byte [of "n - Suc i" n j w]
      by (simp add: rev_nth)
  qed
qed simp

lemma be_bytes_bswap2: "be_bytes 2 (unat (CRYPTO_bswap2 v)) = rev (be_bytes 2 (unat v))"
proof (rule be_bytes_bswap)
  fix i :: nat assume i: "i < 8 * 2"
  show "bit (CRYPTO_bswap2 v) i = bit v (8 * (2 - 1 - i div 8) + i mod 8)"
  proof (cases "i < 8")
    case True
    then show ?thesis by (simp add: CRYPTO_bswap2_def bit_simps)
  next
    case False
    then obtain k where "i = 8 + k" "k < 8" using i by (metis add_less_cancel_left le_add_diff_inverse mult_2_right not_less numeral_Bit0)
    then show ?thesis by (auto simp: CRYPTO_bswap2_def bit_simps dest: bit_imp_le_length)
  qed
qed simp

lemma be_bytes_bswap4: "be_bytes 4 (unat (CRYPTO_bswap4 v)) = rev (be_bytes 4 (unat v))"
  by (rule be_bytes_bswap) (simp_all add: bit_bswap4)

lemma be_bytes_bswap8: "be_bytes 8 (unat (CRYPTO_bswap8 v)) = rev (be_bytes 8 (unat v))"
  by (rule be_bytes_bswap) (simp_all add: bit_bswap8)

lemma codec_swap:
  assumes "codec put get (\<lambda>_. True)" and "\<And>v. f (f v) = v"
  shows "codec (\<lambda>v. put (f v)) (\<lambda>cbs. case get cbs of (None, c) \<Rightarrow> (None, c) | (Some v, c) \<Rightarrow> (Some (f v), c)) (\<lambda>_. True)"
  using assms by (auto simp: codec_def split: option.splits prod.splits)

lemma codec_True: "codec put get ok \<Longrightarrow> (\<And>v. ok v) \<Longrightarrow> codec put get (\<lambda>_. True)"
  by (auto simp: codec_def)

lemma word_bytes_bound: "LENGTH('a) = 8 * n \<Longrightarrow> unat (v :: 'a::len word) < 256 ^ n"
  using unsigned_less [of v, where 'a = nat] by (simp add: power_mult)

interpretation u16le_codec: codec "\<lambda>v. be_bytes 2 (unat (CRYPTO_bswap2 v))" CBS_get_u16le "\<lambda>_. True"
proof -
  have g: "CBS_get_u16le = (\<lambda>cbs. case CBS_get_u16 cbs of (None, c) \<Rightarrow> (None, c) | (Some v, c) \<Rightarrow> (Some (CRYPTO_bswap2 v), c))"
    by (simp add: fun_eq_iff CBS_get_u16le_def)
  show "codec (\<lambda>v. be_bytes 2 (unat (CRYPTO_bswap2 v))) CBS_get_u16le (\<lambda>_. True)"
    unfolding g by (rule codec_swap [OF codec_True [OF u16_codec.codec_axioms]], rule word_bytes_bound) simp_all
qed

interpretation u32le_codec: codec "\<lambda>v. be_bytes 4 (unat (CRYPTO_bswap4 v))" CBS_get_u32le "\<lambda>_. True"
proof -
  have g: "CBS_get_u32le = (\<lambda>cbs. case CBS_get_u32 cbs of (None, c) \<Rightarrow> (None, c) | (Some v, c) \<Rightarrow> (Some (CRYPTO_bswap4 v), c))"
    by (simp add: fun_eq_iff CBS_get_u32le_def)
  show "codec (\<lambda>v. be_bytes 4 (unat (CRYPTO_bswap4 v))) CBS_get_u32le (\<lambda>_. True)"
    unfolding g by (rule codec_swap [OF codec_True [OF u32_codec.codec_axioms]], rule word_bytes_bound) simp_all
qed

interpretation u64le_codec: codec "\<lambda>v. be_bytes 8 (unat (CRYPTO_bswap8 v))" CBS_get_u64le "\<lambda>_. True"
proof -
  have g: "CBS_get_u64le = (\<lambda>cbs. case CBS_get_u64 cbs of (None, c) \<Rightarrow> (None, c) | (Some v, c) \<Rightarrow> (Some (CRYPTO_bswap8 v), c))"
    by (simp add: fun_eq_iff CBS_get_u64le_def CBS_get_u64_def)
  show "codec (\<lambda>v. be_bytes 8 (unat (CRYPTO_bswap8 v))) CBS_get_u64le (\<lambda>_. True)"
    unfolding g by (rule codec_swap [OF codec_True [OF u64_codec.codec_axioms]], rule word_bytes_bound) simp_all
qed

section \<open>Properties\<close>

text \<open>The little-endian writers emit the octets of the number from the lowest up, and the
  little-endian readers take exactly those octets.\<close>

theorem little_endian_codec:
  "emits d (CBB_add_u16le d a) (rev (be_bytes 2 (unat a))) True \<and>
   emits d (CBB_add_u32le d b) (rev (be_bytes 4 (unat b))) True \<and>
   emits d (CBB_add_u64le d c) (rev (be_bytes 8 (unat c))) True \<and>
   (CBS_get_u16le cbs = (Some a, rest) \<longleftrightarrow> cbs = rev (be_bytes 2 (unat a)) @ rest) \<and>
   (CBS_get_u32le cbs = (Some b, rest) \<longleftrightarrow> cbs = rev (be_bytes 4 (unat b)) @ rest) \<and>
   (CBS_get_u64le cbs = (Some c, rest) \<longleftrightarrow> cbs = rev (be_bytes 8 (unat c)) @ rest)"
  using emits_add_u16le [of d a] emits_add_u32le [of d b] emits_add_u64le [of d c]
    u16le_codec.get_iff [of cbs a rest] u32le_codec.get_iff [of cbs b rest] u64le_codec.get_iff [of cbs c rest]
  by (simp only: be_bytes_bswap2 be_bytes_bswap4 be_bytes_bswap8 simp_thms)

text \<open>C32: A list of vectors written with prefixes of 1, 2 or 3 octets, each below the limit of its
  prefix, is read back by the loop over the length-prefixed reader.\<close>

theorem length_prefixed_roundtrip:
  assumes "k \<in> {1, 2, 3}" and "\<forall>x \<in> set xs. length x < 256 ^ k" and "False \<notin> set h" and "n < 2 ^ 64"
    and "length xs < 2 ^ 32"
  shows "case CBB_init n h of (ok, c) \<Rightarrow> ok \<and>
    (case build_all 0 (map (\<lambda>x. Prefixed k [Octets x]) xs) c of (ok1, c1) \<Rightarrow> ok1 \<and>
      (case fst (CBB_finish 0 True c1) of None \<Rightarrow> False
       | Some bs \<Rightarrow> read_all (length bs) (cbs_get_length_prefixed k) bs = Some xs))"
proof -
  let ?is = "map (\<lambda>x. Prefixed k [Octets x]) xs"
  obtain ok c where c: "CBB_init n h = (ok, c)" by (cases "CBB_init n h")
  obtain ok1 c1 where c1: "build_all 0 ?is c = (ok1, c1)" by (cases "build_all 0 ?is c")
  obtain out c2 where c2: "CBB_finish 0 True c1 = (out, c2)" by (cases "CBB_finish 0 True c1")
  let ?put = "\<lambda>x. be_bytes k (length x) @ x"
  have k: "0 < k" "k \<le> 3" "k \<le> 8" using assms(1) by auto
  have wf: "items_wf ?is" "items_fit ?is" and e: "enc_all ?is = concat (map ?put xs)"
    using assms(1,2) by (induction xs) auto
  have "length (concat (map ?put xs)) \<le> length xs * (3 + 256 ^ 3)"
    using assms(2)
  proof (induction xs)
    case (Cons x xs)
    moreover have "(256 :: nat) ^ k \<le> 256 ^ 3" using k by (intro power_increasing) auto
    ultimately show ?case using k by auto
  qed simp
  also have "\<dots> < 2 ^ 62" using assms(5) by simp
  finally have len: "length (concat (map ?put xs)) < 2 ^ 62" .
  have "ok \<and> ok1 \<and> out = Some (concat (map ?put xs))"
    using emits_run(2) [OF emits_build(2) [OF wf(1)] c assms(4) _ c1 c2 assms(3)] len wf(2) unfolding e by simp
  moreover have "read_all (length (concat (map ?put xs))) (cbs_get_length_prefixed k) (concat (map ?put xs)) = Some xs"
    using nonempty_codec.read_all_concat [OF length_prefixed_codec [OF k(1,3)]] assms(2) by (simp add: list_all_iff)
  ultimately show ?thesis
    using c c1 c2 by simp
qed

theorem length_prefixed_roundtrip_witness:
  "case CBB_init 1 [True, True] of (ok, c) \<Rightarrow> ok \<and>
    (case build_all 0 (map (\<lambda>x. Prefixed 2 [Octets x]) [[1, 2], [], [3]]) c of (ok1, c1) \<Rightarrow> ok1 \<and>
      (case fst (CBB_finish 0 True c1) of None \<Rightarrow> False
       | Some bs \<Rightarrow> read_all (length bs) (cbs_get_length_prefixed 2) bs = Some [[1, 2], [], [3]]))"
  by (rule length_prefixed_roundtrip) simp_all

end
