(* ===== verification/Unicode.thy ===== *)
theory Unicode
  imports Width_Codecs
begin

text \<open>
  The character encodings of \<open>crypto/bytestring/unicode.c\<close>: UTF-8, Latin-1, UCS-2 and UTF-32, one
  reader over a \<open>CBS\<close> and one writer over a \<open>CBB\<close> each.  The UTF-8 pair is proved to be a
  canonical codec for the valid code points: overlong forms, surrogates and noncharacters are
  neither read nor written.
\<close>

section \<open>Operations\<close>

definition is_valid_code_point :: "u32 \<Rightarrow> bool" where
  "is_valid_code_point v \<longleftrightarrow>
     \<not> (v > 0x10ffff \<or> v AND 0xfffe = 0xfffe \<or> (v \<ge> 0xfdd0 \<and> v \<le> 0xfdef) \<or> (v \<ge> 0xd800 \<and> v \<le> 0xdfff))"

definition BOTTOM_BITS :: "nat \<Rightarrow> byte" where
  "BOTTOM_BITS n = push_bit n 1 - 1"

definition TOP_BITS :: "nat \<Rightarrow> byte" where
  "TOP_BITS n = NOT (BOTTOM_BITS (8 - n))"

text \<open>The loop over the continuation bytes.\<close>

fun utf8_tail :: "nat \<Rightarrow> u32 \<Rightarrow> u32 reader" where
  "utf8_tail 0 v cbs = (Some v, cbs)"
| "utf8_tail (Suc n) v cbs =
     (case CBS_get_u8 cbs of
        (None, cbs') \<Rightarrow> (None, cbs')
      | (Some c, cbs') \<Rightarrow>
          if c AND TOP_BITS 2 \<noteq> TOP_BITS 1 then (None, cbs')
          else utf8_tail n (push_bit 6 v OR ucast (c AND BOTTOM_BITS 6)) cbs')"

text \<open>What the lead byte says: the bits it carries, the number of continuation bytes, the lower bound.\<close>

definition utf8_lead :: "byte \<Rightarrow> (u32 \<times> nat \<times> u32) option" where
  "utf8_lead c =
     (if c AND TOP_BITS 3 = TOP_BITS 2 then Some (ucast (c AND BOTTOM_BITS 5), 1, 0x80)
      else if c AND TOP_BITS 4 = TOP_BITS 3 then Some (ucast (c AND BOTTOM_BITS 4), 2, 0x800)
      else if c AND TOP_BITS 5 = TOP_BITS 4 then Some (ucast (c AND BOTTOM_BITS 3), 3, 0x10000)
      else None)"

definition cbs_get_utf8 :: "u32 reader" where
  "cbs_get_utf8 cbs =
     (case CBS_get_u8 cbs of
        (None, cbs') \<Rightarrow> (None, cbs')
      | (Some c, cbs') \<Rightarrow>
          if c \<le> 0x7f then (Some (ucast c), cbs')
          else case utf8_lead c of
                 None \<Rightarrow> (None, cbs')
               | Some (v, len, lower_bound) \<Rightarrow>
                   (case utf8_tail len v cbs' of
                      (None, cbs'') \<Rightarrow> (None, cbs'')
                    | (Some v, cbs'') \<Rightarrow>
                        if \<not> is_valid_code_point v \<or> v < lower_bound then (None, cbs'')
                        else (Some v, cbs'')))"

definition cbs_get_latin1 :: "u32 reader" where
  "cbs_get_latin1 cbs =
     (case CBS_get_u8 cbs of (None, cbs') \<Rightarrow> (None, cbs') | (Some c, cbs') \<Rightarrow> (Some (ucast c), cbs'))"

definition cbs_get_ucs2_be :: "u32 reader" where
  "cbs_get_ucs2_be cbs =
     (case CBS_get_u16 cbs of
        (None, cbs') \<Rightarrow> (None, cbs')
      | (Some c, cbs') \<Rightarrow> if is_valid_code_point (ucast c) then (Some (ucast c), cbs') else (None, cbs'))"

definition cbs_get_utf32_be :: "u32 reader" where
  "cbs_get_utf32_be cbs =
     (case CBS_get_u32 cbs of
        (None, cbs') \<Rightarrow> (None, cbs')
      | (Some c, cbs') \<Rightarrow> if is_valid_code_point c then (Some c, cbs') else (None, cbs'))"

definition cbb_get_utf8_len :: "u32 \<Rightarrow> nat" where
  "cbb_get_utf8_len u = (if u \<le> 0x7f then 1 else if u \<le> 0x7ff then 2 else if u \<le> 0xffff then 3 else 4)"

definition cbb_add_utf8 :: "nat \<Rightarrow> u32 \<Rightarrow> cbb step" where
  "cbb_add_utf8 d u =
     (if \<not> is_valid_code_point u then fail
      else if u \<le> 0x7f then CBB_add_u8 d (ucast u)
      else if u \<le> 0x7ff then
        and_then (CBB_add_u8 d (TOP_BITS 2 OR ucast (drop_bit 6 u)))
                 (CBB_add_u8 d (TOP_BITS 1 OR (ucast u AND BOTTOM_BITS 6)))
      else if u \<le> 0xffff then
        and_then (CBB_add_u8 d (TOP_BITS 3 OR ucast (drop_bit 12 u)))
       (and_then (CBB_add_u8 d (TOP_BITS 1 OR (ucast (drop_bit 6 u) AND BOTTOM_BITS 6)))
                 (CBB_add_u8 d (TOP_BITS 1 OR (ucast u AND BOTTOM_BITS 6))))
      else if u \<le> 0x10ffff then
        and_then (CBB_add_u8 d (TOP_BITS 4 OR ucast (drop_bit 18 u)))
       (and_then (CBB_add_u8 d (TOP_BITS 1 OR (ucast (drop_bit 12 u) AND BOTTOM_BITS 6)))
       (and_then (CBB_add_u8 d (TOP_BITS 1 OR (ucast (drop_bit 6 u) AND BOTTOM_BITS 6)))
                 (CBB_add_u8 d (TOP_BITS 1 OR (ucast u AND BOTTOM_BITS 6)))))
      else fail)"

definition cbb_add_latin1 :: "nat \<Rightarrow> u32 \<Rightarrow> cbb step" where
  "cbb_add_latin1 d u = (if u \<le> 0xff then CBB_add_u8 d (ucast u) else fail)"

definition cbb_add_ucs2_be :: "nat \<Rightarrow> u32 \<Rightarrow> cbb step" where
  "cbb_add_ucs2_be d u = (if u \<le> 0xffff \<and> is_valid_code_point u then CBB_add_u16 d (ucast u) else fail)"

definition cbb_add_utf32_be :: "nat \<Rightarrow> u32 \<Rightarrow> cbb step" where
  "cbb_add_utf32_be d u = (if is_valid_code_point u then CBB_add_u32 d u else fail)"

section \<open>The masks as numbers\<close>

lemma mask_words:
  "BOTTOM_BITS 6 = 0x3f" "BOTTOM_BITS 5 = 0x1f" "BOTTOM_BITS 4 = 0xf" "BOTTOM_BITS 3 = 7"
  "TOP_BITS 1 = 0x80" "TOP_BITS (Suc 0) = 0x80" "TOP_BITS 2 = 0xc0" "TOP_BITS 3 = 0xe0" "TOP_BITS 4 = 0xf0" "TOP_BITS 5 = 0xf8"
  by code_simp+

lemma unat_and_mask:
  fixes c :: byte
  shows "unat (c AND 0x3f) = unat c mod 64" "unat (c AND 0x1f) = unat c mod 32"
    "unat (c AND 0xf) = unat c mod 16" "unat (c AND 7) = unat c mod 8"
proof -
  have "c AND 0x3f = take_bit 6 c" "c AND 0x1f = take_bit 5 c" "c AND 0xf = take_bit 4 c" "c AND 7 = take_bit 3 c"
    by (simp_all add: take_bit_eq_mask mask_eq_exp_minus_1)
  then show "unat (c AND 0x3f) = unat c mod 64" "unat (c AND 0x1f) = unat c mod 32"
    "unat (c AND 0xf) = unat c mod 16" "unat (c AND 7) = unat c mod 8"
    by (simp_all add: take_bit_eq_mod unat_mod)
qed

lemma top_bits_test:
  fixes c :: byte
  shows "c AND 0xc0 = 0x80 \<longleftrightarrow> 128 \<le> unat c \<and> unat c < 192"
    and "c AND 0xe0 = 0xc0 \<longleftrightarrow> 192 \<le> unat c \<and> unat c < 224"
    and "c AND 0xf0 = 0xe0 \<longleftrightarrow> 224 \<le> unat c \<and> unat c < 240"
    and "c AND 0xf8 = 0xf0 \<longleftrightarrow> 240 \<le> unat c \<and> unat c < 248"
proof -
  have "(c AND 0xc0 = 0x80 \<longleftrightarrow> 128 \<le> c \<and> c < 192) \<and> (c AND 0xe0 = 0xc0 \<longleftrightarrow> 192 \<le> c \<and> c < 224) \<and>
    (c AND 0xf0 = 0xe0 \<longleftrightarrow> 224 \<le> c \<and> c < 240) \<and> (c AND 0xf8 = 0xf0 \<longleftrightarrow> 240 \<le> c \<and> c < 248)"
    by (rule all_bytesI [of "\<lambda>c. (c AND 0xc0 = 0x80 \<longleftrightarrow> 128 \<le> c \<and> c < 192) \<and>
      (c AND 0xe0 = 0xc0 \<longleftrightarrow> 192 \<le> c \<and> c < 224) \<and> (c AND 0xf0 = 0xe0 \<longleftrightarrow> 224 \<le> c \<and> c < 240) \<and>
      (c AND 0xf8 = 0xf0 \<longleftrightarrow> 240 \<le> c \<and> c < 248)" c]) code_simp
  then show "c AND 0xc0 = 0x80 \<longleftrightarrow> 128 \<le> unat c \<and> unat c < 192"
    and "c AND 0xe0 = 0xc0 \<longleftrightarrow> 192 \<le> unat c \<and> unat c < 224"
    and "c AND 0xf0 = 0xe0 \<longleftrightarrow> 224 \<le> unat c \<and> unat c < 240"
    and "c AND 0xf8 = 0xf0 \<longleftrightarrow> 240 \<le> unat c \<and> unat c < 248"
    by (simp_all add: word_le_nat_alt word_less_nat_alt)
qed

lemma utf8_shift:
  assumes "m < 2 ^ 26" and "k < 64"
  shows "push_bit 6 (of_nat m :: u32) OR of_nat k = of_nat (m * 64 + k)"
proof -
  define w v where "w = (of_nat k :: u32)" and "v = (of_nat m :: u32)"
  have "unat w = k"
    using assms(2) by (simp add: w_def unat_of_nat)
  then have "unat (take_bit 6 w) = unat w"
    using assms(2) by (simp add: take_bit_eq_mod unat_mod)
  then have w: "take_bit 6 w = w"
    by (simp only: word_unat_eq_iff)
  have "push_bit 6 v AND take_bit 6 w = 0"
    by (rule bit_word_eqI) (auto simp: bit_simps)
  then have "push_bit 6 v OR w = push_bit 6 v + w"
    unfolding w by (rule disjunctive_add_eq_or [symmetric])
  then have "push_bit 6 (of_nat m :: u32) OR of_nat k = push_bit 6 (of_nat m) + of_nat k"
    unfolding w_def v_def .
  then show ?thesis by (simp add: push_bit_eq_mult mult.commute)
qed

text \<open>The continuation bytes of the low \<open>6 * k\<close> bits.\<close>

fun cont :: "nat \<Rightarrow> nat \<Rightarrow> byte list" where
  "cont 0 n = []"
| "cont (Suc k) n = of_nat (128 + n div 64 ^ k mod 64) # cont k n"

lemma utf8_tail_step:
  assumes "m < 2 ^ 26"
  shows "utf8_tail (Suc k) (of_nat m) (c # cbs) =
    (if 128 \<le> unat c \<and> unat c < 192 then utf8_tail k (of_nat (m * 64 + (unat c - 128))) cbs else (None, cbs))"
proof -
  have "ucast (c AND 0x3f) = (of_nat (unat c mod 64) :: u32)"
    by (simp only: word_unat_eq_iff) (simp add: unat_and_mask unat_of_nat)
  moreover have "unat c mod 64 = unat c - 128" if "128 \<le> unat c" "unat c < 192"
  proof -
    from that obtain j where j: "unat c = 128 + j" "j < 64" by (auto simp: le_iff_add)
    have "(j + 2 * 64) mod 64 = j mod 64" by (rule mod_mult_self1)
    with j show ?thesis by (simp add: add.commute)
  qed
  moreover define n where "n = m * 64 + (unat c - 128)"
  ultimately have "push_bit 6 (of_nat m) OR ucast (c AND 0x3f) = (of_nat n :: u32)"
    if "128 \<le> unat c" "unat c < 192"
    using that utf8_shift [OF assms, of "unat c mod 64"] by simp
  then show ?thesis
    unfolding n_def [symmetric] by (auto simp: cbs_simps mask_words top_bits_test)
qed

declare utf8_tail.simps(2) [simp del]

lemma utf8_shift_bound:
  assumes "(m + 1) * 64 ^ Suc k \<le> 2 ^ 32"
  shows "m < (2 :: nat) ^ 26"
proof -
  have "(m + 1) * 64 * 1 \<le> (m + 1) * 64 * (64 :: nat) ^ k"
    by (rule mult_left_mono) simp_all
  also have "\<dots> = (m + 1) * 64 ^ Suc k" by (simp only: power_Suc mult.assoc)
  also have "\<dots> \<le> 2 ^ 32" by (rule assms)
  finally show ?thesis by simp
qed

lemma cont_skip: "k \<le> j \<Longrightarrow> cont k (x * 64 ^ j + n) = cont k n"
proof (induction k)
  case (Suc k)
  then obtain i where j: "j = Suc k + i" by (auto simp: le_iff_add)
  have "x * 64 ^ j + n = (64 * (x * 64 ^ i)) * 64 ^ k + n"
    by (simp add: j power_add)
  then have "(x * 64 ^ j + n) div 64 ^ k = ((64 * (x * 64 ^ i)) * 64 ^ k + n) div 64 ^ k"
    by (rule arg_cong)
  also have "\<dots> = 64 * (x * 64 ^ i) + n div 64 ^ k"
    by (rule div_mult_self3) simp
  finally have "(x * 64 ^ j + n) div 64 ^ k mod 64 = n div 64 ^ k mod 64"
    by (simp only: mod_mult_self4)
  then show ?case using Suc by (simp only: cont.simps)
qed simp

lemma utf8_tail_cont:
  assumes "(m + 1) * 64 ^ k \<le> 2 ^ 32"
  shows "utf8_tail k (of_nat m) (cont k n @ rest) = (Some (of_nat (m * 64 ^ k + n mod 64 ^ k)), rest)"
  using assms
proof (induction k arbitrary: m)
  case (Suc k)
  let ?x = "n div 64 ^ k mod 64"
  have x: "?x < 64" by simp
  note m = utf8_shift_bound [OF Suc.prems]
  have "(m * 64 + ?x + 1) * 64 ^ k \<le> (m * 64 + 64) * 64 ^ k"
    using x by (intro mult_right_mono) simp_all
  also have "\<dots> = (m + 1) * 64 ^ Suc k" by (simp add: algebra_simps)
  also note Suc.prems
  finally have IH: "utf8_tail k (of_nat (m * 64 + ?x)) (cont k n @ rest)
      = (Some (of_nat ((m * 64 + ?x) * 64 ^ k + n mod 64 ^ k)), rest)"
    by (rule Suc.IH)
  have u: "unat (of_nat (128 + ?x) :: byte) = 128 + ?x"
    using x by (subst unat_of_nat_byte) simp
  have e: "(m * 64 + ?x) * 64 ^ k + n mod 64 ^ k = m * 64 ^ Suc k + n mod 64 ^ Suc k"
    unfolding power_Suc2 mod_mult2_eq by (simp add: algebra_simps)
  show ?case
    using x IH unfolding e by (simp add: utf8_tail_step [OF m] u del: of_nat_add)
qed simp

lemma utf8_tail_canonical:
  assumes "utf8_tail k (of_nat m) cbs = (Some v, rest)" and "(m + 1) * 64 ^ k \<le> 2 ^ 32"
  shows "\<exists>n < 64 ^ k. cbs = cont k n @ rest \<and> v = of_nat (m * 64 ^ k + n)"
  using assms
proof (induction k arbitrary: m cbs)
  case (Suc k)
  note m = utf8_shift_bound [OF Suc.prems(2)]
  obtain c cs where cbs: "cbs = c # cs"
    using Suc.prems(1) by (cases cbs) (auto simp: utf8_tail.simps cbs_simps)
  let ?x = "unat c - 128"
  have c: "128 \<le> unat c" "unat c < 192" "utf8_tail k (of_nat (m * 64 + ?x)) cs = (Some v, rest)"
    using Suc.prems(1) unfolding cbs utf8_tail_step [OF m] by (simp_all only: split: if_splits) simp_all
  have x: "?x < 64" "128 + ?x = unat c" using c by auto
  have "(m * 64 + ?x + 1) * 64 ^ k \<le> (m * 64 + 64) * 64 ^ k"
    using x by (intro mult_right_mono) simp_all
  also have "\<dots> = (m + 1) * 64 ^ Suc k" by (simp add: algebra_simps)
  also note Suc.prems(2)
  finally obtain n where n: "n < 64 ^ k" "cs = cont k n @ rest" "v = of_nat ((m * 64 + ?x) * 64 ^ k + n)"
    using Suc.IH [OF c(3)] by blast
  have w: "(of_nat (128 + ?x) :: byte) = c"
    by (simp only: x(2) of_nat_unat ucast_id)
  have "(?x * 64 ^ k + n) div 64 ^ k = ?x"
    using n(1) by simp
  then have "cont (Suc k) (?x * 64 ^ k + n) = c # cont k n"
    using x(1) w cont_skip [of k k ?x n] by simp
  moreover have "?x * 64 ^ k + n < 64 ^ Suc k"
  proof -
    have "?x * 64 ^ k + n < (?x + 1) * 64 ^ k" using n(1) by simp
    also have "\<dots> \<le> 64 * 64 ^ k" using x(1) by (intro mult_right_mono) simp_all
    finally show ?thesis by simp
  qed
  moreover have "m * 64 ^ Suc k + (?x * 64 ^ k + n) = (m * 64 + ?x) * 64 ^ k + n"
    by (simp add: algebra_simps)
  then have "v = of_nat (m * 64 ^ Suc k + (?x * 64 ^ k + n))"
    by (simp only: n(3))
  ultimately show ?case
    unfolding cbs n(2) by (intro exI [of _ "?x * 64 ^ k + n"]) (simp only: append_Cons simp_thms)
qed auto


section \<open>The octets of a code point\<close>

definition utf8_head :: "nat \<Rightarrow> nat" where
  "utf8_head u =
     (if u < 0x80 then u else if u < 0x800 then 192 + u div 64
      else if u < 0x10000 then 224 + u div 64 ^ 2 else 240 + u div 64 ^ 3)"

definition utf8_extra :: "nat \<Rightarrow> nat" where
  "utf8_extra u = (if u < 0x80 then 0 else if u < 0x800 then 1 else if u < 0x10000 then 2 else 3)"

definition utf8 :: "nat \<Rightarrow> byte list" where
  "utf8 u = of_nat (utf8_head u) # cont (utf8_extra u) u"

lemma length_cont [simp]: "length (cont k n) = k"
  by (induction k) auto

lemma valid_bound: "is_valid_code_point v \<Longrightarrow> unat v \<le> 0x10ffff"
  by (simp add: is_valid_code_point_def word_less_nat_alt not_less)

lemma utf8_head_byte: "u \<le> 0x10ffff \<Longrightarrow> utf8_head u < 256"
  by (auto simp: utf8_head_def)

lemma utf8_Cons:
  assumes "u \<le> 0x10ffff"
  shows "c # cs = utf8 u @ rest \<longleftrightarrow> unat c = utf8_head u \<and> cs = cont (utf8_extra u) u @ rest"
  using utf8_head_byte [OF assms] by (auto simp: utf8_def word_unat_eq_iff unat_of_nat_byte)

lemma cont_read:
  assumes "(m + 1) * 64 ^ k \<le> 2 ^ 32"
  shows "utf8_tail k (of_nat m) cbs = (Some v, rest) \<longleftrightarrow> unat v div 64 ^ k = m \<and> cbs = cont k (unat v) @ rest"
proof
  assume "utf8_tail k (of_nat m) cbs = (Some v, rest)"
  then obtain n where n: "n < 64 ^ k" "cbs = cont k n @ rest" "v = of_nat (m * 64 ^ k + n)"
    using utf8_tail_canonical assms by blast
  have "m * 64 ^ k + n < (m + 1) * 64 ^ k" using n(1) by simp
  also note assms
  finally have "unat v = m * 64 ^ k + n"
    unfolding n(3) by (subst unat_of_nat) simp
  then show "unat v div 64 ^ k = m \<and> cbs = cont k (unat v) @ rest"
    using n(1,2) cont_skip [of k k m n] by simp
next
  assume *: "unat v div 64 ^ k = m \<and> cbs = cont k (unat v) @ rest"
  then have "m * 64 ^ k + unat v mod 64 ^ k = unat v"
    using div_mult_mod_eq [of "unat v" "64 ^ k"] by simp
  then show "utf8_tail k (of_nat m) cbs = (Some v, rest)"
    using utf8_tail_cont [OF assms, of "unat v" rest] * by (simp del: of_nat_add of_nat_mult)
qed

lemma utf8_lead_cases:
  "utf8_lead c =
     (if 192 \<le> unat c \<and> unat c < 224 then Some (of_nat (unat c - 192), 1, 0x80)
      else if 224 \<le> unat c \<and> unat c < 240 then Some (of_nat (unat c - 224), 2, 0x800)
      else if 240 \<le> unat c \<and> unat c < 248 then Some (of_nat (unat c - 240), 3, 0x10000)
      else None)"
proof -
  have m: "unat c mod 32 = unat c - 192" if "192 \<le> unat c" "unat c < 224"
  proof -
    define j where "j = unat c - 6 * 32"
    have "unat c = j + 6 * 32" "j < 32" using that by (auto simp: j_def)
    then show ?thesis by (simp only: mod_mult_self1) simp
  qed
  have m2: "unat c mod 16 = unat c - 224" if "224 \<le> unat c" "unat c < 240"
  proof -
    define j where "j = unat c - 14 * 16"
    have "unat c = j + 14 * 16" "j < 16" using that by (auto simp: j_def)
    then show ?thesis by (simp only: mod_mult_self1) simp
  qed
  have m3: "unat c mod 8 = unat c - 240" if "240 \<le> unat c" "unat c < 248"
  proof -
    define j where "j = unat c - 30 * 8"
    have "unat c = j + 30 * 8" "j < 8" using that by (auto simp: j_def)
    then show ?thesis by (simp only: mod_mult_self1) simp
  qed
  have u: "ucast (c AND 0x1f) = (of_nat (unat c mod 32) :: u32)" "ucast (c AND 0xf) = (of_nat (unat c mod 16) :: u32)"
    "ucast (c AND 7) = (of_nat (unat c mod 8) :: u32)"
    by (simp_all only: word_unat_eq_iff) (simp_all add: unat_and_mask unat_of_nat)
  show ?thesis
    unfolding utf8_lead_def mask_words top_bits_test u
    by (simp only: m m2 m3 cong: if_cong)
qed


lemma byte_valid [simp]: "is_valid_code_point (ucast (c :: byte))"
proof -
  have "unat (ucast c :: u32) < 256" by simp
  moreover have "ucast c AND 0xfffe \<noteq> (0xfffe :: u32)"
  proof
    assume "ucast c AND 0xfffe = (0xfffe :: u32)"
    moreover have "bit (0xfffe :: u32) 15" by simp
    ultimately have "bit (ucast c :: u32) 15" by (metis bit_and_iff)
    then show False by (auto simp: bit_simps dest: bit_imp_le_length)
  qed
  ultimately show ?thesis
    by (simp add: is_valid_code_point_def word_less_nat_alt word_le_nat_alt not_less not_le del: unat_ucast_up)
qed

lemma cbs_get_utf8_iff:
  "cbs_get_utf8 cbs = (Some v, rest) \<longleftrightarrow> is_valid_code_point v \<and> cbs = utf8 (unat v) @ rest"
proof (cases cbs)
  case Nil
  then show ?thesis by (simp add: cbs_get_utf8_def cbs_simps utf8_def)
next
  case (Cons c cs)
  let ?u = "unat v"
  have multi: "cbs_get_utf8 (c # cs) = (Some v, rest) \<longleftrightarrow>
      is_valid_code_point v \<and> unat L \<le> ?u \<and> ?u div 64 ^ k = m \<and> cs = cont k ?u @ rest"
    if "128 \<le> unat c" "utf8_lead c = Some (of_nat m, k, L)" "(m + 1) * 64 ^ k \<le> 2 ^ 32" for m k L
    using that cont_read [OF that(3), of cs v rest]
    by (auto simp: cbs_get_utf8_def cbs_simps word_less_nat_alt word_le_nat_alt not_less split: option.splits prod.splits if_splits)
  show ?thesis
  proof (cases "is_valid_code_point v")
    case False
    then show ?thesis
      by (auto simp: Cons cbs_get_utf8_def cbs_simps split: option.splits prod.splits if_splits)
  next
    case True
    note u = valid_bound [OF True]
    consider "unat c < 128" | "192 \<le> unat c" "unat c < 224" | "224 \<le> unat c" "unat c < 240"
      | "240 \<le> unat c" "unat c < 248" | "128 \<le> unat c" "unat c < 192 \<or> 248 \<le> unat c"
      by linarith
    then show ?thesis
    proof cases
      case 1
      then have "unat c = utf8_head ?u \<longleftrightarrow> v = ucast c"
        using u unfolding utf8_head_def by (auto simp: word_unat_eq_iff)
      moreover have "cs = cont (utf8_extra ?u) ?u @ rest \<longleftrightarrow> cs = rest" if "v = ucast c"
        using 1 that by (simp add: utf8_extra_def)
      moreover have "cbs_get_utf8 (c # cs) = (Some v, rest) \<longleftrightarrow> v = ucast c \<and> cs = rest"
        using 1 by (auto simp: cbs_get_utf8_def cbs_simps word_le_nat_alt)
      ultimately show ?thesis
        using True unfolding Cons utf8_Cons [OF u] by blast
    next
      case 2
      then have *: "unat c = utf8_head ?u \<longleftrightarrow> 128 \<le> ?u \<and> ?u div 64 ^ 1 = unat c - 192"
        using u unfolding utf8_head_def by auto
      have **: "utf8_extra ?u = 1" if "128 \<le> ?u \<and> ?u div 64 ^ 1 = unat c - 192"
        using that 2 u unfolding utf8_extra_def by auto
      have "cbs_get_utf8 (c # cs) = (Some v, rest) \<longleftrightarrow>
         is_valid_code_point v \<and> unat (0x80 :: u32) \<le> ?u \<and> ?u div 64 ^ 1 = unat c - 192 \<and> cs = cont 1 ?u @ rest"
        by (rule multi) (use 2 in \<open>simp_all add: utf8_lead_cases\<close>)
      then show ?thesis
        unfolding Cons utf8_Cons [OF u] * by (auto simp del: cont.simps simp: **)
    next
      case 3
      then have *: "unat c = utf8_head ?u \<longleftrightarrow> 0x800 \<le> ?u \<and> ?u div 64 ^ 2 = unat c - 224"
        using u unfolding utf8_head_def by auto
      have **: "utf8_extra ?u = 2" if "0x800 \<le> ?u \<and> ?u div 64 ^ 2 = unat c - 224"
        using that 3 u unfolding utf8_extra_def by auto
      have "cbs_get_utf8 (c # cs) = (Some v, rest) \<longleftrightarrow>
         is_valid_code_point v \<and> unat (0x800 :: u32) \<le> ?u \<and> ?u div 64 ^ 2 = unat c - 224 \<and> cs = cont 2 ?u @ rest"
        by (rule multi) (use 3 in \<open>simp_all add: utf8_lead_cases\<close>)
      then show ?thesis
        unfolding Cons utf8_Cons [OF u] * by (auto simp del: cont.simps simp: **)
    next
      case 4
      then have *: "unat c = utf8_head ?u \<longleftrightarrow> 0x10000 \<le> ?u \<and> ?u div 64 ^ 3 = unat c - 240"
        using u unfolding utf8_head_def by auto
      have **: "utf8_extra ?u = 3" if "0x10000 \<le> ?u \<and> ?u div 64 ^ 3 = unat c - 240"
        using that 4 u unfolding utf8_extra_def by auto
      have "cbs_get_utf8 (c # cs) = (Some v, rest) \<longleftrightarrow>
         is_valid_code_point v \<and> unat (0x10000 :: u32) \<le> ?u \<and> ?u div 64 ^ 3 = unat c - 240 \<and> cs = cont 3 ?u @ rest"
        by (rule multi) (use 4 in \<open>simp_all add: utf8_lead_cases\<close>)
      then show ?thesis
        unfolding Cons utf8_Cons [OF u] * by (auto simp del: cont.simps simp: **)
    next
      case 5
      then have "utf8_lead c = None" by (auto simp: utf8_lead_cases)
      moreover have "unat c \<noteq> utf8_head ?u"
        using 5 u by (auto simp: utf8_head_def)
      ultimately show ?thesis
        using 5 unfolding Cons utf8_Cons [OF u] by (simp add: cbs_get_utf8_def cbs_simps word_le_nat_alt)
    qed
  qed
qed


interpretation utf8_codec: nonempty_codec "\<lambda>v. utf8 (unat v)" cbs_get_utf8 is_valid_code_point
  by unfold_locales (simp_all add: cbs_get_utf8_iff utf8_def)

lemma or_is_add:
  fixes x :: byte
  shows "unat x < 32 \<Longrightarrow> 0xc0 OR x = 0xc0 + x" and "unat x < 16 \<Longrightarrow> 0xe0 OR x = 0xe0 + x"
    and "unat x < 8 \<Longrightarrow> 0xf0 OR x = 0xf0 + x" and "unat x < 64 \<Longrightarrow> 0x80 OR x = 0x80 + x"
proof -
  have "(x < 32 \<longrightarrow> 0xc0 OR x = 0xc0 + x) \<and> (x < 16 \<longrightarrow> 0xe0 OR x = 0xe0 + x) \<and>
    (x < 8 \<longrightarrow> 0xf0 OR x = 0xf0 + x) \<and> (x < 64 \<longrightarrow> 0x80 OR x = 0x80 + x)"
    by (rule all_bytesI [of "\<lambda>x. (x < 32 \<longrightarrow> 0xc0 OR x = 0xc0 + x) \<and> (x < 16 \<longrightarrow> 0xe0 OR x = 0xe0 + x) \<and>
      (x < 8 \<longrightarrow> 0xf0 OR x = 0xf0 + x) \<and> (x < 64 \<longrightarrow> 0x80 OR x = 0x80 + x)" x]) code_simp
  then show "unat x < 32 \<Longrightarrow> 0xc0 OR x = 0xc0 + x" and "unat x < 16 \<Longrightarrow> 0xe0 OR x = 0xe0 + x"
    and "unat x < 8 \<Longrightarrow> 0xf0 OR x = 0xf0 + x" and "unat x < 64 \<Longrightarrow> 0x80 OR x = 0x80 + x"
    by (simp_all add: word_less_nat_alt)
qed

lemma unat_shifted_byte: "unat (ucast (drop_bit (6 * k) u) :: byte) = unat (u :: u32) div 64 ^ k mod 256"
proof -
  have "unat (drop_bit (6 * k) u) = unat u div 64 ^ k"
    by (simp add: unat_drop_bit_div power_mult)
  then show ?thesis
    by (simp add: unsigned_ucast_eq take_bit_eq_mod)
qed

lemma cont_octet: "TOP_BITS 1 OR (ucast (drop_bit (6 * k) u) AND BOTTOM_BITS 6) = of_nat (128 + unat (u :: u32) div 64 ^ k mod 64)"
proof -
  let ?x = "ucast (drop_bit (6 * k) u) AND 0x3f :: byte"
  have "unat ?x = unat u div 64 ^ k mod 256 mod 64"
    by (simp only: unat_and_mask unat_shifted_byte)
  also have "\<dots> = unat u div 64 ^ k mod 64"
    by (rule mod_mod_cancel) simp
  finally have x: "unat ?x = unat u div 64 ^ k mod 64" .
  then have "?x = of_nat (unat u div 64 ^ k mod 64)"
    by (metis of_nat_unat ucast_id)
  then show ?thesis
    using or_is_add(4) [of ?x] x by (simp add: mask_words)
qed

lemma lead_octet:
  "unat (u :: u32) div 64 ^ 1 < 32 \<Longrightarrow> TOP_BITS 2 OR ucast (drop_bit 6 u) = of_nat (192 + unat u div 64 ^ 1)"
  "unat u div 64 ^ 2 < 16 \<Longrightarrow> TOP_BITS 3 OR ucast (drop_bit 12 u) = of_nat (224 + unat u div 64 ^ 2)"
  "unat u div 64 ^ 3 < 8 \<Longrightarrow> TOP_BITS 4 OR ucast (drop_bit 18 u) = of_nat (240 + unat u div 64 ^ 3)"
proof -
  have x: "(ucast (drop_bit (6 * k) u) :: byte) = of_nat (unat u div 64 ^ k)" for k
    by (simp only: word_unat_eq_iff unat_shifted_byte unat_of_nat_byte)
  have lt: "unat (of_nat m :: byte) = m" if "m < 32" for m
    using that by (simp add: unat_of_nat)
  show "unat (u :: u32) div 64 ^ 1 < 32 \<Longrightarrow> TOP_BITS 2 OR ucast (drop_bit 6 u) = of_nat (192 + unat u div 64 ^ 1)"
    using x [of 1] or_is_add(1) [of "of_nat (unat u div 64 ^ 1)"] lt [of "unat u div 64 ^ 1"] by (simp add: mask_words)
  show "unat u div 64 ^ 2 < 16 \<Longrightarrow> TOP_BITS 3 OR ucast (drop_bit 12 u) = of_nat (224 + unat u div 64 ^ 2)"
    using x [of 2] or_is_add(2) [of "of_nat (unat u div 64 ^ 2)"] lt [of "unat u div 64 ^ 2"] by (simp add: mask_words)
  show "unat u div 64 ^ 3 < 8 \<Longrightarrow> TOP_BITS 4 OR ucast (drop_bit 18 u) = of_nat (240 + unat u div 64 ^ 3)"
    using x [of 3] or_is_add(3) [of "of_nat (unat u div 64 ^ 3)"] lt [of "unat u div 64 ^ 3"] by (simp add: mask_words)
qed


lemma emits_fail: "emits d fail bs False"
  by (rule emitsI) (auto simp: fail_def)

lemma emits_add_utf8 [emits_rules]: "emits d (cbb_add_utf8 d v) (utf8 (unat v)) (is_valid_code_point v)"
proof (cases "is_valid_code_point v")
  case False
  then show ?thesis by (simp add: cbb_add_utf8_def emits_fail)
next
  case True
  note u = valid_bound [OF True]
  have es: "emits d (and_then (CBB_add_u8 d x) f) (x # xs) True" if "emits d f xs True" for x f xs
    using emits_and_then [OF emits_add_u8 that, of x] by simp
  have o: "TOP_BITS 1 OR (ucast v AND BOTTOM_BITS 6) = of_nat (128 + unat v mod 64)"
    "TOP_BITS 1 OR (ucast (drop_bit 6 v) AND BOTTOM_BITS 6) = of_nat (128 + unat v div 64 mod 64)"
    "TOP_BITS 1 OR (ucast (drop_bit 12 v) AND BOTTOM_BITS 6) = of_nat (128 + unat v div 64 ^ 2 mod 64)"
    using cont_octet [of 0 v] cont_octet [of 1 v] cont_octet [of 2 v] by simp_all
  have w: "v \<le> 0x7f \<longleftrightarrow> unat v < 0x80" "v \<le> 0x7ff \<longleftrightarrow> unat v < 0x800" "v \<le> 0xffff \<longleftrightarrow> unat v < 0x10000"
    "v \<le> 0x10ffff"
    using u by (auto simp: word_le_nat_alt)
  have c: "cont 1 (unat v) = [of_nat (128 + unat v mod 64)]"
    "cont 2 (unat v) = [of_nat (128 + unat v div 64 mod 64), of_nat (128 + unat v mod 64)]"
    "cont 3 (unat v) = [of_nat (128 + unat v div 64 ^ 2 mod 64), of_nat (128 + unat v div 64 mod 64), of_nat (128 + unat v mod 64)]"
    by (simp_all add: numeral_2_eq_2 numeral_3_eq_3)
  consider "unat v < 0x80" | "0x80 \<le> unat v" "unat v < 0x800" | "0x800 \<le> unat v" "unat v < 0x10000" | "0x10000 \<le> unat v"
    by linarith
  then show ?thesis
  proof cases
    case 1
    then have "utf8 (unat v) = [ucast v]"
      by (simp add: utf8_def utf8_head_def utf8_extra_def)
    with 1 True emits_add_u8 [of d "ucast v"] show ?thesis by (simp add: cbb_add_utf8_def w)
  next
    case 2
    then have "utf8 (unat v) = of_nat (192 + unat v div 64 ^ 1) # cont 1 (unat v)" "unat v div 64 ^ 1 < 32"
      by (auto simp: utf8_def utf8_head_def utf8_extra_def)
    moreover from 2 have "\<not> unat v < 0x80" by simp
    ultimately show ?thesis
      using 2 True unfolding cbb_add_utf8_def w c
      by (simp only: if_True if_False simp_thms lead_octet o) (intro es emits_add_u8)
  next
    case 3
    then have "utf8 (unat v) = of_nat (224 + unat v div 64 ^ 2) # cont 2 (unat v)" "unat v div 64 ^ 2 < 16"
      by (auto simp: utf8_def utf8_head_def utf8_extra_def)
    moreover from 3 have "\<not> unat v < 0x80" "\<not> unat v < 0x800" by simp_all
    ultimately show ?thesis
      using 3 True unfolding cbb_add_utf8_def w c
      by (simp only: if_True if_False simp_thms lead_octet o) (intro es emits_add_u8)
  next
    case 4
    then have "utf8 (unat v) = of_nat (240 + unat v div 64 ^ 3) # cont 3 (unat v)" "unat v div 64 ^ 3 < 8"
      using u by (auto simp: utf8_def utf8_head_def utf8_extra_def)
    moreover from 4 have "\<not> unat v < 0x80" "\<not> unat v < 0x800" "\<not> unat v < 0x10000" by simp_all
    ultimately show ?thesis
      using 4 w(4) True unfolding cbb_add_utf8_def w(1-3) c
      by (simp only: if_True if_False simp_thms lead_octet o) (intro es emits_add_u8)
  qed
qed

lemma cbb_get_utf8_len_eq: "cbb_get_utf8_len v = length (utf8 (unat v))"
  by (simp add: cbb_get_utf8_len_def utf8_def utf8_extra_def word_le_nat_alt)

section \<open>The other encodings\<close>

lemma emits_add_latin1 [emits_rules]: "emits d (cbb_add_latin1 d v) [ucast v] (unat v < 256)"
  using emits_mono [OF emits_add_u8 [of d "ucast v"], of "unat v < 256"]
  by (cases "v \<le> 0xff") (auto simp: cbb_add_latin1_def word_le_nat_alt emits_fail)

lemma emits_add_ucs2 [emits_rules]:
  "emits d (cbb_add_ucs2_be d v) (be_bytes 2 (unat v)) (unat v < 2 ^ 16 \<and> is_valid_code_point v)"
proof (cases "unat v < 2 ^ 16 \<and> is_valid_code_point v")
  case True
  then have "unat (ucast v :: u16) = unat v"
    by (simp add: unsigned_ucast_eq take_bit_eq_mod)
  with True show ?thesis
    using emits_add_u16 [of d "ucast v"] by (simp add: cbb_add_ucs2_be_def word_le_nat_alt)
next
  case False
  then have "cbb_add_ucs2_be d v = fail" by (auto simp: cbb_add_ucs2_be_def word_le_nat_alt)
  with False show ?thesis using emits_fail by (simp only: simp_thms if_False)
qed

lemma emits_add_utf32 [emits_rules]:
  "emits d (cbb_add_utf32_be d v) (be_bytes 4 (unat v)) (is_valid_code_point v)"
  by (auto simp: cbb_add_utf32_be_def emits_fail emits_add_u32)

lemma cbs_get_latin1_iff: "cbs_get_latin1 cbs = (Some v, rest) \<longleftrightarrow> unat v < 256 \<and> cbs = ucast v # rest"
proof (cases cbs)
  case (Cons c cs)
  have "v = ucast c \<longleftrightarrow> unat v < 256 \<and> c = ucast v"
  proof
    assume v: "unat v < 256 \<and> c = ucast v"
    then have "unat c = unat v" by (simp add: unsigned_ucast_eq take_bit_eq_mod)
    then show "v = ucast c" by (simp add: word_unat_eq_iff)
  next
    assume "v = ucast c"
    then show "unat v < 256 \<and> c = ucast v" by (simp add: ucast_ucast_up)
  qed
  then show ?thesis by (auto simp: Cons cbs_get_latin1_def cbs_simps)
qed (simp add: cbs_get_latin1_def cbs_simps)

lemma cbs_get_ucs2_iff:
  "cbs_get_ucs2_be cbs = (Some v, rest) \<longleftrightarrow>
    is_valid_code_point v \<and> unat v < 2 ^ 16 \<and> cbs = be_bytes 2 (unat v) @ rest"
proof
  assume "cbs_get_ucs2_be cbs = (Some v, rest)"
  then obtain c where c: "CBS_get_u16 cbs = (Some c, rest)" "is_valid_code_point (ucast c)" "v = ucast c"
    by (auto simp: cbs_get_ucs2_be_def split: option.splits prod.splits if_splits)
  then show "is_valid_code_point v \<and> unat v < 2 ^ 16 \<and> cbs = be_bytes 2 (unat v) @ rest"
    using u16_codec.put_get [OF c(1)] by simp
next
  assume *: "is_valid_code_point v \<and> unat v < 2 ^ 16 \<and> cbs = be_bytes 2 (unat v) @ rest"
  then have u: "unat (ucast v :: u16) = unat v"
    by (simp add: unsigned_ucast_eq take_bit_eq_mod)
  then have "ucast (ucast v :: u16) = v" by (simp add: word_unat_eq_iff)
  then show "cbs_get_ucs2_be cbs = (Some v, rest)"
    using * u u16_codec.get_put [of "ucast v" rest] by (simp add: cbs_get_ucs2_be_def)
qed

lemma cbs_get_utf32_iff:
  "cbs_get_utf32_be cbs = (Some v, rest) \<longleftrightarrow> is_valid_code_point v \<and> cbs = be_bytes 4 (unat v) @ rest"
proof -
  have "unat v < 256 ^ 4" using unsigned_less [of v, where 'a = nat] by simp
  then show ?thesis
    using u32_codec.get_iff [of cbs v rest]
    by (auto simp: cbs_get_utf32_be_def split: option.splits prod.splits if_splits)
qed

interpretation ucs2_codec: codec "\<lambda>v. be_bytes 2 (unat v)" cbs_get_ucs2_be "\<lambda>v. is_valid_code_point v \<and> unat v < 2 ^ 16"
  by unfold_locales (simp_all add: cbs_get_ucs2_iff)

interpretation utf32_codec: codec "\<lambda>v. be_bytes 4 (unat v)" cbs_get_utf32_be is_valid_code_point
  by unfold_locales (simp_all add: cbs_get_utf32_iff)

section \<open>Properties\<close>


text \<open>Latin-1, UCS-2 and UTF-32 are canonical as well: each reader accepts exactly the octets the
  writer of the same encoding emits, on the same range of code points.\<close>

theorem fixed_width_encodings:
  "(cbs_get_latin1 cbs = (Some u, rest) \<longleftrightarrow> unat u < 256 \<and> cbs = ucast u # rest) \<and>
   emits d (cbb_add_latin1 d u) [ucast u] (unat u < 256) \<and>
   (cbs_get_ucs2_be cbs = (Some v, rest) \<longleftrightarrow>
      is_valid_code_point v \<and> unat v < 2 ^ 16 \<and> cbs = be_bytes 2 (unat v) @ rest) \<and>
   emits d (cbb_add_ucs2_be d v) (be_bytes 2 (unat v)) (unat v < 2 ^ 16 \<and> is_valid_code_point v) \<and>
   (cbs_get_utf32_be cbs = (Some w, rest) \<longleftrightarrow> is_valid_code_point w \<and> cbs = be_bytes 4 (unat w) @ rest) \<and>
   emits d (cbb_add_utf32_be d w) (be_bytes 4 (unat w)) (is_valid_code_point w)"
  by (intro conjI cbs_get_latin1_iff cbs_get_ucs2_iff cbs_get_utf32_iff emits_add_latin1 emits_add_ucs2 emits_add_utf32)

end
