(* ===== verification/Const_Time.thy ===== *)
theory Const_Time
  imports Prelude
begin

text \<open>
  The constant-time helpers of \<open>crypto/internal.h\<close> on 64-bit words (\<open>OPENSSL_64_BIT\<close>): masks instead
  of branches.  Each is proved to compute the comparison it stands for, which the source only
  argues in comments.  The value barriers are the identity.
\<close>

section \<open>Operations\<close>

type_synonym crypto_word = u64

definition value_barrier_w :: "crypto_word \<Rightarrow> crypto_word" where
  "value_barrier_w a = a"

definition constant_time_msb_w :: "crypto_word \<Rightarrow> crypto_word" where
  "constant_time_msb_w a = 0 - drop_bit 63 a"

definition constant_time_lt_w :: "crypto_word \<Rightarrow> crypto_word \<Rightarrow> crypto_word" where
  "constant_time_lt_w a b = constant_time_msb_w (a XOR ((a XOR b) OR ((a - b) XOR a)))"

definition constant_time_lt_8 :: "crypto_word \<Rightarrow> crypto_word \<Rightarrow> byte" where
  "constant_time_lt_8 a b = ucast (constant_time_lt_w a b)"

definition constant_time_ge_w :: "crypto_word \<Rightarrow> crypto_word \<Rightarrow> crypto_word" where
  "constant_time_ge_w a b = NOT (constant_time_lt_w a b)"

definition constant_time_ge_8 :: "crypto_word \<Rightarrow> crypto_word \<Rightarrow> byte" where
  "constant_time_ge_8 a b = ucast (constant_time_ge_w a b)"

definition constant_time_is_zero_w :: "crypto_word \<Rightarrow> crypto_word" where
  "constant_time_is_zero_w a = constant_time_msb_w (NOT a AND (a - 1))"

definition constant_time_is_zero_8 :: "crypto_word \<Rightarrow> byte" where
  "constant_time_is_zero_8 a = ucast (constant_time_is_zero_w a)"

definition constant_time_eq_w :: "crypto_word \<Rightarrow> crypto_word \<Rightarrow> crypto_word" where
  "constant_time_eq_w a b = constant_time_is_zero_w (a XOR b)"

definition constant_time_eq_8 :: "crypto_word \<Rightarrow> crypto_word \<Rightarrow> byte" where
  "constant_time_eq_8 a b = ucast (constant_time_eq_w a b)"

text \<open>An \<open>int\<close> argument is a 32-bit word; the cast to \<open>crypto_word_t\<close> extends its sign.\<close>

definition constant_time_eq_int :: "u32 \<Rightarrow> u32 \<Rightarrow> crypto_word" where
  "constant_time_eq_int a b = constant_time_eq_w (scast a) (scast b)"

definition constant_time_eq_int_8 :: "u32 \<Rightarrow> u32 \<Rightarrow> byte" where
  "constant_time_eq_int_8 a b = constant_time_eq_8 (scast a) (scast b)"

definition constant_time_select_w :: "crypto_word \<Rightarrow> crypto_word \<Rightarrow> crypto_word \<Rightarrow> crypto_word" where
  "constant_time_select_w mask_w a b = (value_barrier_w mask_w AND a) OR (value_barrier_w (NOT mask_w) AND b)"

definition constant_time_select_8 :: "byte \<Rightarrow> byte \<Rightarrow> byte \<Rightarrow> byte" where
  "constant_time_select_8 mask_8 a b = ucast (constant_time_select_w (ucast mask_8) (ucast a) (ucast b))"

definition constant_time_select_int :: "crypto_word \<Rightarrow> u32 \<Rightarrow> u32 \<Rightarrow> u32" where
  "constant_time_select_int mask_w a b = ucast (constant_time_select_w mask_w (scast a) (scast b))"

section \<open>The masks\<close>

abbreviation truth :: "bool \<Rightarrow> 'a::len word" where
  "truth b \<equiv> (if b then - 1 else 0)"

lemma bit63: "bit (w :: u64) 63 \<longleftrightarrow> 2 ^ 63 \<le> unat w"
proof -
  have "bit w 63 \<longleftrightarrow> odd (unat w div 2 ^ 63)"
    by (simp only: bit_iff_odd [symmetric] bit_unsigned_iff) simp
  moreover have "unat w div 2 ^ 63 < 2"
    using u64_bound [of w] by auto
  then have "odd (unat w div 2 ^ 63) \<longleftrightarrow> unat w div 2 ^ 63 = 1"
    by (auto simp: less_2_cases_iff)
  moreover have "unat w div 2 ^ 63 = 1 \<longleftrightarrow> 2 ^ 63 \<le> unat w"
    using \<open>unat w div 2 ^ 63 < 2\<close> by (auto simp: div_eq_dividend_iff less_2_cases_iff)
  ultimately show ?thesis by simp
qed

lemma constant_time_msb_w_eq: "constant_time_msb_w a = truth (bit a 63)"
proof -
  have "bit a (63 + n) \<longleftrightarrow> n = 0 \<and> bit a 63" for n
    using bit_imp_le_length [of a "63 + n"] by (cases n) auto
  then have "drop_bit 63 a = of_bool (bit a 63)"
    by (intro bit_word_eqI) (auto simp: bit_simps)
  then show ?thesis by (simp add: constant_time_msb_w_def)
qed

lemma bit63_diff: "\<not> bit a 63 \<Longrightarrow> \<not> bit b 63 \<Longrightarrow> bit (a - b) 63 \<longleftrightarrow> a < (b :: u64)"
  using u64_bound [of a] u64_bound [of b]
  by (auto simp: bit63 word_less_nat_alt unat_sub_if_size size_word.rep_eq word_le_nat_alt)

lemma constant_time_lt_w_eq: "constant_time_lt_w a b = truth (a < b)"
proof -
  have "bit (a XOR ((a XOR b) OR ((a - b) XOR a))) 63 \<longleftrightarrow>
      (if bit a 63 = bit b 63 then bit (a - b) 63 else bit b 63)"
    by (auto simp: bit_simps)
  also have "\<dots> \<longleftrightarrow> a < b"
    using u64_bound [of a] u64_bound [of b]
    by (auto simp: bit63 word_less_nat_alt unat_sub_if_size size_word.rep_eq word_le_nat_alt)
  finally show ?thesis
    by (simp add: constant_time_lt_w_def constant_time_msb_w_eq)
qed

lemma constant_time_is_zero_w_eq: "constant_time_is_zero_w a = truth (a = 0)"
proof -
  have "bit (NOT a AND (a - 1)) 63 \<longleftrightarrow> \<not> bit a 63 \<and> bit (a - 1) 63"
    by (simp add: bit_simps)
  also have "\<dots> \<longleftrightarrow> a = 0"
    using u64_bound [of a]
    by (auto simp: bit63 unat_sub_if_size size_word.rep_eq word_le_nat_alt unat_eq_0 simp flip: unat_eq_0)
  finally show ?thesis
    by (simp add: constant_time_is_zero_w_def constant_time_msb_w_eq)
qed

lemma constant_time_eq_w_eq: "constant_time_eq_w a b = truth (a = b)"
proof -
  have "a XOR b = 0 \<longleftrightarrow> a = b"
    by (auto simp: bit_eq_iff bit_simps)
  then show ?thesis by (simp only: constant_time_eq_w_def constant_time_is_zero_w_eq)
qed

lemma ucast_minus_1 [simp]: "ucast (- 1 :: u64) = (- 1 :: byte)"
  by (rule bit_word_eqI) (simp add: bit_simps)

lemma constant_time_eq_8_eq: "constant_time_eq_8 a b = truth (a = b)"
  by (simp add: constant_time_eq_8_def constant_time_eq_w_eq)

lemma constant_time_select_w_eq: "constant_time_select_w (truth c) a b = (if c then a else b)"
  by (simp add: constant_time_select_w_def value_barrier_w_def)

lemma constant_time_select_8_eq: "constant_time_select_8 (truth c) a b = (if c then a else b)"
  by (rule bit_word_eqI) (auto simp: constant_time_select_8_def constant_time_select_w_def value_barrier_w_def bit_simps)

lemma constant_time_select_masks [simp]:
  "constant_time_select_8 (- 1) a b = a" "constant_time_select_8 0 a b = b"
  "constant_time_select_w (- 1) x y = x" "constant_time_select_w 0 x y = y"
  using constant_time_select_8_eq [of True a b] constant_time_select_8_eq [of False a b]
    constant_time_select_w_eq [of True x y] constant_time_select_w_eq [of False x y]
  by simp_all

section \<open>Properties\<close>

text \<open>C38: Each constant-time comparison is the all-ones or the zero word, as the comparison holds or
  not, and selecting by such a mask is a conditional.\<close>

theorem constant_time_comparisons:
  "constant_time_lt_w a b = (if a < b then - 1 else 0) \<and> constant_time_ge_w a b = (if a \<ge> b then - 1 else 0) \<and>
   constant_time_is_zero_w a = (if a = 0 then - 1 else 0) \<and> constant_time_eq_w a b = (if a = b then - 1 else 0) \<and>
   constant_time_lt_8 a b = (if a < b then - 1 else 0) \<and> constant_time_ge_8 a b = (if a \<ge> b then - 1 else 0) \<and>
   constant_time_eq_8 a b = (if a = b then - 1 else 0) \<and>
   constant_time_eq_int i j = (if i = j then - 1 else 0) \<and> constant_time_eq_int_8 i j = (if i = j then - 1 else 0) \<and>
   constant_time_select_w (constant_time_lt_w a b) x y = (if a < b then x else y) \<and>
   constant_time_select_8 (constant_time_lt_8 a b) u v = (if a < b then u else v) \<and>
   constant_time_select_int (constant_time_lt_w a b) i j = (if a < b then i else j)"
proof -
  have c: "ucast (scast i :: u64) = i" for i :: u32
    by (rule bit_word_eqI) (simp add: bit_simps)
  have s: "scast i = (scast j :: u64) \<longleftrightarrow> i = j" for i j :: u32
    using c by metis
  show ?thesis
    by (simp add: constant_time_lt_w_eq constant_time_ge_w_def constant_time_is_zero_w_eq constant_time_eq_w_eq
        constant_time_lt_8_def constant_time_ge_8_def constant_time_eq_8_eq constant_time_eq_int_def
        constant_time_eq_int_8_def s c
        constant_time_select_int_def) auto
qed

end
