(* ===== verification/Base64.thy ===== *)
theory Base64
  imports Const_Time
begin

text \<open>
  The base64 coder of \<open>crypto/base64/base64.c\<close>: the constant-time alphabet, whole-buffer encoding
  and decoding, and the streaming interface over an \<open>EVP_ENCODE_CTX\<close>.

  Of \<open>ctx->data\<close> the record holds the \<open>data_used\<close> valid bytes.  What a function writes to \<open>out\<close>
  is returned as a list; the NUL that the encoder puts behind each block, and that the next block
  overwrites, is kept only where it stays (\<open>EVP_EncodeBlock\<close>).
\<close>

section \<open>The alphabet\<close>

definition constant_time_lt_args_8 :: "byte \<Rightarrow> byte \<Rightarrow> byte" where
  "constant_time_lt_args_8 a b = ucast (constant_time_msb_w (ucast a - ucast b))"

definition constant_time_in_range_8 :: "byte \<Rightarrow> byte \<Rightarrow> byte \<Rightarrow> byte" where
  "constant_time_in_range_8 a lo hi = constant_time_lt_args_8 (a - lo) (hi - lo + 1)"

definition conv_bin2ascii :: "byte \<Rightarrow> byte" where
  "conv_bin2ascii a =
     (let a = a AND 0x3f;
          ret = constant_time_select_8 (constant_time_eq_8 (ucast a) 62) 43 47;
          ret = constant_time_select_8 (constant_time_lt_args_8 a 62) (a - 52 + 48) ret;
          ret = constant_time_select_8 (constant_time_lt_args_8 a 52) (a - 26 + 97) ret
      in constant_time_select_8 (constant_time_lt_args_8 a 26) (a + 65) ret)"

definition base64_ascii_to_bin :: "byte \<Rightarrow> byte" where
  "base64_ascii_to_bin a =
     (let is_upper = constant_time_in_range_8 a 65 90;
          is_lower = constant_time_in_range_8 a 97 122;
          is_digit = constant_time_in_range_8 a 48 57;
          is_plus = constant_time_eq_8 (ucast a) 43;
          is_slash = constant_time_eq_8 (ucast a) 47;
          is_equals = constant_time_eq_8 (ucast a) 61;
          ret = 0 OR (is_upper AND (a - 65));
          ret = ret OR (is_lower AND (a - 97 + 26));
          ret = ret OR (is_digit AND (a - 48 + 52));
          ret = ret OR (is_plus AND 62);
          ret = ret OR (is_slash AND 63);
          is_valid = is_upper OR is_lower OR is_digit OR is_plus OR is_slash OR is_equals
      in ret OR NOT is_valid)"

section \<open>Encoding\<close>

record evp_encode_ctx =
  data :: "byte list" \<comment> \<open>\<open>data[0 .. data_used)\<close>\<close>
  eof_seen :: bool
  error_encountered :: bool

abbreviation (input) ctx_size :: nat where
  "ctx_size \<equiv> 48" \<comment> \<open>\<open>sizeof(ctx->data)\<close>\<close>

abbreviation zero_ctx :: evp_encode_ctx where
  "zero_ctx \<equiv> \<lparr>data = [], eof_seen = False, error_encountered = False\<rparr>"

definition EVP_EncodedLength :: "nat \<Rightarrow> nat option" where
  "EVP_EncodedLength len =
     (if size_add len 2 < len then None
      else let len = size_add len 2 div 3
           in if size_mul len 4 div 4 \<noteq> len then None
              else let len = size_mul len 4
                   in if size_add len 1 < len then None else Some (size_add len 1))"

definition EVP_ENCODE_CTX_new :: "heap \<Rightarrow> evp_encode_ctx option \<times> heap" where
  "EVP_ENCODE_CTX_new h = (case heap_alloc h of (ok, h') \<Rightarrow> (if ok then Some zero_ctx else None, h'))"

definition EVP_EncodeInit :: evp_encode_ctx where
  "EVP_EncodeInit = zero_ctx"

text \<open>The loop of \<open>EVP_EncodeBlock\<close>: the characters it writes and the count it returns.\<close>

definition quad :: "u32 \<Rightarrow> byte list" where
  "quad l = [conv_bin2ascii (ucast (drop_bit 18 l)), conv_bin2ascii (ucast (drop_bit 12 l)),
     conv_bin2ascii (ucast (drop_bit 6 l)), conv_bin2ascii (ucast l)]"

fun encode_block_loop :: "byte list \<Rightarrow> byte list \<times> nat" where
  "encode_block_loop [] = ([], 0)"
| "encode_block_loop (a # b # c # src) =
     (let l = push_bit 16 (ucast a) OR push_bit 8 (ucast b) OR ucast c;
          (dst, ret) = encode_block_loop src
      in (quad l @ dst, ret + 4))"
| "encode_block_loop [a, b] =
     (let l = push_bit 16 (ucast a) OR push_bit 8 (ucast b)
      in (take 3 (quad l) @ [61], 4))"
| "encode_block_loop [a] =
     (let l = push_bit 16 (ucast a)
      in (take 2 (quad l) @ [61, 61], 4))"

definition EVP_EncodeBlock :: "byte list \<Rightarrow> byte list \<times> nat" where
  "EVP_EncodeBlock src = (let (dst, ret) = encode_block_loop src in (dst @ [0], ret))"

text \<open>
  The loop over whole lines of \<open>EVP_EncodeUpdate\<close>: what it writes, its \<open>total\<close> (\<open>None\<close> after the
  overflow check has fired) and the input that is left.
\<close>

function encode_lines :: "nat \<Rightarrow> byte list \<Rightarrow> byte list \<times> nat option \<times> byte list" where
  "encode_lines tot input =
     (if length input \<ge> ctx_size
      then let (dst, encoded) = EVP_EncodeBlock (take ctx_size input);
               line = take encoded dst @ [10];
               tot' = size_add (size_add tot encoded) 1
           in if tot' < tot then (line, None, drop ctx_size input)
              else let (out, r) = encode_lines tot' (drop ctx_size input) in (line @ out, r)
      else ([], Some tot, input))"
  by pat_completeness auto
termination
  by (relation "measure (\<lambda>(tot, input). length input)") auto

declare encode_lines.simps [simp del]

definition EVP_EncodeUpdate :: "byte list \<Rightarrow> evp_encode_ctx \<Rightarrow> byte list \<times> nat \<times> evp_encode_ctx" where
  "EVP_EncodeUpdate input ctx =
     (if length input = 0 then ([], 0, ctx)
      else if ctx_size - length (data ctx) > length input
      then ([], 0, ctx\<lparr>data := data ctx @ input\<rparr>)
      else
        let (first, tot, input, ctx) =
              (if length (data ctx) \<noteq> 0
               then let todo = ctx_size - length (data ctx);
                        (dst, encoded) = EVP_EncodeBlock (data ctx @ take todo input)
                    in (take encoded dst @ [10], encoded + 1, drop todo input, ctx\<lparr>data := []\<rparr>)
               else ([], 0, input, ctx));
            (out, tot', rest) = encode_lines tot input
        in case tot' of
             None \<Rightarrow> (first @ out, 0, ctx)
           | Some tot \<Rightarrow> (first @ out, if tot > INT_MAX then 0 else tot, ctx\<lparr>data := rest\<rparr>))"

definition EVP_EncodeFinal :: "evp_encode_ctx \<Rightarrow> byte list \<times> nat \<times> evp_encode_ctx" where
  "EVP_EncodeFinal ctx =
     (if length (data ctx) = 0 then ([], 0, ctx)
      else let (dst, encoded) = EVP_EncodeBlock (data ctx)
           in (take encoded dst @ [10], encoded + 1, ctx\<lparr>data := []\<rparr>))"

section \<open>Decoding\<close>

definition EVP_DecodedLength :: "nat \<Rightarrow> nat option" where
  "EVP_DecodedLength len = (if len mod 4 \<noteq> 0 then None else Some (size_mul (len div 4) 3))"

definition EVP_DecodeInit :: evp_encode_ctx where
  "EVP_DecodeInit = zero_ctx"

text \<open>The bytes that a quad of characters stands for, \<open>None\<close> on invalid characters or padding.\<close>

definition base64_decode_quad :: "byte list \<Rightarrow> byte list option" where
  "base64_decode_quad input =
     (let a = base64_ascii_to_bin (input ! 0); b = base64_ascii_to_bin (input ! 1);
          c = base64_ascii_to_bin (input ! 2); d = base64_ascii_to_bin (input ! 3)
      in if a = 0xff \<or> b = 0xff \<or> c = 0xff \<or> d = 0xff then None
         else let v = push_bit 18 (ucast a) OR push_bit 12 (ucast b) OR push_bit 6 (ucast c) OR ucast d :: u32;
                  padding_pattern = push_bit 3 (of_bool (input ! 0 = 61)) OR push_bit 2 (of_bool (input ! 1 = 61)) OR
                    push_bit 1 (of_bool (input ! 2 = 61)) OR of_bool (input ! 3 = 61) :: u32
              in if padding_pattern = 0 then Some [ucast (drop_bit 16 v), ucast (drop_bit 8 v), ucast v]
                 else if padding_pattern = 1 then Some [ucast (drop_bit 16 v), ucast (drop_bit 8 v)]
                 else if padding_pattern = 3 then Some [ucast (drop_bit 16 v)]
                 else None)"

definition is_blank :: "byte \<Rightarrow> bool" where
  "is_blank c \<longleftrightarrow> c = 32 \<or> c = 9 \<or> c = 13 \<or> c = 10"

text \<open>
  The loop of \<open>EVP_DecodeUpdate\<close>: whether it ran to the end, the bytes written to \<open>out\<close>, and the
  context.
\<close>

fun decode_loop :: "byte list \<Rightarrow> evp_encode_ctx \<Rightarrow> bool \<times> byte list \<times> evp_encode_ctx" where
  "decode_loop [] ctx = (True, [], ctx)"
| "decode_loop (c # input) ctx =
     (if is_blank c then decode_loop input ctx
      else if eof_seen ctx then (False, [], ctx\<lparr>error_encountered := True\<rparr>)
      else let ctx = ctx\<lparr>data := data ctx @ [c]\<rparr>
           in if length (data ctx) = 4
              then case base64_decode_quad (data ctx) of
                     None \<Rightarrow> (False, [], ctx\<lparr>error_encountered := True\<rparr>)
                   | Some bytes \<Rightarrow>
                       let ctx = ctx\<lparr>data := []\<rparr>;
                           ctx = (if length bytes < 3 then ctx\<lparr>eof_seen := True\<rparr> else ctx);
                           (ok, out, ctx) = decode_loop input ctx
                       in (ok, bytes @ out, ctx)
              else decode_loop input ctx)"

text \<open>The return value, the bytes written, \<open>*out_len\<close> and the context.\<close>

definition EVP_DecodeUpdate :: "byte list \<Rightarrow> evp_encode_ctx \<Rightarrow> int \<times> byte list \<times> nat \<times> evp_encode_ctx" where
  "EVP_DecodeUpdate input ctx =
     (if error_encountered ctx then (- 1, [], 0, ctx)
      else case decode_loop input ctx of
             (False, out, ctx) \<Rightarrow> (- 1, out, 0, ctx)
           | (True, out, ctx) \<Rightarrow>
               if length out > INT_MAX then (- 1, out, 0, ctx\<lparr>error_encountered := True\<rparr>)
               else (if eof_seen ctx then 0 else 1, out, length out, ctx))"

definition EVP_DecodeFinal :: "evp_encode_ctx \<Rightarrow> int" where
  "EVP_DecodeFinal ctx = (if error_encountered ctx \<or> length (data ctx) \<noteq> 0 then - 1 else 1)"

text \<open>The loop of \<open>EVP_DecodeBase64\<close> over the quads of the input.\<close>

fun decode_quads :: "byte list \<Rightarrow> byte list option" where
  "decode_quads (a # b # c # d # input) =
     (case base64_decode_quad [a, b, c, d] of
        None \<Rightarrow> None
      | Some bytes \<Rightarrow>
          if length bytes \<noteq> 3 \<and> input \<noteq> [] then None
          else map_option ((@) bytes) (decode_quads input))"
| "decode_quads _ = Some []"

definition EVP_DecodeBase64 :: "nat \<Rightarrow> byte list \<Rightarrow> byte list option" where
  "EVP_DecodeBase64 max_out input =
     (if length input mod 4 \<noteq> 0 then None
      else case EVP_DecodedLength (length input) of
             None \<Rightarrow> None
           | Some max_len \<Rightarrow> if max_out < max_len then None else decode_quads input)"

definition trim_left :: "byte list \<Rightarrow> byte list" where
  "trim_left src = dropWhile (\<lambda>c. c = 32 \<or> c = 9) src"

definition trim_right :: "byte list \<Rightarrow> byte list" where
  "trim_right src = rev (dropWhile is_blank (rev src))"

definition EVP_DecodeBlock :: "byte list \<Rightarrow> byte list option" where
  "EVP_DecodeBlock src =
     (let src = trim_right (trim_left src)
      in case EVP_DecodedLength (length src) of
           None \<Rightarrow> None
         | Some dst_len \<Rightarrow>
             if dst_len > INT_MAX then None
             else case EVP_DecodeBase64 dst_len src of
                    None \<Rightarrow> None
                  | Some dst \<Rightarrow> Some (dst @ replicate (if length dst mod 3 = 0 then 0 else 3 - length dst mod 3) 0))"

section \<open>The alphabet as a table\<close>

definition b64_char :: "byte \<Rightarrow> byte" where
  "b64_char x = (if x < 26 then x + 65 else if x < 52 then x + 71 else if x < 62 then x - 4 else if x = 62 then 43 else 47)"

definition b64_val :: "byte \<Rightarrow> byte" where
  "b64_val c = (if 65 \<le> c \<and> c \<le> 90 then c - 65 else if 97 \<le> c \<and> c \<le> 122 then c - 71 else if 48 \<le> c \<and> c \<le> 57 then c + 4
     else if c = 43 then 62 else if c = 47 then 63 else if c = 61 then 0 else 0xff)"

lemma constant_time_lt_args_8_eq: "constant_time_lt_args_8 a b = truth (a < b)"
proof -
  have "\<not> bit (ucast x :: u64) 63" for x :: byte
    by (auto simp: bit_simps dest: bit_imp_le_length)
  then have "bit (ucast a - ucast b :: u64) 63 \<longleftrightarrow> (ucast a :: u64) < ucast b"
    by (intro bit63_diff) auto
  also have "\<dots> \<longleftrightarrow> a < b"
    by (simp add: word_less_nat_alt)
  finally show ?thesis
    by (simp add: constant_time_lt_args_8_def constant_time_msb_w_eq)
qed

lemma ucast_eq_8: "constant_time_eq_8 (ucast (a :: byte)) (ucast (b :: byte)) = truth (a = b)"
  by (simp add: constant_time_eq_8_eq ucast_up_inject)

lemma conv_bin2ascii_eq: "conv_bin2ascii a = b64_char (a AND 0x3f)"
  using ucast_eq_8 [of "a AND 0x3f" 62]
  by (simp add: conv_bin2ascii_def Let_def constant_time_lt_args_8_eq b64_char_def)

lemma base64_ascii_to_bin_eq: "base64_ascii_to_bin a = b64_val a"
proof -
  have r: "a - 65 < (26 :: byte) \<longleftrightarrow> 65 \<le> a \<and> a \<le> 90" "a - 97 < (26 :: byte) \<longleftrightarrow> 97 \<le> a \<and> a \<le> 122"
    "a - 48 < (10 :: byte) \<longleftrightarrow> 48 \<le> a \<and> a \<le> 57"
    using unat_byte_less [of a] by (auto simp: word_less_nat_alt word_le_nat_alt unat_sub_if_size size_word.rep_eq)
  show ?thesis
    using ucast_eq_8 [of a 43] ucast_eq_8 [of a 47] ucast_eq_8 [of a 61]
    by (auto simp: r Let_def base64_ascii_to_bin_def constant_time_in_range_8_def constant_time_lt_args_8_eq b64_val_def word_le_nat_alt)
qed

text \<open>Decoding a character of the alphabet gives back its six bits; nothing else is accepted.\<close>

lemma unat_b64_char:
  "x < 64 \<Longrightarrow> unat (b64_char x) =
     (let n = unat x in if n < 26 then n + 65 else if n < 52 then n + 71 else if n < 62 then n - 4 else if n = 62 then 43 else 47)"
  by (auto simp: b64_char_def word_less_nat_alt Let_def unat_word_ariths unat_sub_if_size size_word.rep_eq word_unat_eq_iff)

lemma unat_b64_val:
  "unat (b64_val c) =
     (let n = unat c in if 65 \<le> n \<and> n \<le> 90 then n - 65 else if 97 \<le> n \<and> n \<le> 122 then n - 71
      else if 48 \<le> n \<and> n \<le> 57 then n + 4 else if n = 43 then 62 else if n = 47 then 63 else if n = 61 then 0 else 255)"
  by (auto simp: b64_val_def word_le_nat_alt Let_def unat_word_ariths unat_sub_if_size size_word.rep_eq word_unat_eq_iff)

lemma b64_val_char: "x < 64 \<Longrightarrow> b64_val (b64_char x) = x \<and> b64_char x \<noteq> 61 \<and> \<not> is_blank (b64_char x)"
  by (auto simp: word_unat_eq_iff is_blank_def unat_b64_val unat_b64_char Let_def word_less_nat_alt)

lemma b64_char_val:
  "b64_val c \<noteq> 0xff \<Longrightarrow> b64_val c < 64 \<and> (if c = 61 then b64_val c = 0 else b64_char (b64_val c) = c \<and> \<not> is_blank c)"
proof -
  assume v: "b64_val c \<noteq> 0xff"
  then have l: "b64_val c < 64"
    by (auto simp: word_unat_eq_iff unat_b64_val Let_def word_less_nat_alt split: if_splits)
  from v have "65 \<le> unat c \<and> unat c \<le> 90 \<or> 97 \<le> unat c \<and> unat c \<le> 122 \<or> 48 \<le> unat c \<and> unat c \<le> 57 \<or>
      unat c = 43 \<or> unat c = 47 \<or> unat c = 61"
    by (simp add: word_unat_eq_iff unat_b64_val Let_def split: if_splits)
  with l show ?thesis
    by (elim disjE conjE) (auto simp: word_unat_eq_iff is_blank_def unat_b64_val unat_b64_char Let_def)
qed

lemma and_63: "a AND (0x3f :: byte) < 64" "a < 64 \<Longrightarrow> a AND 0x3f = a"
proof -
  have m: "a AND 0x3f = take_bit 6 a"
    by (simp add: take_bit_eq_mask mask_eq_exp_minus_1)
  have u: "unat (take_bit 6 a) = unat a mod 64"
    by (simp add: take_bit_eq_mod unat_mod)
  show "a AND (0x3f :: byte) < 64" "a < 64 \<Longrightarrow> a AND 0x3f = a"
    unfolding m by (simp_all add: word_less_nat_alt word_unat_eq_iff u)
qed

section \<open>Quads\<close>

text \<open>The 24 bits of four sextets, and the sextets of 24 bits.\<close>

definition quad_word :: "byte \<Rightarrow> byte \<Rightarrow> byte \<Rightarrow> byte \<Rightarrow> u32" where
  "quad_word a b c d = push_bit 18 (ucast a) OR push_bit 12 (ucast b) OR push_bit 6 (ucast c) OR ucast d"

definition three_word :: "byte \<Rightarrow> byte \<Rightarrow> byte \<Rightarrow> u32" where
  "three_word a b c = push_bit 16 (ucast a) OR push_bit 8 (ucast b) OR ucast c"

definition sextet :: "nat \<Rightarrow> u32 \<Rightarrow> byte" where
  "sextet i l = ucast (drop_bit i l) AND 0x3f"

lemma mask_6: "(0x3f :: byte) = mask 6"
  by (simp add: mask_eq_exp_minus_1)

lemma sextet_less: "sextet i l < 64"
  by (simp add: sextet_def and_63)

lemma small_bits: "x < 64 \<Longrightarrow> bit (x :: byte) n \<Longrightarrow> n < 6"
  using and_63(2) [of x] by (metis bit_and_iff bit_mask_iff mask_6)

lemma bit_sextet: "bit (sextet i l) n \<longleftrightarrow> n < 6 \<and> bit l (i + n)"
  by (auto simp: sextet_def mask_6 bit_simps add.commute)

lemma bit_quad_word:
  assumes "a < 64" "b < 64" "c < 64" "d < 64"
  shows "bit (quad_word a b c d) n \<longleftrightarrow>
    (if n < 6 then bit d n else if n < 12 then bit c (n - 6) else if n < 18 then bit b (n - 12) else n < 24 \<and> bit a (n - 18))"
proof -
  have "n < 6 \<or> 6 \<le> n \<and> n < 12 \<or> 12 \<le> n \<and> n < 18 \<or> 18 \<le> n \<and> n < 24 \<or> 24 \<le> n" by auto
  then show ?thesis
    using small_bits [OF assms(1), of "n - 18"] small_bits [OF assms(2), of "n - 12"] small_bits [OF assms(3), of "n - 6"]
      small_bits [OF assms(4), of n]
    by (elim disjE) (auto simp: quad_word_def bit_simps)
qed

lemma bit_three_word:
  "bit (three_word a b c) n \<longleftrightarrow>
    (if n < 8 then bit c n else if n < 16 then bit b (n - 8) else n < 24 \<and> bit a (n - 16))"
proof -
  have "n < 8 \<or> 8 \<le> n \<and> n < 16 \<or> 16 \<le> n \<and> n < 24 \<or> 24 \<le> n" by auto
  then show ?thesis
    by (elim disjE) (auto simp: three_word_def bit_simps dest: bit_imp_le_length)
qed

lemma quad_word_sextets: "bit l n \<longrightarrow> n < 24 \<Longrightarrow> bit (quad_word (sextet 18 l) (sextet 12 l) (sextet 6 l) (sextet 0 l)) n = bit l n"
  by (auto simp: bit_quad_word sextet_less bit_sextet)

lemma quad_word_of_three: "quad_word (sextet 18 (three_word a b c)) (sextet 12 (three_word a b c)) (sextet 6 (three_word a b c))
    (sextet 0 (three_word a b c)) = three_word a b c"
  by (rule bit_word_eqI, rule quad_word_sextets) (auto simp: bit_three_word)

lemma bytes_of_three:
  "(ucast (drop_bit 16 (three_word a b c)) :: byte) = a" "(ucast (drop_bit 8 (three_word a b c)) :: byte) = b"
  "(ucast (three_word a b c) :: byte) = c"
  by (rule bit_word_eqI; auto simp: bit_simps bit_three_word)+

lemma three_word_of_quad:
  assumes "a < 64" "b < 64" "c < 64" "d < 64"
  shows "three_word (ucast (drop_bit 16 (quad_word a b c d))) (ucast (drop_bit 8 (quad_word a b c d))) (ucast (quad_word a b c d))
    = quad_word a b c d"
proof (rule bit_word_eqI)
  fix n :: nat
  have "n < 8 \<or> 8 \<le> n \<and> n < 16 \<or> 16 \<le> n \<and> n < 24 \<or> 24 \<le> n" by auto
  then show "bit (three_word (ucast (drop_bit 16 (quad_word a b c d))) (ucast (drop_bit 8 (quad_word a b c d))) (ucast (quad_word a b c d))) n
      = bit (quad_word a b c d) n"
    by (elim disjE) (auto simp: bit_three_word bit_simps bit_quad_word [OF assms])
qed

lemma sextet_of_quad:
  assumes "a < 64" "b < 64" "c < 64" "d < 64"
  shows "sextet 18 (quad_word a b c d) = a" "sextet 12 (quad_word a b c d) = b" "sextet 6 (quad_word a b c d) = c"
    "sextet 0 (quad_word a b c d) = d"
  using small_bits [OF assms(1)] small_bits [OF assms(2)] small_bits [OF assms(3)] small_bits [OF assms(4)]
  by (auto intro!: bit_word_eqI simp: bit_sextet bit_quad_word [OF assms])

lemma quad_eq: "quad l = [b64_char (sextet 18 l), b64_char (sextet 12 l), b64_char (sextet 6 l), b64_char (sextet 0 l)]"
  by (simp add: quad_def conv_bin2ascii_eq sextet_def)

lemma base64_decode_quad_eq:
  "base64_decode_quad [c0, c1, c2, c3] =
     (let v = quad_word (b64_val c0) (b64_val c1) (b64_val c2) (b64_val c3)
      in if b64_val c0 = 0xff \<or> b64_val c1 = 0xff \<or> b64_val c2 = 0xff \<or> b64_val c3 = 0xff \<or> c0 = 61 \<or> c1 = 61 then None
         else if c2 \<noteq> 61 \<and> c3 \<noteq> 61 then Some [ucast (drop_bit 16 v), ucast (drop_bit 8 v), ucast v]
         else if c2 \<noteq> 61 then Some [ucast (drop_bit 16 v), ucast (drop_bit 8 v)]
         else if c3 = 61 then Some [ucast (drop_bit 16 v)]
         else None)"
  by (cases "c0 = 61"; cases "c1 = 61"; cases "c2 = 61"; cases "c3 = 61")
    (simp_all add: base64_decode_quad_def Let_def base64_ascii_to_bin_eq quad_word_def)


section \<open>Whole buffers\<close>

definition base64 :: "byte list \<Rightarrow> byte list" where
  "base64 src = fst (encode_block_loop src)"

lemma base64_simps [simp]:
  "base64 [] = []"
  "base64 (a # b # c # src) = quad (three_word a b c) @ base64 src"
  "base64 [a, b] = take 3 (quad (three_word a b 0)) @ [61]"
  "base64 [a] = take 2 (quad (three_word a 0 0)) @ [61, 61]"
  by (simp_all add: base64_def Let_def three_word_def split: prod.splits)

lemma encode_block_loop_eq: "encode_block_loop src = (base64 src, length (base64 src))"
proof -
  have "snd (encode_block_loop src) = length (fst (encode_block_loop src))"
    by (induction src rule: encode_block_loop.induct) (auto simp: Let_def quad_def split: prod.splits)
  then show ?thesis by (simp add: base64_def prod_eq_iff)
qed

lemma EVP_EncodeBlock_eq: "EVP_EncodeBlock src = (base64 src @ [0], length (base64 src))"
  by (simp add: EVP_EncodeBlock_def encode_block_loop_eq)

lemma length_base64: "length (base64 src) = 4 * ((length src + 2) div 3)"
proof (induction src rule: encode_block_loop.induct)
  case (2 a b c src)
  have "(length src + 2 + 3) div 3 = (length src + 2) div 3 + 1"
    by (rule div_add_self2) simp
  then show ?case using 2 by (simp add: quad_def)
qed (simp_all add: quad_def)

lemma base64_append: "length xs mod 3 = 0 \<Longrightarrow> base64 (xs @ ys) = base64 xs @ base64 ys"
proof (induction xs rule: encode_block_loop.induct)
  case (2 a b c src)
  have "(length src + 3) mod 3 = length src mod 3" by (rule mod_add_self2)
  with 2 show ?case by simp
qed simp_all

lemma b64_not_ff: "x < 64 \<Longrightarrow> x \<noteq> (0xff :: byte)"
  by auto

lemma decode_quad_three:
  "base64_decode_quad (quad (three_word a b c)) = Some [a, b, c]"
  "base64_decode_quad (take 3 (quad (three_word a b 0)) @ [61]) = Some [a, b]"
  "base64_decode_quad (take 2 (quad (three_word a 0 0)) @ [61, 61]) = Some [a]"
proof -
  note v = b64_val_char [OF sextet_less, THEN conjunct1] b64_val_char [OF sextet_less, THEN conjunct2, THEN conjunct1]
  note n = b64_not_ff [OF sextet_less]
  have z: "sextet 0 (three_word a b 0) = 0" "sextet 0 (three_word a 0 0) = 0" "sextet 6 (three_word a 0 0) = 0"
    by (auto intro!: bit_word_eqI simp: bit_sextet bit_three_word split: if_splits)
  have "b64_val 61 = 0" by (simp add: b64_val_def)
  then show "base64_decode_quad (quad (three_word a b c)) = Some [a, b, c]"
    "base64_decode_quad (take 3 (quad (three_word a b 0)) @ [61]) = Some [a, b]"
    "base64_decode_quad (take 2 (quad (three_word a 0 0)) @ [61, 61]) = Some [a]"
    using quad_word_of_three [of a b c] bytes_of_three [of a b c] quad_word_of_three [of a b 0] bytes_of_three [of a b 0]
      quad_word_of_three [of a 0 0] bytes_of_three [of a 0 0]
    by (simp_all add: quad_eq base64_decode_quad_eq v n z Let_def)
qed

lemma decode_quads_base64: "decode_quads (base64 src) = Some src"
proof (induction src rule: encode_block_loop.induct)
  case (2 a b c src)
  then show ?case using decode_quad_three(1) [of a b c] by (simp add: quad_def)
next
  case (3 a b)
  then show ?case using decode_quad_three(2) [of a b] by (simp add: quad_def)
next
  case (4 a)
  then show ?case using decode_quad_three(3) [of a] by (simp add: quad_def)
qed simp

text \<open>What the decoder accepts: an encoding, up to bits of one character in front of the padding.\<close>

definition same_code :: "nat \<Rightarrow> byte list \<Rightarrow> byte list \<Rightarrow> bool" where
  "same_code r xs ys \<longleftrightarrow> length xs = length ys \<and>
     (if r = 0 then xs = ys
      else let k = (if r = 1 then 3 else 2); n = length xs
           in k \<le> n \<and> take (n - k) xs = take (n - k) ys \<and> drop (n - k + 1) xs = drop (n - k + 1) ys)"

lemma decode_quad_sound:
  assumes "base64_decode_quad [c0, c1, c2, c3] = Some bytes"
  shows "bytes \<noteq> [] \<and> length bytes \<le> 3 \<and> same_code (length bytes mod 3) [c0, c1, c2, c3] (base64 bytes)"
proof -
  define v where "v = quad_word (b64_val c0) (b64_val c1) (b64_val c2) (b64_val c3)"
  have n: "b64_val c0 \<noteq> 0xff" "b64_val c1 \<noteq> 0xff" "b64_val c2 \<noteq> 0xff" "b64_val c3 \<noteq> 0xff" "c0 \<noteq> 61" "c1 \<noteq> 61"
    using assms by (auto simp: base64_decode_quad_eq Let_def split: if_splits)
  note l = n(1-4) [THEN b64_char_val, THEN conjunct1]
  note c = n(1-4) [THEN b64_char_val, THEN conjunct2]
  note s = sextet_of_quad [OF l, folded v_def]
  note t = three_word_of_quad [OF l, folded v_def]
  let ?a = "ucast (drop_bit 16 v) :: byte" and ?b = "ucast (drop_bit 8 v) :: byte" and ?c = "ucast v :: byte"
  have low: "sextet 18 (three_word ?a b d) = sextet 18 v" "sextet 12 (three_word ?a ?b d) = sextet 12 v" for b d
    by (auto intro!: bit_word_eqI simp: bit_sextet bit_three_word bit_simps split: if_splits)
  consider "c2 \<noteq> 61" "c3 \<noteq> 61" "bytes = [?a, ?b, ?c]" | "c2 \<noteq> 61" "c3 = 61" "bytes = [?a, ?b]" | "c2 = 61" "c3 = 61" "bytes = [?a]"
    using assms n unfolding base64_decode_quad_eq v_def [symmetric] Let_def by (auto split: if_splits)
  then show ?thesis
  proof cases
    case 1
    with c n(5,6) show ?thesis by (simp add: same_code_def quad_eq t s)
  next
    case 2
    with c n(5,6) show ?thesis by (simp add: same_code_def quad_eq low s Let_def)
  next
    case 3
    with c n(5,6) show ?thesis by (simp add: same_code_def quad_eq low s Let_def)
  qed
qed

lemma same_code_append:
  "same_code r xs ys \<Longrightarrow> same_code r (zs @ xs) (zs @ ys)"
proof (cases "r = 0")
  case False
  define k where "k = (if r = 1 then 3 else 2 :: nat)"
  assume "same_code r xs ys"
  then have *: "length xs = length ys" "k \<le> length xs" "take (length xs - k) xs = take (length xs - k) ys"
      "drop (length xs - k + 1) xs = drop (length xs - k + 1) ys"
    using False unfolding same_code_def k_def [symmetric] Let_def by auto
  then obtain m where "length xs = k + m" by (auto simp: le_iff_add)
  moreover from this have "length xs - k = m" by simp
  ultimately have m: "length xs = k + m" "length ys = k + m" "take m xs = take m ys" "drop (m + 1) xs = drop (m + 1) ys"
    using * by (simp_all only:)
  then show ?thesis
    using False unfolding same_code_def k_def [symmetric] Let_def by (simp add: add.commute [of "length zs"] diff_add_assoc2)
qed (simp add: same_code_def)

lemma decode_quads_sound:
  assumes "decode_quads inp = Some out" and "length inp mod 4 = 0"
  shows "same_code (length out mod 3) inp (base64 out)"
  using assms
proof (induction inp arbitrary: out rule: decode_quads.induct)
  case (1 a b c d inp)
  then obtain bytes rest where r: "base64_decode_quad [a, b, c, d] = Some bytes" "decode_quads inp = Some rest" "out = bytes @ rest"
    "length bytes = 3 \<or> inp = []"
    by (auto split: option.splits if_splits)
  note q = decode_quad_sound [OF r(1)]
  show ?case
  proof (cases "length bytes = 3")
    case True
    then obtain x y z where b: "bytes = [x, y, z]"
      by (auto simp: numeral_3_eq_3 length_Suc_conv)
    have "same_code (length rest mod 3) inp (base64 rest)"
      using "1.IH" [OF r(1) _ r(2)] True "1.prems"(2) by simp
    moreover have "[a, b, c, d] = base64 bytes"
      using q True by (simp add: same_code_def)
    moreover have "length out mod 3 = length rest mod 3"
      using True by (simp add: r(3) mod_add_left_eq [symmetric])
    moreover from calculation(2) have e: "a # b # c # d # inp = base64 bytes @ inp"
      by (metis append_Cons append_Nil)
    ultimately show ?thesis
      using same_code_append [of "length rest mod 3" inp "base64 rest" "base64 bytes"] base64_append [of bytes rest] True
      unfolding r(3) e by simp
  next
    case False
    with r have "inp = []" "rest = []" by auto
    then show ?thesis using q r(3) by simp
  qed
qed (auto simp: same_code_def)


section \<open>Streaming\<close>

text \<open>What the streaming encoder produces: lines of 48 bytes, each with a newline.\<close>

function pem_lines :: "byte list \<Rightarrow> byte list" where
  "pem_lines xs = (if xs = [] then [] else base64 (take 48 xs) @ [10] @ pem_lines (drop 48 xs))"
  by pat_completeness auto
termination
  by (relation "measure length") auto

declare pem_lines.simps [simp del]

lemma take_drop_append [simp]: "take n xs @ drop n xs @ ys = xs @ ys"
  by (simp only: append_assoc [symmetric] append_take_drop_id)

lemma pem_lines_Nil [simp]: "pem_lines [] = []"
  by (simp add: pem_lines.simps)

lemma pem_lines_line: "length xs = 48 \<Longrightarrow> pem_lines (xs @ ys) = base64 xs @ [10] @ pem_lines ys"
  by (subst pem_lines.simps) auto

lemma pem_lines_last: "xs \<noteq> [] \<Longrightarrow> length xs \<le> 48 \<Longrightarrow> pem_lines xs = base64 xs @ [10]"
  by (subst pem_lines.simps) auto

lemma encode_lines_eq:
  assumes "tot + 2 * length input < 2 ^ 64"
  shows "\<exists>lines k. encode_lines tot input = (lines, Some (tot + length lines), drop (48 * k) input) \<and>
     48 * k \<le> length input \<and> length input < 48 * k + 48 \<and> length lines = 65 * k \<and>
     (\<forall>ys. pem_lines (input @ ys) = lines @ pem_lines (drop (48 * k) input @ ys))"
  using assms
proof (induction tot input rule: encode_lines.induct)
  case (1 tot input)
  show ?case
  proof (cases "48 \<le> length input")
    case False
    then show ?thesis
      by (intro exI [of _ "[]"] exI [of _ 0]) (simp add: encode_lines.simps)
  next
    case True
    let ?x = "take 48 input"
    have l: "length (base64 ?x) = 64" using True by (simp add: length_base64)
    define t where "t = tot + 65"
    have s: "size_add (size_add tot 64) 1 = t" "\<not> t < tot" using True "1.prems" by (simp_all add: t_def)
    have p: "t + 2 * length (drop 48 input) < 2 ^ 64" using True "1.prems" by (simp add: t_def)
    have "\<exists>lines k. encode_lines t (drop 48 input) = (lines, Some (t + length lines), drop (48 * k) (drop 48 input)) \<and>
        48 * k \<le> length (drop 48 input) \<and> length (drop 48 input) < 48 * k + 48 \<and> length lines = 65 * k \<and>
        (\<forall>ys. pem_lines (drop 48 input @ ys) = lines @ pem_lines (drop (48 * k) (drop 48 input) @ ys))"
      using "1.IH" [OF True EVP_EncodeBlock_eq [symmetric] refl refl] p l s by simp
    then obtain lines k where ih: "encode_lines t (drop 48 input) = (lines, Some (t + length lines), drop (48 * k) (drop 48 input))"
        "48 * k \<le> length (drop 48 input)" "length (drop 48 input) < 48 * k + 48" "length lines = 65 * k"
        "\<forall>ys. pem_lines (drop 48 input @ ys) = lines @ pem_lines (drop (48 * k) (drop 48 input) @ ys)"
      by blast
    have "encode_lines tot input = (base64 ?x @ [10] @ lines, Some (tot + length (base64 ?x @ [10] @ lines)), drop (48 * Suc k) input)"
      using True l s ih(1) by (subst encode_lines.simps) (simp add: EVP_EncodeBlock_eq Let_def add.commute t_def)
    moreover have "pem_lines (input @ ys) = (base64 ?x @ [10] @ lines) @ pem_lines (drop (48 * Suc k) input @ ys)" for ys
      using pem_lines_line [of ?x "drop 48 input @ ys"] ih(5) True by (simp add: add.commute)
    ultimately show ?thesis
      using ih(2-4) l True by (intro exI [of _ "base64 ?x @ [10] @ lines"] exI [of _ "Suc k"]) auto
  qed
qed


lemma EVP_EncodeUpdate_props:
  assumes "EVP_EncodeUpdate input ctx = (out, n, ctx')" and "length (data ctx) < 48" and "length input < 2 ^ 62"
  shows "length (data ctx') < 48" and "pem_lines (data ctx @ input @ ys) = out @ pem_lines (data ctx' @ ys)"
    and "n = (if length out \<le> INT_MAX then length out else 0)"
proof -
  have "length (data ctx') < 48 \<and> (\<forall>ys. pem_lines (data ctx @ input @ ys) = out @ pem_lines (data ctx' @ ys)) \<and>
      n = (if length out \<le> INT_MAX then length out else 0)"
  proof (cases "input = [] \<or> length input < 48 - length (data ctx)")
    case True
    then have "EVP_EncodeUpdate input ctx = ([], 0, ctx\<lparr>data := data ctx @ input\<rparr>)"
      by (cases "input = []") (simp_all add: EVP_EncodeUpdate_def)
    then show ?thesis using assms True by auto
  next
    case False
    let ?todo = "48 - length (data ctx)"
    define start where "start = (if data ctx = [] then ([] :: byte list, 0 :: nat, input)
      else (base64 (data ctx @ take ?todo input) @ [10], 65, drop ?todo input))"
    obtain f tot inp where f: "start = (f, tot, inp)" by (cases start)
    have lenf: "length f = tot" "tot \<le> 65" "length inp < 2 ^ 62"
      using False assms(2,3) f by (auto simp: start_def length_base64 split: if_splits)
    have pf: "pem_lines (data ctx @ input @ ys) = f @ pem_lines (inp @ ys)" for ys
      using False f pem_lines_line [of "data ctx @ take ?todo input" "drop ?todo input @ ys"] assms(2)
      by (auto simp: start_def split: if_splits)
    obtain lines k where L: "encode_lines tot inp = (lines, Some (tot + length lines), drop (48 * k) inp)"
        "48 * k \<le> length inp" "length inp < 48 * k + 48"
        "\<forall>ys. pem_lines (inp @ ys) = lines @ pem_lines (drop (48 * k) inp @ ys)"
      using encode_lines_eq [of tot inp] lenf by fastforce
    have "EVP_EncodeUpdate input ctx = (f @ lines, if tot + length lines > INT_MAX then 0 else tot + length lines,
        ctx\<lparr>data := drop (48 * k) inp\<rparr>)"
      using False f L(1) assms(2)
      by (auto simp: EVP_EncodeUpdate_def start_def EVP_EncodeBlock_eq length_base64 Let_def split: if_splits)
    then show ?thesis
      using assms(1) L lenf pf by auto
  qed
  then show "length (data ctx') < 48" "pem_lines (data ctx @ input @ ys) = out @ pem_lines (data ctx' @ ys)"
    "n = (if length out \<le> INT_MAX then length out else 0)"
    by auto
qed

lemma EVP_EncodeFinal_props:
  "length (data ctx) < 48 \<Longrightarrow> EVP_EncodeFinal ctx = (pem_lines (data ctx), length (pem_lines (data ctx)), ctx\<lparr>data := []\<rparr>)"
  by (auto simp: EVP_EncodeFinal_def EVP_EncodeBlock_eq pem_lines_last)

text \<open>A caller that feeds the chunks in order and finishes.\<close>

fun encode_chunks :: "byte list list \<Rightarrow> evp_encode_ctx \<Rightarrow> byte list \<times> evp_encode_ctx" where
  "encode_chunks [] ctx = (let (out, n, ctx) = EVP_EncodeFinal ctx in (out, ctx))"
| "encode_chunks (c # cs) ctx =
     (let (out, n, ctx) = EVP_EncodeUpdate c ctx; (rest, ctx) = encode_chunks cs ctx in (out @ rest, ctx))"

lemma encode_chunks_eq:
  "length (data ctx) < 48 \<Longrightarrow> \<forall>c \<in> set cs. length c < 2 ^ 62 \<Longrightarrow> fst (encode_chunks cs ctx) = pem_lines (data ctx @ concat cs)"
proof (induction cs arbitrary: ctx)
  case (Cons c cs)
  obtain out n ctx' where u: "EVP_EncodeUpdate c ctx = (out, n, ctx')" by (cases "EVP_EncodeUpdate c ctx")
  note U = EVP_EncodeUpdate_props [OF u Cons.prems(1)]
  show ?case
    using Cons.IH [of ctx'] Cons.prems U(1) U(2) [of "concat cs"] by (auto simp: u split: prod.splits)
qed (simp add: EVP_EncodeFinal_props)


text \<open>Decoding is the same however the characters are cut into chunks.\<close>

lemma decode_loop_append:
  "decode_loop (xs @ ys) ctx =
    (case decode_loop xs ctx of
       (False, out, ctx) \<Rightarrow> (False, out, ctx)
     | (True, out, ctx) \<Rightarrow> (case decode_loop ys ctx of (ok, out', ctx) \<Rightarrow> (ok, out @ out', ctx)))"
  by (induction xs ctx rule: decode_loop.induct)
    (auto simp: Let_def split: prod.splits bool.splits option.splits)

definition ended :: "byte list \<Rightarrow> evp_encode_ctx" where
  "ended xs = \<lparr>data = [], eof_seen = (length xs mod 3 \<noteq> 0), error_encountered = False\<rparr>"

lemma quad_not_blank: "\<forall>c \<in> set (quad l). \<not> is_blank c"
  using b64_val_char [OF sextet_less] by (auto simp: quad_eq)

lemma decode_loop_quad:
  assumes "\<forall>c \<in> {c0, c1, c2, c3}. \<not> is_blank c" and "base64_decode_quad [c0, c1, c2, c3] = Some bytes"
  shows "decode_loop (c0 # c1 # c2 # c3 # input) zero_ctx =
    (case decode_loop input (zero_ctx\<lparr>eof_seen := length bytes < 3\<rparr>) of (ok, out, ctx) \<Rightarrow> (ok, bytes @ out, ctx))"
  using assms by (auto simp: Let_def split: prod.splits)

lemma decode_loop_base64: "decode_loop (base64 xs) zero_ctx = (True, xs, ended xs)"
proof (induction xs rule: encode_block_loop.induct)
  case (2 a b c src)
  have "(length src + 3) mod 3 = length src mod 3" by (rule mod_add_self2)
  then have "ended (a # b # c # src) = ended src" by (simp add: ended_def)
  with 2 show ?case
    using decode_quad_three(1) [of a b c] quad_not_blank [of "three_word a b c"]
    by (simp add: quad_eq decode_loop_quad del: decode_loop.simps)
next
  case (3 a b)
  have "\<not> is_blank 61" by (simp add: is_blank_def)
  then show ?case
    using decode_quad_three(2) [of a b] quad_not_blank [of "three_word a b 0"] decode_loop.simps(1)
    by (simp add: quad_eq decode_loop_quad ended_def del: decode_loop.simps)
next
  case (4 a)
  have "\<not> is_blank 61" by (simp add: is_blank_def)
  then show ?case
    using decode_quad_three(3) [of a] quad_not_blank [of "three_word a 0 0"] decode_loop.simps(1)
    by (simp add: quad_eq decode_loop_quad ended_def del: decode_loop.simps)
qed (simp add: ended_def)

lemma decode_loop_newline: "decode_loop (10 # ys) ctx = decode_loop ys ctx"
  by (simp add: is_blank_def)

lemma decode_loop_pem_lines: "decode_loop (pem_lines xs) zero_ctx = (True, xs, ended xs)"
proof (induction xs rule: pem_lines.induct)
  case (1 xs)
  show ?case
  proof (cases "length xs \<le> 48")
    case True
    then show ?thesis
      using decode_loop_base64 [of xs] pem_lines_last [of xs] decode_loop_newline [of "[]"]
      by (cases "xs = []") (simp_all add: decode_loop_append ended_def)
  next
    case False
    let ?x = "take 48 xs" and ?y = "drop 48 xs"
    have "pem_lines xs = base64 ?x @ 10 # pem_lines ?y"
      using pem_lines_line [of ?x ?y] False by simp
    moreover have "ended ?x = zero_ctx" using False by (simp add: ended_def)
    moreover have "length xs mod 3 = (length ?y + 16 * 3) mod 3" using False by simp
    then have "length xs mod 3 = length ?y mod 3" by (simp only: mod_mult_self1)
    then have "ended xs = ended ?y" by (simp add: ended_def)
    moreover have "decode_loop (pem_lines ?y) zero_ctx = (True, ?y, ended ?y)"
      using False by (intro 1) auto
    ultimately show ?thesis
      using decode_loop_base64 [of ?x] by (simp add: decode_loop_append decode_loop_newline del: decode_loop.simps)
  qed
qed

text \<open>A caller that feeds the chunks in order, stops at an error, and finishes.\<close>

fun decode_chunks :: "byte list list \<Rightarrow> evp_encode_ctx \<Rightarrow> int \<times> byte list" where
  "decode_chunks [] ctx = (EVP_DecodeFinal ctx, [])"
| "decode_chunks (c # cs) ctx =
     (let (ret, out, n, ctx) = EVP_DecodeUpdate c ctx
      in if ret = - 1 then (- 1, [])
         else let (ret, rest) = decode_chunks cs ctx in (ret, take n out @ rest))"

lemma decode_loop_error: "decode_loop xs ctx = (True, out, ctx') \<Longrightarrow> error_encountered ctx' = error_encountered ctx"
  by (induction xs ctx arbitrary: out rule: decode_loop.induct)
    (auto simp: Let_def split: prod.splits option.splits if_splits)

lemma decode_chunks_eq:
  assumes "decode_loop (concat cs) ctx = (True, out, ctx')" and "length out \<le> INT_MAX" and "\<not> error_encountered ctx"
    and "data ctx' = []" and "\<not> error_encountered ctx'"
  shows "decode_chunks cs ctx = (1, out)"
  using assms
proof (induction cs arbitrary: ctx out)
  case (Cons c cs)
  obtain out1 ctx1 out2 where c: "decode_loop c ctx = (True, out1, ctx1)" and cs: "decode_loop (concat cs) ctx1 = (True, out2, ctx')"
    and out: "out = out1 @ out2"
    using Cons.prems(1) by (auto simp: decode_loop_append split: prod.splits bool.splits)
  have "\<not> error_encountered ctx1"
    using decode_loop_error [OF c] Cons.prems(3) by simp
  then show ?case
    using Cons.IH [OF cs] Cons.prems c by (simp add: EVP_DecodeUpdate_def out Let_def)
qed (simp add: EVP_DecodeFinal_def)


text \<open>How much the decoder holds back: less than a quad, unless it has failed.\<close>

definition decode_ctx_ok :: "evp_encode_ctx \<Rightarrow> bool" where
  "decode_ctx_ok ctx \<longleftrightarrow> (if error_encountered ctx then length (data ctx) \<le> 4 else length (data ctx) < 4)"

lemma decode_quad_length: "base64_decode_quad cs = Some bytes \<Longrightarrow> 1 \<le> length bytes \<and> length bytes \<le> 3"
  by (auto simp: base64_decode_quad_def Let_def split: if_splits)

lemma decode_loop_ok:
  assumes "decode_loop input ctx = (ok, out, ctx')" and "length (data ctx) < 4" and "\<not> error_encountered ctx"
  shows "decode_ctx_ok ctx' \<and> error_encountered ctx' = (\<not> ok) \<and> 4 * length out \<le> 3 * (length (data ctx) + length input)"
  using assms
proof (induction input ctx arbitrary: ok out rule: decode_loop.induct)
  case (1 ctx)
  then show ?case by (auto simp: decode_ctx_ok_def)
next
  case (2 c input ctx)
  consider "is_blank c" | "\<not> is_blank c" "eof_seen ctx" | "\<not> is_blank c" "\<not> eof_seen ctx" "length (data ctx) < 3"
    | "\<not> is_blank c" "\<not> eof_seen ctx" "length (data ctx) = 3"
    using 2 by linarith
  then show ?case
  proof cases
    case 1
    with 2 show ?thesis by fastforce
  next
    case 2
    with "2.prems" show ?thesis by (auto simp: decode_ctx_ok_def)
  next
    case 3
    then have "decode_loop input (ctx\<lparr>data := data ctx @ [c]\<rparr>) = (ok, out, ctx')"
      using "2.prems" by simp
    with 3 "2.IH"(3) [OF 3(1,2) refl] "2.prems" show ?thesis by simp
  next
    case 4
    then have l: "length (data (ctx\<lparr>data := data ctx @ [c]\<rparr>)) = 4" by simp
    show ?thesis
    proof (cases "base64_decode_quad (data ctx @ [c])")
      case None
      with 4 "2.prems" show ?thesis by (auto simp: decode_ctx_ok_def)
    next
      case (Some bytes)
      note b = decode_quad_length [OF Some]
      define ctx1 where "ctx1 = (if length bytes < 3 then ctx\<lparr>data := [], eof_seen := True\<rparr> else ctx\<lparr>data := []\<rparr>)"
      obtain out1 where o: "decode_loop input ctx1 = (ok, out1, ctx')" "out = bytes @ out1"
        using 4 Some "2.prems"(1) by (auto simp: ctx1_def Let_def split: prod.splits if_splits)
      have "decode_ctx_ok ctx' \<and> error_encountered ctx' = (\<not> ok) \<and> 4 * length out1 \<le> 3 * (length (data ctx1) + length input)"
        using "2.IH"(2) [OF 4(1,2) refl l, of bytes "ctx\<lparr>data := []\<rparr>" ctx1] o(1) Some "2.prems"(3)
        by (simp add: ctx1_def)
      moreover have "data ctx1 = []" by (simp add: ctx1_def)
      ultimately show ?thesis using o(2) b 4 by simp
    qed
  qed
qed

section \<open>Properties\<close>

text \<open>C34: Encoding a buffer and decoding the characters gives the buffer back, in the number of characters
  \<open>EVP_EncodedLength\<close> promises and for every output buffer of the promised maximal size.\<close>

theorem base64_roundtrip:
  assumes "length src < 2 ^ 61" and "3 * ((length src + 2) div 3) \<le> max_out"
  shows "case EVP_EncodeBlock src of (dst, n) \<Rightarrow>
    EVP_EncodedLength (length src) = Some (length dst) \<and> n < length dst \<and> dst ! n = 0 \<and>
    EVP_DecodeBase64 max_out (take n dst) = Some src"
proof -
  have "(length src + 2) div 3 * 4 < 2 ^ 63" using assms(1) by auto
  then show ?thesis
    using assms decode_quads_base64 [of src]
    by (simp add: EVP_EncodeBlock_eq EVP_DecodeBase64_def EVP_DecodedLength_def EVP_EncodedLength_def length_base64
        nth_append size_mul_def size_add_def)
qed

theorem base64_roundtrip_witness:
  "case EVP_EncodeBlock [1, 2, 3, 255] of (dst, n) \<Rightarrow>
    EVP_EncodedLength (length [1, 2, 3, 255 :: byte]) = Some (length dst) \<and> n < length dst \<and> dst ! n = 0 \<and>
    EVP_DecodeBase64 6 (take n dst) = Some [1, 2, 3, 255]"
  by (rule base64_roundtrip) simp_all





text \<open>The streaming decoder never holds more than a quad, less than one while it has not failed, and
  writes at most three bytes for four characters seen.\<close>

theorem EVP_DecodeUpdate_invariant:
  assumes "EVP_DecodeUpdate input ctx = (ret, out, n, ctx')" and "decode_ctx_ok ctx"
  shows "decode_ctx_ok ctx' \<and> 4 * length out \<le> 3 * (length (data ctx) + length input) \<and> n \<le> length out \<and> n \<le> INT_MAX \<and>
    (ret = - 1) = error_encountered ctx'"
proof (cases "error_encountered ctx")
  case True
  with assms show ?thesis by (auto simp: EVP_DecodeUpdate_def)
next
  case False
  obtain ok out1 ctx1 where l: "decode_loop input ctx = (ok, out1, ctx1)" by (cases "decode_loop input ctx")
  have d: "length (data ctx) < 4" using assms(2) False by (simp add: decode_ctx_ok_def)
  note L = decode_loop_ok [OF l d False]
  show ?thesis
    using assms(1) L l False by (cases ok) (auto simp: EVP_DecodeUpdate_def decode_ctx_ok_def split: if_splits)
qed

theorem EVP_DecodeUpdate_invariant_witness:
  "decode_ctx_ok (snd (snd (snd (EVP_DecodeUpdate [81, 81, 81, 61, 32, 65] EVP_DecodeInit))))"
  using EVP_DecodeUpdate_invariant [of "[81, 81, 81, 61, 32, 65]" EVP_DecodeInit] 
  by (auto simp: decode_ctx_ok_def EVP_DecodeInit_def prod_eq_iff)

end
