(* ===== verification/Stack.thy ===== *)
theory Stack
  imports Comparator
begin

text \<open>
  The pointer stack of \<open>crypto/stack/stack.c\<close>, a growable array with an optional comparison function
  and a flag that says whether it is known to be sorted.

  Pointers are addresses, 0 is NULL.  A \<open>_STACK *\<close> is an option, \<open>None\<close> for NULL; of \<open>sk->data\<close> the
  record holds the \<open>num\<close> elements in use.  A comparison function is an address as well
  (\<open>sk_set_cmp_func\<close> compares them); what it computes is the argument \<open>call_cmp_func\<close>, as in the
  source, and the functions that copy and free elements are arguments that pass a state on.
\<close>

section \<open>State\<close>

type_synonym ptr = nat
type_synonym stack_cmp_func = nat

abbreviation (input) NULL :: nat where
  "NULL \<equiv> 0"

record stack =
  sdata :: "ptr list" \<comment> \<open>\<open>data[0 .. num)\<close>\<close>
  sorted_flag :: bool
  num_alloc :: nat
  comp :: stack_cmp_func

type_synonym cmp_caller = "stack_cmp_func \<Rightarrow> ptr \<Rightarrow> ptr \<Rightarrow> int"

definition kMinSize :: nat where
  "kMinSize = 4"

section \<open>Operations\<close>

definition sk_new :: "stack_cmp_func \<Rightarrow> heap \<Rightarrow> stack option \<times> heap" where
  "sk_new cmp h =
     (case heap_alloc h of
        (False, h) \<Rightarrow> (None, h)
      | (True, h) \<Rightarrow>
          (case heap_alloc h of
             (False, h) \<Rightarrow> (None, h)
           | (True, h) \<Rightarrow> (Some \<lparr>sdata = [], sorted_flag = False, num_alloc = kMinSize, comp = cmp\<rparr>, h)))"

definition sk_new_null :: "heap \<Rightarrow> stack option \<times> heap" where
  "sk_new_null h = sk_new NULL h"

definition sk_num :: "stack option \<Rightarrow> nat" where
  "sk_num sk = (case sk of None \<Rightarrow> 0 | Some s \<Rightarrow> length (sdata s))"

definition sk_zero :: "stack option \<Rightarrow> stack option" where
  "sk_zero sk =
     (case sk of
        None \<Rightarrow> None
      | Some s \<Rightarrow> if length (sdata s) = 0 then Some s else Some (s\<lparr>sdata := [], sorted_flag := False\<rparr>))"

definition sk_value :: "stack option \<Rightarrow> nat \<Rightarrow> ptr" where
  "sk_value sk i =
     (case sk of None \<Rightarrow> NULL | Some s \<Rightarrow> if i \<ge> length (sdata s) then NULL else sdata s ! i)"

definition sk_set :: "nat \<Rightarrow> ptr \<Rightarrow> stack option \<Rightarrow> ptr \<times> stack option" where
  "sk_set i value sk =
     (case sk of
        None \<Rightarrow> (NULL, None)
      | Some s \<Rightarrow>
          if i \<ge> length (sdata s) then (NULL, Some s)
          else (value, Some (s\<lparr>sdata := (sdata s)[i := value]\<rparr>)))"

text \<open>\<open>sk_free\<close> releases the array and the object: the pointer is dead afterwards.\<close>

definition sk_free :: "stack option \<Rightarrow> stack option" where
  "sk_free sk = None"

definition sk_pop_free_ex :: "(ptr \<Rightarrow> 's \<Rightarrow> 's) \<Rightarrow> stack option \<Rightarrow> 's \<Rightarrow> stack option \<times> 's" where
  "sk_pop_free_ex call_free_func sk st =
     (case sk of
        None \<Rightarrow> (None, st)
      | Some s \<Rightarrow> (sk_free sk, fold (\<lambda>p st. if p \<noteq> NULL then call_free_func p st else st) (sdata s) st))"

definition sk_pop_free :: "(ptr \<Rightarrow> 's \<Rightarrow> 's) \<Rightarrow> stack option \<Rightarrow> 's \<Rightarrow> stack option \<times> 's" where
  "sk_pop_free free_func sk st = sk_pop_free_ex free_func sk st"

text \<open>The new capacity that \<open>sk_insert\<close> asks for, \<open>None\<close> when it overflows.\<close>

definition grow_alloc :: "nat \<Rightarrow> nat option" where
  "grow_alloc alloc =
     (let overflows = (\<lambda>new_alloc. new_alloc < alloc \<or> size_mul new_alloc 8 div 8 \<noteq> new_alloc);
          new_alloc = size_mul alloc 2;
          new_alloc = (if overflows new_alloc then size_add alloc 1 else new_alloc)
      in if overflows new_alloc then None else Some new_alloc)"

definition sk_insert :: "ptr \<Rightarrow> nat \<Rightarrow> stack option \<Rightarrow> heap \<Rightarrow> nat \<times> stack option \<times> heap" where
  "sk_insert p pos sk h =
     (case sk of
        None \<Rightarrow> (0, None, h)
      | Some s \<Rightarrow>
          let (grown, h) =
                (if num_alloc s \<le> size_add (length (sdata s)) 1
                 then case grow_alloc (num_alloc s) of
                        None \<Rightarrow> (None, h)
                      | Some new_alloc \<Rightarrow>
                          (case heap_alloc h of
                             (ok, h) \<Rightarrow> (if ok then Some (s\<lparr>num_alloc := new_alloc\<rparr>) else None, h))
                 else (Some s, h))
          in case grown of
               None \<Rightarrow> (0, Some s, h)
             | Some s \<Rightarrow>
                 let xs = (if pos \<ge> length (sdata s) then sdata s @ [p]
                           else take pos (sdata s) @ p # drop pos (sdata s))
                 in (length xs, Some (s\<lparr>sdata := xs, sorted_flag := False\<rparr>), h))"

definition sk_delete :: "nat \<Rightarrow> stack option \<Rightarrow> ptr \<times> stack option" where
  "sk_delete pos sk =
     (case sk of
        None \<Rightarrow> (NULL, None)
      | Some s \<Rightarrow>
          if pos \<ge> length (sdata s) then (NULL, Some s)
          else (sdata s ! pos, Some (s\<lparr>sdata := take pos (sdata s) @ drop (Suc pos) (sdata s)\<rparr>)))"

definition sk_delete_ptr :: "ptr \<Rightarrow> stack option \<Rightarrow> ptr \<times> stack option" where
  "sk_delete_ptr p sk =
     (case sk of
        None \<Rightarrow> (NULL, None)
      | Some s \<Rightarrow> (case memchr (sdata s) p of None \<Rightarrow> (NULL, Some s) | Some i \<Rightarrow> sk_delete i sk))"

definition sk_is_sorted :: "stack option \<Rightarrow> bool" where
  "sk_is_sorted sk = (case sk of None \<Rightarrow> True | Some s \<Rightarrow> sorted_flag s)"

text \<open>The loops of \<open>sk_find\<close>: the linear one over a test, the binary one over \<open>[lo, hi)\<close>.\<close>

fun find_linear :: "('a \<Rightarrow> bool) \<Rightarrow> 'a list \<Rightarrow> nat option" where
  "find_linear hit [] = None"
| "find_linear hit (x # xs) = (if hit x then Some 0 else map_option Suc (find_linear hit xs))"

function find_binary :: "('a \<Rightarrow> int) \<Rightarrow> 'a list \<Rightarrow> nat \<Rightarrow> nat \<Rightarrow> nat option" where
  "find_binary cmp_p xs lo hi =
     (if lo < hi
      then let mid = lo + (hi - lo - 1) div 2; r = cmp_p (xs ! mid)
           in if r > 0 then find_binary cmp_p xs (mid + 1) hi
              else if r < 0 then find_binary cmp_p xs lo mid
              else if hi - lo = 1 then Some mid
              else find_binary cmp_p xs lo (mid + 1)
      else None)"
  by pat_completeness auto
termination
proof (relation "measure (\<lambda>(cmp_p, xs, lo, hi). hi - lo)", goal_cases)
  case (2 cmp_p xs lo hi)
  then show ?case by (simp add: diff_less_mono2)
next
  case (3 cmp_p xs lo hi)
  then have "(hi - lo - 1) div 2 < hi - lo" by (intro le_less_trans [OF div_le_dividend]) simp
  with 3 show ?case by simp
next
  case (4 cmp_p xs lo hi)
  then have "0 < hi - lo - 1" by simp
  then have "(hi - lo - 1) div 2 < hi - lo - 1" by (rule div_less_dividend [rotated]) simp
  with 4 show ?case by simp
qed simp

declare find_binary.simps [simp del]

definition sk_find :: "cmp_caller \<Rightarrow> ptr \<Rightarrow> stack option \<Rightarrow> nat option" where
  "sk_find call_cmp_func p sk =
     (case sk of
        None \<Rightarrow> None
      | Some s \<Rightarrow>
          if comp s = NULL then find_linear (\<lambda>e. e = p) (sdata s)
          else if p = NULL then None
          else if \<not> sk_is_sorted sk then find_linear (\<lambda>e. call_cmp_func (comp s) p e = 0) (sdata s)
          else find_binary (call_cmp_func (comp s) p) (sdata s) 0 (length (sdata s)))"

definition sk_shift :: "stack option \<Rightarrow> ptr \<times> stack option" where
  "sk_shift sk =
     (case sk of None \<Rightarrow> (NULL, None) | Some s \<Rightarrow> if length (sdata s) = 0 then (NULL, sk) else sk_delete 0 sk)"

definition sk_push :: "ptr \<Rightarrow> stack option \<Rightarrow> heap \<Rightarrow> nat \<times> stack option \<times> heap" where
  "sk_push p sk h = sk_insert p (sk_num sk) sk h"

definition sk_pop :: "stack option \<Rightarrow> ptr \<times> stack option" where
  "sk_pop sk =
     (case sk of
        None \<Rightarrow> (NULL, None)
      | Some s \<Rightarrow> if length (sdata s) = 0 then (NULL, sk) else sk_delete (length (sdata s) - 1) sk)"

definition sk_dup :: "stack option \<Rightarrow> heap \<Rightarrow> stack option \<times> heap" where
  "sk_dup sk h =
     (case sk of
        None \<Rightarrow> (None, h)
      | Some s \<Rightarrow>
          (case heap_alloc h of
             (False, h) \<Rightarrow> (None, h)
           | (True, h) \<Rightarrow> (case heap_alloc h of (ok, h) \<Rightarrow> (if ok then Some s else None, h))))"

definition sk_sort :: "cmp_caller \<Rightarrow> stack option \<Rightarrow> stack option" where
  "sk_sort call_cmp_func sk =
     (case sk of
        None \<Rightarrow> None
      | Some s \<Rightarrow>
          if comp s = NULL \<or> sorted_flag s then sk
          else let xs = (if length (sdata s) \<ge> 2 then qsort (call_cmp_func (comp s)) (sdata s) else sdata s)
               in Some (s\<lparr>sdata := xs, sorted_flag := True\<rparr>))"

definition sk_set_cmp_func :: "stack_cmp_func \<Rightarrow> stack \<Rightarrow> stack_cmp_func \<times> stack" where
  "sk_set_cmp_func cmp s =
     (let s' = (if comp s \<noteq> cmp then s\<lparr>sorted_flag := False\<rparr> else s) in (comp s, s'\<lparr>comp := cmp\<rparr>))"

text \<open>
  The loop of \<open>sk_deep_copy\<close>: \<open>done\<close> are the copies so far.  On a failed copy they are freed again.
\<close>

fun deep_copy_loop ::
  "(ptr \<Rightarrow> 's \<Rightarrow> ptr \<times> 's) \<Rightarrow> (ptr \<Rightarrow> 's \<Rightarrow> 's) \<Rightarrow> ptr list \<Rightarrow> ptr list \<Rightarrow> 's \<Rightarrow> ptr list option \<times> 's" where
  "deep_copy_loop copy_fn free_fn copies [] st = (Some copies, st)"
| "deep_copy_loop copy_fn free_fn copies (p # ps) st =
     (if p = NULL then deep_copy_loop copy_fn free_fn (copies @ [p]) ps st
      else case copy_fn p st of
             (q, st) \<Rightarrow>
               if q = NULL
               then (None, fold (\<lambda>c st. if c \<noteq> NULL then free_fn c st else st) copies st)
               else deep_copy_loop copy_fn free_fn (copies @ [q]) ps st)"

definition sk_deep_copy ::
  "(ptr \<Rightarrow> 's \<Rightarrow> ptr \<times> 's) \<Rightarrow> (ptr \<Rightarrow> 's \<Rightarrow> 's) \<Rightarrow> stack option \<Rightarrow> heap \<Rightarrow> 's \<Rightarrow> stack option \<times> heap \<times> 's" where
  "sk_deep_copy copy_fn free_fn sk h st =
     (case sk_dup sk h of
        (None, h) \<Rightarrow> (None, h, st)
      | (Some ret, h) \<Rightarrow>
          (case deep_copy_loop copy_fn free_fn [] (sdata ret) st of
             (None, st) \<Rightarrow> (sk_free (Some ret), h, st)
           | (Some xs, st) \<Rightarrow> (Some (ret\<lparr>sdata := xs\<rparr>), h, st)))"

section \<open>Searching\<close>

text \<open>The least index that the test hits.\<close>

lemma find_linear_Some:
  "find_linear hit xs = Some i \<longleftrightarrow> i < length xs \<and> hit (xs ! i) \<and> (\<forall>j < i. \<not> hit (xs ! j))"
proof (induction xs arbitrary: i)
  case (Cons x xs)
  show ?case
    using Cons.IH by (cases i) (auto simp: less_Suc_eq_0_disj)
qed simp

lemma find_linear_None: "find_linear hit xs = None \<longleftrightarrow> (\<forall>x \<in> set xs. \<not> hit x)"
  by (induction xs) auto

lemma find_linear_cong: "(\<And>x. x \<in> set xs \<Longrightarrow> f x = g x) \<Longrightarrow> find_linear f xs = find_linear g xs"
  by (induction xs) auto

text \<open>The elements in front of the range are too low, those behind it too high or equal to a later hit.\<close>

context comparator
begin

lemma find_binary_least:
  assumes "ordered cmp xs" and "hi \<le> length xs" and "lo \<le> hi"
    and "\<And>i. i < lo \<Longrightarrow> 0 < cmp p (xs ! i)" and "\<And>i. hi \<le> i \<Longrightarrow> i < length xs \<Longrightarrow> cmp p (xs ! i) \<le> 0"
    and "(\<exists>i < length xs. cmp p (xs ! i) = 0) \<longleftrightarrow> (\<exists>i. lo \<le> i \<and> i < hi \<and> cmp p (xs ! i) = 0)"
  shows "find_binary (cmp p) xs lo hi = find_linear (\<lambda>x. cmp p x = 0) xs"
  using assms
proof (induction "cmp p" xs lo hi rule: find_binary.induct)
  case (1 xs lo hi)
  have up: "cmp (xs ! i) (xs ! j) \<le> 0" if "i < j" "j < length xs" for i j
    using 1(4) that by (auto simp: ordered_def sorted_wrt_iff_nth_less)
  show ?case
  proof (cases "lo < hi")
    case False
    then have "\<forall>i < length xs. cmp p (xs ! i) \<noteq> 0"
      using 1(9) by auto
    then have "find_linear (\<lambda>x. cmp p x = 0) xs = None"
      by (auto simp: find_linear_None in_set_conv_nth)
    with False show ?thesis by (subst find_binary.simps) simp
  next
    case True
    define mid where "mid = lo + (hi - lo - 1) div 2"
    have "(hi - lo - 1) div 2 < hi - lo"
      using True by (intro le_less_trans [OF div_le_dividend]) simp
    then have mid: "lo \<le> mid" "mid < hi" "mid < length xs"
      using 1(5) by (auto simp: mid_def)
    let ?r = "cmp p (xs ! mid)"
    note step = find_binary.simps [of "cmp p" xs lo hi, unfolded Let_def, folded mid_def]
    consider "0 < ?r" | "?r < 0" | "?r = 0" "hi - lo = 1" | "?r = 0" "hi - lo \<noteq> 1" by linarith
    then show ?thesis
    proof cases
      case c: 1
      have low: "0 < cmp p (xs ! i)" if "i < mid + 1" for i
        using trans [of p "xs ! i" "xs ! mid"] up [of i mid] that c mid(3) by (cases "i = mid") force+
      have "(\<exists>i. lo \<le> i \<and> i < hi \<and> cmp p (xs ! i) = 0) \<longleftrightarrow> (\<exists>i. mid + 1 \<le> i \<and> i < hi \<and> cmp p (xs ! i) = 0)"
      proof (rule ex_cong1)
        fix i show "(lo \<le> i \<and> i < hi \<and> cmp p (xs ! i) = 0) = (mid + 1 \<le> i \<and> i < hi \<and> cmp p (xs ! i) = 0)"
          using low [of i] mid(1) by linarith
      qed
      then have e: "(\<exists>i < length xs. cmp p (xs ! i) = 0) \<longleftrightarrow> (\<exists>i. mid + 1 \<le> i \<and> i < hi \<and> cmp p (xs ! i) = 0)"
        using 1(9) by blast
      have "find_binary (cmp p) xs (mid + 1) hi = find_linear (\<lambda>x. cmp p x = 0) xs"
        by (rule 1(1) [OF True mid_def HOL.refl c 1(4,5) _ low 1(8) e]) (use mid in simp_all)
      with c True step show ?thesis by simp
    next
      case c: 2
      have high: "cmp p (xs ! i) < 0" if "mid \<le> i" "i < length xs" for i
      proof (cases "i = mid")
        case False
        then have u: "cmp (xs ! mid) (xs ! i) \<le> 0" using up that by simp
        then have "cmp p (xs ! i) \<le> 0" using trans [of p "xs ! mid" "xs ! i"] c by simp
        moreover have "cmp p (xs ! i) \<noteq> 0"
        proof
          assume "cmp p (xs ! i) = 0"
          then have "cmp (xs ! mid) p \<le> 0" using trans [OF u, of p] zero_sym [of p "xs ! i"] by simp
          then show False using antisym [of p "xs ! mid"] c by (auto simp: sgn_if split: if_splits)
        qed
        ultimately show ?thesis by simp
      qed (use c in simp)
      have "(\<exists>i. lo \<le> i \<and> i < hi \<and> cmp p (xs ! i) = 0) \<longleftrightarrow> (\<exists>i. lo \<le> i \<and> i < mid \<and> cmp p (xs ! i) = 0)"
      proof (rule ex_cong1)
        fix i show "(lo \<le> i \<and> i < hi \<and> cmp p (xs ! i) = 0) = (lo \<le> i \<and> i < mid \<and> cmp p (xs ! i) = 0)"
          using high [of i] mid 1(5) by linarith
      qed
      then have e: "(\<exists>i < length xs. cmp p (xs ! i) = 0) \<longleftrightarrow> (\<exists>i. lo \<le> i \<and> i < mid \<and> cmp p (xs ! i) = 0)"
        using 1(9) by blast
      have nc: "\<not> 0 < ?r" using c by simp
      have "find_binary (cmp p) xs lo mid = find_linear (\<lambda>x. cmp p x = 0) xs"
        by (rule 1(2) [OF True mid_def HOL.refl nc c 1(4) _ mid(1) 1(7) _ e])
          (use mid high in \<open>simp_all add: less_imp_le\<close>)
      with c True step show ?thesis by simp
    next
      case c: 3
      then have "mid = lo" using mid by simp
      then have "find_linear (\<lambda>x. cmp p x = 0) xs = Some mid"
        using c less_imp_neq [OF 1(7)] mid by (simp add: find_linear_Some)
      with c True step show ?thesis by simp
    next
      case c: 4
      have high: "cmp p (xs ! i) \<le> 0" if "mid + 1 \<le> i" "i < length xs" for i
        using trans [of p "xs ! mid" "xs ! i"] up [of mid i] that c by simp
      have "find_binary (cmp p) xs lo (mid + 1) = find_linear (\<lambda>x. cmp p x = 0) xs"
        by (rule 1(3) [OF True mid_def HOL.refl])
          (use c high 1(4-9) mid in \<open>auto intro: exI [of _ mid]\<close>)
      with c True step show ?thesis by simp
    qed
  qed
qed

end


section \<open>The array\<close>

text \<open>
  The contract of an indexed sequence that may fail to grow, which the stack provides: what an
  insertion and a deletion do to the elements.
\<close>

locale sequence =
  fixes seq :: "'s \<Rightarrow> 'a list" and ok :: "'s \<Rightarrow> bool"
    and ins :: "'a \<Rightarrow> nat \<Rightarrow> 's \<Rightarrow> 's option" and del :: "nat \<Rightarrow> 's \<Rightarrow> 'a \<times> 's"
  assumes ins_seq: "ok s \<Longrightarrow> ins x i s = Some s' \<Longrightarrow> ok s' \<and> seq s' = take i (seq s) @ x # drop i (seq s)"
    and del_seq: "ok s \<Longrightarrow> i < length (seq s) \<Longrightarrow> del i s = (y, s') \<Longrightarrow>
      ok s' \<and> y = seq s ! i \<and> seq s' = take i (seq s) @ drop (Suc i) (seq s)"
begin

lemma ins_del:
  assumes "ok s" and "ins x i s = Some s'" and "i \<le> length (seq s)" and "del i s' = (y, s'')"
  shows "ok s'' \<and> y = x \<and> seq s'' = seq s"
  using ins_seq [OF assms(1,2)] del_seq [of s' i y s''] assms(3,4) by (simp add: nth_append)

lemma ins_last: "ok s \<Longrightarrow> ins x (length (seq s)) s = Some s' \<Longrightarrow> ok s' \<and> seq s' = seq s @ [x]"
  using ins_seq [of s x "length (seq s)" s'] by simp

lemma del_last: "ok s \<Longrightarrow> seq s = xs @ [x] \<Longrightarrow> del (length xs) s = (y, s') \<Longrightarrow> ok s' \<and> y = x \<and> seq s' = xs"
  using del_seq [of s "length xs" y s'] by simp

lemma del_first: "ok s \<Longrightarrow> seq s = x # xs \<Longrightarrow> del 0 s = (y, s') \<Longrightarrow> ok s' \<and> y = x \<and> seq s' = xs"
  using del_seq [of s 0 y s'] by simp

end

definition stack_ok :: "stack \<Rightarrow> bool" where
  "stack_ok s \<longleftrightarrow> length (sdata s) < num_alloc s \<and> num_alloc s * 8 < 2 ^ 64"

lemma alloc_fits: "size_mul n 8 div 8 = n \<longleftrightarrow> n * 8 < 2 ^ 64"
proof (cases "n * 8 < 2 ^ 64")
  case False
  have "n * 8 mod 2 ^ 64 \<noteq> n * 8" using False mod_less_divisor [of "2 ^ 64" "n * 8"] by (metis zero_less_numeral zero_less_power)
  moreover have "n * 8 mod 2 ^ 64 = (n mod 2 ^ 61) * 8" using mult_mod_left [of n "2 ^ 61" 8] by simp
  ultimately show ?thesis using False by (simp add: size_mul_def)
qed (simp add: size_mul_def)

lemma grow_alloc_Some: "grow_alloc n = Some m \<Longrightarrow> n * 8 < 2 ^ 64 \<Longrightarrow> 0 < n \<Longrightarrow> n < m \<and> m * 8 < 2 ^ 64"
  by (auto simp: grow_alloc_def Let_def alloc_fits size_mul_def split: if_splits)

lemma sk_insert_cases:
  assumes "sk_insert p i (Some s) h = (n, sk, h')" and "stack_ok s"
  shows "n = 0 \<and> sk = Some s \<or>
    (\<exists>s'. sk = Some s' \<and> sdata s' = take i (sdata s) @ p # drop i (sdata s) \<and> n = length (sdata s') \<and> stack_ok s' \<and>
       \<not> sorted_flag s' \<and> comp s' = comp s)"
proof -
  have l: "size_add (length (sdata s)) 1 = length (sdata s) + 1"
    using assms(2) by (simp add: stack_ok_def)
  show ?thesis
    using assms grow_alloc_Some [of "num_alloc s"]
    by (auto simp: sk_insert_def Let_def l stack_ok_def split: if_splits option.splits prod.splits)
qed

definition stack_ins :: "ptr \<Rightarrow> nat \<Rightarrow> stack \<times> heap \<Rightarrow> (stack \<times> heap) option" where
  "stack_ins p i sh =
     (case sk_insert p i (Some (fst sh)) (snd sh) of (n, sk, h) \<Rightarrow> if n = 0 then None else map_option (\<lambda>s. (s, h)) sk)"

definition stack_del :: "nat \<Rightarrow> stack \<times> heap \<Rightarrow> ptr \<times> (stack \<times> heap)" where
  "stack_del i sh = (case sk_delete i (Some (fst sh)) of (p, sk) \<Rightarrow> (p, (the sk, snd sh)))"

interpretation stack_seq: sequence "\<lambda>sh. sdata (fst sh)" "\<lambda>sh. stack_ok (fst sh)" stack_ins stack_del
proof
  show "stack_ok (fst sh') \<and> sdata (fst sh') = take i (sdata (fst sh)) @ x # drop i (sdata (fst sh))"
    if "stack_ok (fst sh)" "stack_ins x i sh = Some sh'" for sh sh' x i
    using that sk_insert_cases [of x i "fst sh" "snd sh"]
    by (auto simp: stack_ins_def split: prod.splits if_splits)
  show "stack_ok (fst sh') \<and> y = sdata (fst sh) ! i \<and> sdata (fst sh') = take i (sdata (fst sh)) @ drop (Suc i) (sdata (fst sh))"
    if "stack_ok (fst sh)" "i < length (sdata (fst sh))" "stack_del i sh = (y, sh')" for sh sh' y i
    using that by (auto simp: stack_del_def sk_delete_def stack_ok_def)
qed


section \<open>Reachable stacks\<close>

text \<open>The operations that change a stack, and what a run of them can produce.\<close>

datatype stack_op = Zero | Set nat ptr | Insert ptr nat | Delete nat | Delete_ptr ptr | Shift | Push ptr | Pop | Sort
  | Set_cmp stack_cmp_func

definition run_stack_op :: "cmp_caller \<Rightarrow> stack_op \<Rightarrow> stack \<Rightarrow> heap \<Rightarrow> stack option \<times> heap" where
  "run_stack_op call op s h =
     (case op of
        Zero \<Rightarrow> (sk_zero (Some s), h)
      | Set i p \<Rightarrow> (snd (sk_set i p (Some s)), h)
      | Insert p i \<Rightarrow> snd (sk_insert p i (Some s) h)
      | Delete i \<Rightarrow> (snd (sk_delete i (Some s)), h)
      | Delete_ptr p \<Rightarrow> (snd (sk_delete_ptr p (Some s)), h)
      | Shift \<Rightarrow> (snd (sk_shift (Some s)), h)
      | Push p \<Rightarrow> snd (sk_push p (Some s) h)
      | Pop \<Rightarrow> (snd (sk_pop (Some s)), h)
      | Sort \<Rightarrow> (sk_sort call (Some s), h)
      | Set_cmp c \<Rightarrow> (Some (snd (sk_set_cmp_func c s)), h))"

text \<open>
  \<open>sk_set\<close> keeps the sorted flag whatever it stores, so a run may use it only on a stack that is not
  marked as sorted.
\<close>

inductive stack_reachable :: "cmp_caller \<Rightarrow> stack \<Rightarrow> bool" for call where
  new: "sk_new c h = (Some s, h') \<Longrightarrow> stack_reachable call s"
| op: "stack_reachable call s \<Longrightarrow> (\<And>i p. op = Set i p \<Longrightarrow> \<not> sorted_flag s) \<Longrightarrow>
    run_stack_op call op s h = (Some s', h') \<Longrightarrow> stack_reachable call s'"

definition stack_inv :: "cmp_caller \<Rightarrow> stack \<Rightarrow> bool" where
  "stack_inv call s \<longleftrightarrow> stack_ok s \<and> (sorted_flag s \<longrightarrow> comp s \<noteq> NULL \<and> ordered (call (comp s)) (sdata s))"

lemma ordered_short: "length xs < 2 \<Longrightarrow> ordered cmp xs"
  by (cases xs) (auto simp: ordered_def)

lemma ordered_delete: "ordered cmp xs \<Longrightarrow> ordered cmp (take i xs @ drop (Suc i) xs)"
proof -
  assume o: "ordered cmp xs"
  show ?thesis
  proof (cases "i < length xs")
    case True
    then have "xs = take i xs @ xs ! i # drop (Suc i) xs" by (simp add: id_take_nth_drop)
    then have "ordered cmp (take i xs @ xs ! i # drop (Suc i) xs)" using o by simp
    then show ?thesis by (simp add: ordered_def sorted_wrt_append)
  qed (use o in simp)
qed

lemma stack_inv_delete: "stack_inv call s \<Longrightarrow> sk_delete i (Some s) = (p, sk) \<Longrightarrow> \<exists>s'. sk = Some s' \<and> stack_inv call s'"
  by (auto simp: sk_delete_def stack_inv_def stack_ok_def ordered_delete split: if_splits)

lemma stack_inv_insert: "stack_inv call s \<Longrightarrow> sk_insert p i (Some s) h = (n, sk, h') \<Longrightarrow> \<exists>s'. sk = Some s' \<and> stack_inv call s'"
  using sk_insert_cases [of p i s h n sk h'] by (auto simp: stack_inv_def)

lemma stack_inv_run:
  assumes "stack_inv call s" and "\<And>c. c \<noteq> NULL \<Longrightarrow> comparator (call c)" and "\<And>i p. op = Set i p \<Longrightarrow> \<not> sorted_flag s"
    and "run_stack_op call op s h = (sk, h')"
  shows "\<exists>s'. sk = Some s' \<and> stack_inv call s'"
proof (cases op)
  case (Set i p)
  with assms show ?thesis by (auto simp: run_stack_op_def sk_set_def stack_inv_def stack_ok_def)
next
  case (Insert p i)
  with assms stack_inv_insert [of call s p i h] show ?thesis
    by (cases "sk_insert p i (Some s) h") (auto simp: run_stack_op_def)
next
  case (Push p)
  with assms stack_inv_insert [of call s p "length (sdata s)" h] show ?thesis
    by (cases "sk_insert p (length (sdata s)) (Some s) h") (auto simp: run_stack_op_def sk_push_def sk_num_def)
next
  case (Delete i)
  with assms stack_inv_delete [of call s i] show ?thesis
    by (cases "sk_delete i (Some s)") (auto simp: run_stack_op_def)
next
  case (Delete_ptr p)
  with assms show ?thesis
    using stack_inv_delete [of call s]
    by (auto simp: run_stack_op_def sk_delete_ptr_def split: option.splits) (metis prod.collapse)
next
  case Shift
  with assms stack_inv_delete [of call s 0] show ?thesis
    by (cases "sk_delete 0 (Some s)") (auto simp: run_stack_op_def sk_shift_def split: if_splits)
next
  case Pop
  with assms stack_inv_delete [of call s "length (sdata s) - 1"] show ?thesis
    by (cases "sk_delete (length (sdata s) - 1) (Some s)") (auto simp: run_stack_op_def sk_pop_def split: if_splits)
next
  case Sort
  with assms show ?thesis
    using comparator.ordered_qsort [of "call (comp s)" "sdata s"]
    by (auto simp: run_stack_op_def sk_sort_def stack_inv_def stack_ok_def ordered_short)
next
  case (Set_cmp c)
  with assms show ?thesis
    by (auto simp: run_stack_op_def sk_set_cmp_func_def Let_def stack_inv_def stack_ok_def)
next
  case Zero
  with assms show ?thesis
    by (auto simp: run_stack_op_def sk_zero_def stack_inv_def stack_ok_def)
qed

lemma stack_reachable_inv:
  assumes "stack_reachable call s" and "\<And>c. c \<noteq> NULL \<Longrightarrow> comparator (call c)"
  shows "stack_inv call s"
  using assms(1)
proof induction
  case (new c h s h')
  then show ?case
    by (auto simp: sk_new_def stack_inv_def stack_ok_def kMinSize_def split: prod.splits bool.splits)
next
  case (op s op h s' h')
  then show ?case using stack_inv_run [OF op(4) assms(2) op(2,3)] by auto
qed


section \<open>Pushing and draining\<close>

fun push_all :: "ptr list \<Rightarrow> stack \<times> heap \<Rightarrow> (stack \<times> heap) option" where
  "push_all [] sh = Some sh"
| "push_all (x # xs) sh =
     (case sk_push x (Some (fst sh)) (snd sh) of
        (n, None, h) \<Rightarrow> None
      | (n, Some s, h) \<Rightarrow> if n = 0 then None else push_all xs (s, h))"

fun drain :: "(stack option \<Rightarrow> ptr \<times> stack option) \<Rightarrow> nat \<Rightarrow> stack option \<Rightarrow> ptr list \<times> stack option" where
  "drain take_one 0 sk = ([], sk)"
| "drain take_one (Suc n) sk =
     (case take_one sk of (p, sk) \<Rightarrow> case drain take_one n sk of (ps, sk) \<Rightarrow> (p # ps, sk))"

lemma push_all_seq: "push_all xs sh = Some sh' \<Longrightarrow> stack_ok (fst sh) \<Longrightarrow> stack_ok (fst sh') \<and> sdata (fst sh') = sdata (fst sh) @ xs"
proof (induction xs arbitrary: sh)
  case (Cons x xs)
  then obtain s h where i: "stack_ins x (length (sdata (fst sh))) sh = Some (s, h)" and r: "push_all xs (s, h) = Some sh'"
    by (auto simp: stack_ins_def sk_push_def sk_num_def split: prod.splits option.splits if_splits)
  show ?case
    using Cons.IH [OF r] stack_seq.ins_last [OF Cons.prems(2) i] by simp
qed simp

lemma drain_pop:
  "stack_ok s \<Longrightarrow> sdata s = ys @ xs \<Longrightarrow> \<exists>s'. drain sk_pop (length xs) (Some s) = (rev xs, Some s') \<and> sdata s' = ys"
proof (induction xs arbitrary: s rule: rev_induct)
  case (snoc x xs)
  obtain p s1 h1 where d: "stack_del (length (ys @ xs)) (s, []) = (p, (s1, h1))" by (metis prod.exhaust)
  have s1: "stack_ok s1" "p = x" "sdata s1 = ys @ xs"
    using stack_seq.del_last [of "(s, [])" "ys @ xs" x, OF _ _ d] snoc.prems by auto
  have "sk_pop (Some s) = (x, Some s1)"
    using d s1 snoc.prems by (auto simp: stack_del_def sk_pop_def sk_delete_def)
  then show ?case using snoc.IH [OF s1(1,3)] by auto
qed simp

lemma drain_shift:
  "stack_ok s \<Longrightarrow> sdata s = xs @ ys \<Longrightarrow> \<exists>s'. drain sk_shift (length xs) (Some s) = (xs, Some s') \<and> sdata s' = ys"
proof (induction xs arbitrary: s)
  case (Cons x xs)
  obtain p s1 h1 where d: "stack_del 0 (s, []) = (p, (s1, h1))" by (metis prod.exhaust)
  have s1: "stack_ok s1" "p = x" "sdata s1 = xs @ ys"
    using stack_seq.del_first [of "(s, [])" x "xs @ ys", OF _ _ d] Cons.prems by auto
  have "sk_shift (Some s) = (x, Some s1)"
    using d s1 Cons.prems by (auto simp: stack_del_def sk_shift_def sk_delete_def)
  then show ?case using Cons.IH [OF s1(1,3)] by auto
qed simp

section \<open>Deep copies\<close>

text \<open>Copying and freeing against the multiset of the live copies.\<close>

definition live_copy :: "(ptr \<Rightarrow> ptr) \<Rightarrow> ptr \<Rightarrow> ptr multiset \<Rightarrow> ptr \<times> ptr multiset" where
  "live_copy c p live = (c p, if c p = NULL then live else add_mset (c p) live)"

definition live_free :: "ptr \<Rightarrow> ptr multiset \<Rightarrow> ptr multiset" where
  "live_free q live = live - {#q#}"

lemma live_free_all:
  "fold (\<lambda>q st. if q \<noteq> NULL then live_free q st else st) qs (live + mset (filter (\<lambda>q. q \<noteq> NULL) qs)) = live"
  by (induction qs) (auto simp: live_free_def)

lemma deep_copy_loop_live:
  assumes "deep_copy_loop (live_copy c) live_free qs ps (live + mset (filter (\<lambda>q. q \<noteq> NULL) qs)) = (r, live')"
  shows "case r of None \<Rightarrow> live' = live
    | Some xs \<Rightarrow> xs = qs @ map (\<lambda>p. if p = NULL then NULL else c p) ps \<and> live' = live + mset (filter (\<lambda>q. q \<noteq> NULL) xs)"
  using assms
proof (induction ps arbitrary: qs)
  case (Cons p ps)
  consider "p = NULL" | "p \<noteq> NULL" "c p = NULL" | "p \<noteq> NULL" "c p \<noteq> NULL" by auto
  then show ?case
  proof cases
    case 1
    with Cons.prems Cons.IH [of "qs @ [NULL]"] show ?thesis by (auto split: option.splits)
  next
    case 2
    with Cons.prems live_free_all [of qs live] show ?thesis by (auto simp: live_copy_def)
  next
    case 3
    with Cons.prems Cons.IH [of "qs @ [c p]"] show ?thesis by (auto simp: live_copy_def split: option.splits)
  qed
qed auto

section \<open>Properties\<close>

text \<open>The comparison of the witnesses: addresses as numbers.\<close>

definition by_address :: cmp_caller where
  "by_address c a b = int a - int b"

interpretation by_address_order: linear_comparator "by_address c"
  by unfold_locales (auto simp: by_address_def sgn_if)






text \<open>C36: A stack is a list: what has been pushed comes back in reverse order from \<open>sk_pop\<close> and in order, after
  what was there before, from \<open>sk_shift\<close>.\<close>

theorem stack_lifo_fifo:
  assumes "stack_ok s" and "push_all xs (s, h) = Some (s', h')"
  shows "\<exists>popped shifted. drain sk_pop (length xs) (Some s') = (rev xs, Some popped) \<and> sdata popped = sdata s \<and>
    drain sk_shift (length (sdata s) + length xs) (Some s') = (sdata s @ xs, Some shifted) \<and> sdata shifted = []"
proof -
  have s: "stack_ok s'" "sdata s' = sdata s @ xs"
    using push_all_seq [OF assms(2)] assms(1) by auto
  show ?thesis
    using drain_pop [OF s] drain_shift [OF s(1), of "sdata s @ xs" "[]"] s(2) by auto
qed

theorem stack_lifo_fifo_witness:
  "\<exists>s popped. push_all [7, 8, 9] (\<lparr>sdata = [6], sorted_flag = False, num_alloc = 2, comp = 0\<rparr>, [True, True]) = Some (s, []) \<and>
    drain sk_pop 3 (Some s) = ([9, 8, 7], Some popped) \<and> sdata popped = [6]"
proof -
  let ?s = "\<lparr>sdata = [6], sorted_flag = False, num_alloc = 2, comp = 0\<rparr>"
  let ?s' = "\<lparr>sdata = [6, 7, 8, 9], sorted_flag = False, num_alloc = 8, comp = 0\<rparr>"
  have p: "push_all [7, 8, 9] (?s, [True, True]) = Some (?s', [])"
    by code_simp
  have "stack_ok ?s" by (simp add: stack_ok_def)
  then obtain popped where "drain sk_pop (length [7, 8, 9 :: nat]) (Some ?s') = (rev [7, 8, 9], Some popped)" "sdata popped = [6]"
    using stack_lifo_fifo [OF _ p] by (auto simp del: drain.simps)
  then have "drain sk_pop 3 (Some ?s') = ([9, 8, 7], Some popped) \<and> sdata popped = [6]"
    by (simp del: drain.simps add: numeral_3_eq_3)
  with p show ?thesis by blast
qed

text \<open>\<open>sk_deep_copy\<close> leaks nothing: when it fails, exactly the copies made so far have been freed again; when
  it succeeds, the live copies are the elements of the new stack.\<close>

theorem sk_deep_copy_live:
  assumes "sk_deep_copy (live_copy c) live_free (Some s) h live = (r, h', live')"
  shows "case r of None \<Rightarrow> live' = live
    | Some s' \<Rightarrow> sdata s' = map (\<lambda>p. if p = NULL then NULL else c p) (sdata s) \<and>
        live' = live + mset (filter (\<lambda>q. q \<noteq> NULL) (sdata s')) \<and> comp s' = comp s \<and> sorted_flag s' = sorted_flag s"
  using assms deep_copy_loop_live [of c "[]" "sdata s" live]
  by (auto simp: sk_deep_copy_def sk_dup_def sk_free_def split: option.splits prod.splits bool.splits if_splits)

theorem sk_deep_copy_live_witness:
  "let s = \<lparr>sdata = [3, 0, 4], sorted_flag = False, num_alloc = 4, comp = 0\<rparr>
   in fst (sk_deep_copy (live_copy (\<lambda>p. if p = 4 then 0 else p + 100)) live_free (Some s) [] {#1#}) = None \<and>
      snd (snd (sk_deep_copy (live_copy (\<lambda>p. if p = 4 then 0 else p + 100)) live_free (Some s) [] {#1#})) = {#1#}"
proof -
  let ?s = "\<lparr>sdata = [3, 0, 4], sorted_flag = False, num_alloc = 4, comp = 0\<rparr>"
  define c where "c = (\<lambda>p :: ptr. if p = 4 then 0 else p + 100)"
  obtain r h' live' where run: "sk_deep_copy (live_copy c) live_free (Some ?s) [] {#1#} = (r, h', live')"
    by (cases "sk_deep_copy (live_copy c) live_free (Some ?s) [] {#1#}")
  then have r: "r = None"
    by (auto simp: sk_deep_copy_def sk_dup_def sk_free_def live_copy_def c_def)
  have "live' = {#1#}"
    using sk_deep_copy_live [OF run] unfolding r by simp
  then show ?thesis
    unfolding c_def [symmetric] Let_def run r by simp
qed

end
