(* ===== verification/Bio.thy ===== *)
theory Bio
  imports Mem
begin

text \<open>
  The I/O abstraction of \<open>crypto/bio/bio.c\<close>: the part of a \<open>BIO\<close> every kind has, and the calls that
  dispatch to a method table.

  A kind of BIO extends the record with what it keeps behind \<open>ptr\<close>.  Whatever else a method can
  reach (the allocator, the peer of a BIO pair) is its environment \<open>'e\<close>, and \<open>'p\<close> is what the pointer
  argument of its control commands points to.  The buffer a reading call
  fills is the list of bytes it has written to it.  The \<open>BIO\<close> and the data of a call are not NULL.
\<close>

section \<open>State\<close>

record bio =
  init :: bool
  shutdown :: int
  flags :: u32
  retry_reason :: int
  num :: int
  num_read :: nat
  num_write :: nat

record ('b, 'e, 'p) bio_method =
  bwrite :: "(byte list \<Rightarrow> 'b \<Rightarrow> 'e \<Rightarrow> int \<times> 'b \<times> 'e) option"
  bread :: "(int \<Rightarrow> 'b \<Rightarrow> 'e \<Rightarrow> int \<times> byte list \<times> 'b \<times> 'e) option"
  bgets :: "(int \<Rightarrow> 'b \<Rightarrow> 'e \<Rightarrow> int \<times> byte list \<times> 'b \<times> 'e) option"
  ctrl :: "(int \<Rightarrow> int \<Rightarrow> 'p option \<Rightarrow> 'b \<Rightarrow> 'e \<Rightarrow> int \<times> 'b \<times> 'e) option"

section \<open>Flags\<close>

definition BIO_FLAGS_READ :: u32 where
  "BIO_FLAGS_READ = 0x01"

definition BIO_FLAGS_WRITE :: u32 where
  "BIO_FLAGS_WRITE = 0x02"

definition BIO_FLAGS_IO_SPECIAL :: u32 where
  "BIO_FLAGS_IO_SPECIAL = 0x04"

definition BIO_FLAGS_RWS :: u32 where
  "BIO_FLAGS_RWS = BIO_FLAGS_READ OR BIO_FLAGS_WRITE OR BIO_FLAGS_IO_SPECIAL"

definition BIO_FLAGS_SHOULD_RETRY :: u32 where
  "BIO_FLAGS_SHOULD_RETRY = 0x08"

definition BIO_FLAGS_MEM_RDONLY :: u32 where
  "BIO_FLAGS_MEM_RDONLY = 0x200"

definition kRetryFlags :: u32 where
  "kRetryFlags = BIO_FLAGS_RWS OR BIO_FLAGS_SHOULD_RETRY"

lemmas bio_flag_defs = BIO_FLAGS_READ_def BIO_FLAGS_WRITE_def BIO_FLAGS_IO_SPECIAL_def BIO_FLAGS_RWS_def
  BIO_FLAGS_SHOULD_RETRY_def BIO_FLAGS_MEM_RDONLY_def kRetryFlags_def

definition BIO_set_flags :: "'m bio_scheme \<Rightarrow> u32 \<Rightarrow> 'm bio_scheme" where
  "BIO_set_flags bio f = bio\<lparr>flags := flags bio OR f\<rparr>"

definition BIO_test_flags :: "'m bio_scheme \<Rightarrow> u32 \<Rightarrow> u32" where
  "BIO_test_flags bio f = flags bio AND f"

definition BIO_should_read :: "'m bio_scheme \<Rightarrow> u32" where
  "BIO_should_read bio = BIO_test_flags bio BIO_FLAGS_READ"

definition BIO_should_write :: "'m bio_scheme \<Rightarrow> u32" where
  "BIO_should_write bio = BIO_test_flags bio BIO_FLAGS_WRITE"

definition BIO_should_retry :: "'m bio_scheme \<Rightarrow> u32" where
  "BIO_should_retry bio = BIO_test_flags bio BIO_FLAGS_SHOULD_RETRY"

definition BIO_should_io_special :: "'m bio_scheme \<Rightarrow> u32" where
  "BIO_should_io_special bio = BIO_test_flags bio BIO_FLAGS_IO_SPECIAL"

definition BIO_get_retry_reason :: "'m bio_scheme \<Rightarrow> int" where
  "BIO_get_retry_reason bio = retry_reason bio"

definition BIO_set_retry_reason :: "'m bio_scheme \<Rightarrow> int \<Rightarrow> 'm bio_scheme" where
  "BIO_set_retry_reason bio reason = bio\<lparr>retry_reason := reason\<rparr>"

definition BIO_clear_flags :: "'m bio_scheme \<Rightarrow> u32 \<Rightarrow> 'm bio_scheme" where
  "BIO_clear_flags bio f = bio\<lparr>flags := flags bio AND NOT f\<rparr>"

definition BIO_set_retry_read :: "'m bio_scheme \<Rightarrow> 'm bio_scheme" where
  "BIO_set_retry_read bio = bio\<lparr>flags := flags bio OR (BIO_FLAGS_READ OR BIO_FLAGS_SHOULD_RETRY)\<rparr>"

definition BIO_set_retry_write :: "'m bio_scheme \<Rightarrow> 'm bio_scheme" where
  "BIO_set_retry_write bio = bio\<lparr>flags := flags bio OR (BIO_FLAGS_WRITE OR BIO_FLAGS_SHOULD_RETRY)\<rparr>"

definition BIO_get_retry_flags :: "'m bio_scheme \<Rightarrow> u32" where
  "BIO_get_retry_flags bio = flags bio AND kRetryFlags"

definition BIO_clear_retry_flags :: "'m bio_scheme \<Rightarrow> 'm bio_scheme" where
  "BIO_clear_retry_flags bio = bio\<lparr>flags := flags bio AND NOT kRetryFlags, retry_reason := 0\<rparr>"

text \<open>The second argument is \<open>bio->next_bio\<close>.\<close>

definition BIO_copy_next_retry :: "'m bio_scheme \<Rightarrow> 'n bio_scheme \<Rightarrow> 'm bio_scheme" where
  "BIO_copy_next_retry bio next_bio =
     (BIO_set_flags (BIO_clear_retry_flags bio) (BIO_get_retry_flags next_bio))\<lparr>retry_reason := retry_reason next_bio\<rparr>"

section \<open>Control commands\<close>

definition BIO_CTRL_RESET :: int where
  "BIO_CTRL_RESET = 1"

definition BIO_CTRL_EOF :: int where
  "BIO_CTRL_EOF = 2"

definition BIO_CTRL_INFO :: int where
  "BIO_CTRL_INFO = 3"

definition BIO_CTRL_GET_CLOSE :: int where
  "BIO_CTRL_GET_CLOSE = 8"

definition BIO_CTRL_SET_CLOSE :: int where
  "BIO_CTRL_SET_CLOSE = 9"

definition BIO_CTRL_PENDING :: int where
  "BIO_CTRL_PENDING = 10"

definition BIO_CTRL_FLUSH :: int where
  "BIO_CTRL_FLUSH = 11"

definition BIO_CTRL_WPENDING :: int where
  "BIO_CTRL_WPENDING = 13"

definition BIO_C_SET_BUF_MEM :: int where
  "BIO_C_SET_BUF_MEM = 114"

definition BIO_C_GET_BUF_MEM_PTR :: int where
  "BIO_C_GET_BUF_MEM_PTR = 115"

definition BIO_C_SET_BUF_MEM_EOF_RETURN :: int where
  "BIO_C_SET_BUF_MEM_EOF_RETURN = 130"

definition BIO_C_GET_WRITE_BUF_SIZE :: int where
  "BIO_C_GET_WRITE_BUF_SIZE = 137"

definition BIO_C_GET_WRITE_GUARANTEE :: int where
  "BIO_C_GET_WRITE_GUARANTEE = 140"

definition BIO_C_GET_READ_REQUEST :: int where
  "BIO_C_GET_READ_REQUEST = 141"

definition BIO_C_SHUTDOWN_WR :: int where
  "BIO_C_SHUTDOWN_WR = 142"

definition BIO_C_RESET_READ_REQUEST :: int where
  "BIO_C_RESET_READ_REQUEST = 147"

lemmas bio_ctrl_defs = BIO_CTRL_RESET_def BIO_CTRL_EOF_def BIO_CTRL_INFO_def BIO_CTRL_GET_CLOSE_def
  BIO_CTRL_SET_CLOSE_def BIO_CTRL_PENDING_def BIO_CTRL_FLUSH_def BIO_CTRL_WPENDING_def BIO_C_SET_BUF_MEM_def
  BIO_C_GET_BUF_MEM_PTR_def BIO_C_SET_BUF_MEM_EOF_RETURN_def BIO_C_GET_WRITE_BUF_SIZE_def
  BIO_C_GET_WRITE_GUARANTEE_def BIO_C_GET_READ_REQUEST_def BIO_C_SHUTDOWN_WR_def BIO_C_RESET_READ_REQUEST_def

section \<open>Calls\<close>

text \<open>\<open>BIO_new\<close>: the method's \<open>create\<close> and what the kind keeps, cleared, are arguments.\<close>

definition BIO_new ::
  "('m bio_scheme \<Rightarrow> heap \<Rightarrow> bool \<times> 'm bio_scheme \<times> heap) option \<Rightarrow> 'm \<Rightarrow> heap \<Rightarrow> 'm bio_scheme option \<times> heap" where
  "BIO_new create zero h =
     (case heap_alloc h of
        (False, h) \<Rightarrow> (None, h)
      | (True, h) \<Rightarrow>
          let ret = bio.extend \<lparr>init = False, shutdown = 1, flags = 0, retry_reason = 0, num = 0, num_read = 0, num_write = 0\<rparr> zero
          in case create of
               None \<Rightarrow> (Some ret, h)
             | Some f \<Rightarrow> (case f ret h of (ok, ret, h) \<Rightarrow> (if ok then Some ret else None, h)))"

definition BIO_ctrl ::
  "('m bio_scheme, 'e, 'p) bio_method \<Rightarrow> int \<Rightarrow> int \<Rightarrow> 'p option \<Rightarrow> 'm bio_scheme \<Rightarrow> 'e \<Rightarrow> int \<times> 'm bio_scheme \<times> 'e" where
  "BIO_ctrl method cmd larg parg bio e =
     (case ctrl method of None \<Rightarrow> (- 2, bio, e) | Some f \<Rightarrow> f cmd larg parg bio e)"

definition BIO_flush :: "('m bio_scheme, 'e, 'p) bio_method \<Rightarrow> 'm bio_scheme \<Rightarrow> 'e \<Rightarrow> int \<times> 'm bio_scheme \<times> 'e" where
  "BIO_flush method bio e = BIO_ctrl method BIO_CTRL_FLUSH 0 None bio e"

definition BIO_reset :: "('m bio_scheme, 'e, 'p) bio_method \<Rightarrow> 'm bio_scheme \<Rightarrow> 'e \<Rightarrow> int \<times> 'm bio_scheme \<times> 'e" where
  "BIO_reset method bio e = BIO_ctrl method BIO_CTRL_RESET 0 None bio e"

definition BIO_eof :: "('m bio_scheme, 'e, 'p) bio_method \<Rightarrow> 'm bio_scheme \<Rightarrow> 'e \<Rightarrow> int \<times> 'm bio_scheme \<times> 'e" where
  "BIO_eof method bio e = BIO_ctrl method BIO_CTRL_EOF 0 None bio e"

definition BIO_pending :: "('m bio_scheme, 'e, 'p) bio_method \<Rightarrow> 'm bio_scheme \<Rightarrow> 'e \<Rightarrow> nat" where
  "BIO_pending method bio e =
     (let r = fst (BIO_ctrl method BIO_CTRL_PENDING 0 None bio e) in if r < 0 then 0 else nat r)"

definition BIO_wpending :: "('m bio_scheme, 'e, 'p) bio_method \<Rightarrow> 'm bio_scheme \<Rightarrow> 'e \<Rightarrow> nat" where
  "BIO_wpending method bio e =
     (let r = fst (BIO_ctrl method BIO_CTRL_WPENDING 0 None bio e) in if r < 0 then 0 else nat r)"

definition BIO_set_close :: "('m bio_scheme, 'e, 'p) bio_method \<Rightarrow> int \<Rightarrow> 'm bio_scheme \<Rightarrow> 'e \<Rightarrow> int \<times> 'm bio_scheme \<times> 'e" where
  "BIO_set_close method close_flag bio e = BIO_ctrl method BIO_CTRL_SET_CLOSE close_flag None bio e"

definition BIO_read ::
  "('m bio_scheme, 'e, 'p) bio_method \<Rightarrow> int \<Rightarrow> 'm bio_scheme \<Rightarrow> 'e \<Rightarrow> int \<times> byte list \<times> 'm bio_scheme \<times> 'e" where
  "BIO_read method len bio e =
     (case bread method of
        None \<Rightarrow> (- 2, [], bio, e)
      | Some f \<Rightarrow>
          if \<not> init bio then (- 2, [], bio, e)
          else if len \<le> 0 then (0, [], bio, e)
          else case f len bio e of
                 (ret, out, bio, e) \<Rightarrow>
                   (ret, out, (if ret > 0 then bio\<lparr>num_read := size_add (num_read bio) (nat ret)\<rparr> else bio), e))"

definition BIO_gets ::
  "('m bio_scheme, 'e, 'p) bio_method \<Rightarrow> int \<Rightarrow> 'm bio_scheme \<Rightarrow> 'e \<Rightarrow> int \<times> byte list \<times> 'm bio_scheme \<times> 'e" where
  "BIO_gets method len bio e =
     (case bgets method of
        None \<Rightarrow> (- 2, [], bio, e)
      | Some f \<Rightarrow>
          if \<not> init bio then (- 2, [], bio, e)
          else if len \<le> 0 then (0, [], bio, e)
          else case f len bio e of
                 (ret, out, bio, e) \<Rightarrow>
                   (ret, out, (if ret > 0 then bio\<lparr>num_read := size_add (num_read bio) (nat ret)\<rparr> else bio), e))"

text \<open>The data of a write is the list of the \<open>inl\<close> bytes at \<open>in\<close>.\<close>

definition BIO_write ::
  "('m bio_scheme, 'e, 'p) bio_method \<Rightarrow> byte list \<Rightarrow> 'm bio_scheme \<Rightarrow> 'e \<Rightarrow> int \<times> 'm bio_scheme \<times> 'e" where
  "BIO_write method bs bio e =
     (case bwrite method of
        None \<Rightarrow> (- 2, bio, e)
      | Some f \<Rightarrow>
          if \<not> init bio then (- 2, bio, e)
          else if length bs = 0 then (0, bio, e)
          else case f bs bio e of
                 (ret, bio, e) \<Rightarrow>
                   (ret, (if ret > 0 then bio\<lparr>num_write := size_add (num_write bio) (nat ret)\<rparr> else bio), e))"

function BIO_write_all ::
  "('m bio_scheme, 'e, 'p) bio_method \<Rightarrow> byte list \<Rightarrow> 'm bio_scheme \<Rightarrow> 'e \<Rightarrow> bool \<times> 'm bio_scheme \<times> 'e" where
  "BIO_write_all method bs bio e =
     (if length bs > 0
      then let (ret, bio, e) = BIO_write method (if length bs > INT_MAX then take INT_MAX bs else bs) bio e
           in if ret \<le> 0 then (False, bio, e) else BIO_write_all method (drop (nat ret) bs) bio e
      else (True, bio, e))"
  by pat_completeness auto
termination
  by (relation "measure (\<lambda>(_, bs, _). length bs)") auto

declare BIO_write_all.simps [simp del]

definition BIO_puts ::
  "('m bio_scheme, 'e, 'p) bio_method \<Rightarrow> byte list \<Rightarrow> 'm bio_scheme \<Rightarrow> 'e \<Rightarrow> int \<times> 'm bio_scheme \<times> 'e" where
  "BIO_puts method s bio e = BIO_write method s bio e"

fun indent_loop :: "('m bio_scheme, 'e, 'p) bio_method \<Rightarrow> nat \<Rightarrow> 'm bio_scheme \<Rightarrow> 'e \<Rightarrow> bool \<times> 'm bio_scheme \<times> 'e" where
  "indent_loop method 0 bio e = (True, bio, e)"
| "indent_loop method (Suc indent) bio e =
     (case BIO_puts method [32] bio e of
        (ret, bio, e) \<Rightarrow> if ret \<noteq> 1 then (False, bio, e) else indent_loop method indent bio e)"

definition BIO_indent ::
  "('m bio_scheme, 'e, 'p) bio_method \<Rightarrow> nat \<Rightarrow> nat \<Rightarrow> 'm bio_scheme \<Rightarrow> 'e \<Rightarrow> bool \<times> 'm bio_scheme \<times> 'e" where
  "BIO_indent method indent max_indent bio e =
     indent_loop method (if indent > max_indent then max_indent else indent) bio e"

definition BIO_number_read :: "'m bio_scheme \<Rightarrow> nat" where
  "BIO_number_read bio = num_read bio"

definition BIO_number_written :: "'m bio_scheme \<Rightarrow> nat" where
  "BIO_number_written bio = num_write bio"

section \<open>The contract of a byte stream\<close>

text \<open>
  What every reliable stream promises: each operation accepts some bytes and delivers some, and the
  bytes in transit account for the difference, in order.
\<close>

locale byte_stream =
  fixes inv :: "'s \<Rightarrow> bool" and contents :: "'s \<Rightarrow> byte list" and exec :: "'op \<Rightarrow> 's \<Rightarrow> 's"
    and puts :: "'op \<Rightarrow> 's \<Rightarrow> byte list" and gets :: "'op \<Rightarrow> 's \<Rightarrow> byte list"
  assumes exec_inv: "inv s \<Longrightarrow> inv (exec p s)"
    and exec_law: "inv s \<Longrightarrow> contents s @ puts p s = gets p s @ contents (exec p s)"

text \<open>What a run of operations accepts or delivers.\<close>

fun along :: "('op \<Rightarrow> 's \<Rightarrow> 's) \<Rightarrow> ('op \<Rightarrow> 's \<Rightarrow> byte list) \<Rightarrow> 'op list \<Rightarrow> 's \<Rightarrow> byte list" where
  "along exec f [] s = []"
| "along exec f (p # ps) s = f p s @ along exec f ps (exec p s)"

context byte_stream
begin

lemma run_inv: "inv s \<Longrightarrow> inv (fold exec ps s)"
  by (induction ps arbitrary: s) (auto intro: exec_inv)

lemma run_law: "inv s \<Longrightarrow> contents s @ along exec puts ps s = along exec gets ps s @ contents (fold exec ps s)"
proof (induction ps arbitrary: s)
  case (Cons p ps)
  have "contents s @ along exec puts (p # ps) s = gets p s @ (contents (exec p s) @ along exec puts ps (exec p s))"
    using exec_law [OF Cons.prems, of p] by (simp add: append_eq_append_conv2) (metis append_assoc)
  then show ?case using Cons.IH [OF exec_inv [OF Cons.prems, of p]] by simp
qed simp

end

section \<open>Flag lemmas\<close>

lemma retry_after_clear [simp]:
  "BIO_should_retry (BIO_clear_retry_flags bio) = 0"
  "BIO_should_read (BIO_clear_retry_flags bio) = 0"
  "BIO_should_write (BIO_clear_retry_flags bio) = 0"
  by (simp_all add: BIO_should_retry_def BIO_should_read_def BIO_should_write_def BIO_test_flags_def
      BIO_clear_retry_flags_def bio_flag_defs and.assoc)

lemma rdonly_after_clear [simp]:
  "flags (BIO_clear_retry_flags bio) AND BIO_FLAGS_MEM_RDONLY = flags bio AND BIO_FLAGS_MEM_RDONLY"
  by (simp add: BIO_clear_retry_flags_def bio_flag_defs and.assoc)

lemma rdonly_after_retry [simp]:
  "flags (BIO_set_retry_read bio) AND BIO_FLAGS_MEM_RDONLY = flags bio AND BIO_FLAGS_MEM_RDONLY"
  "flags (BIO_set_retry_write bio) AND BIO_FLAGS_MEM_RDONLY = flags bio AND BIO_FLAGS_MEM_RDONLY"
  by (simp_all add: BIO_set_retry_read_def BIO_set_retry_write_def bio_flag_defs bit.conj_disj_distrib2)

lemma should_retry_set [simp]:
  "BIO_should_retry (BIO_set_retry_read bio) \<noteq> 0" "BIO_should_read (BIO_set_retry_read bio) \<noteq> 0"
  "BIO_should_retry (BIO_set_retry_write bio) \<noteq> 0" "BIO_should_write (BIO_set_retry_write bio) \<noteq> 0"
  by (simp_all add: BIO_should_retry_def BIO_should_read_def BIO_should_write_def BIO_test_flags_def
      BIO_set_retry_read_def BIO_set_retry_write_def bio_flag_defs bit.conj_disj_distrib2)

end
