(* ===== verification/LHash.thy ===== *)
theory LHash
  imports Mem "HOL-Library.Multiset"
begin

text \<open>
  The hash table of \<open>crypto/lhash/lhash.c\<close>: separate chaining with cached hash values and a bucket
  array that is resized to keep the chains short.

  A chain is a list of items; a \<open>LHASH_ITEM **\<close> into it is the bucket number with the position in
  the chain, the length of the chain when the search has run off its end.  \<open>num_buckets\<close> is the
  length of the array.  The hash and comparison functions stored in the table are arguments, since
  they never change.
\<close>

section \<open>State\<close>

record 'a lhash_item =
  idata :: 'a
  ihash :: u32 \<comment> \<open>the cached hash value\<close>

record 'a lhash =
  num_items :: nat
  buckets :: "'a lhash_item list list"
  callback_depth :: nat

definition kMinNumBuckets :: nat where
  "kMinNumBuckets = 16"

definition kMaxAverageChainLength :: nat where
  "kMaxAverageChainLength = 2"

definition kMinAverageChainLength :: nat where
  "kMinAverageChainLength = 1"

abbreviation (input) UINT_MAX :: nat where
  "UINT_MAX \<equiv> 2 ^ 32 - 1"

abbreviation num_buckets :: "'a lhash \<Rightarrow> nat" where
  "num_buckets lh \<equiv> length (buckets lh)"

section \<open>Operations\<close>

definition OPENSSL_lh_new :: "heap \<Rightarrow> 'a lhash option \<times> heap" where
  "OPENSSL_lh_new h =
     (case heap_alloc h of
        (False, h) \<Rightarrow> (None, h)
      | (True, h) \<Rightarrow>
          (case heap_alloc h of
             (False, h) \<Rightarrow> (None, h)
           | (True, h) \<Rightarrow>
               (Some \<lparr>num_items = 0, buckets = replicate kMinNumBuckets [], callback_depth = 0\<rparr>, h)))"

text \<open>How many blocks \<open>OPENSSL_lh_free\<close> releases: each item, the array and the table.\<close>

definition OPENSSL_lh_free :: "'a lhash option \<Rightarrow> nat" where
  "OPENSSL_lh_free lh =
     (case lh of
        None \<Rightarrow> 0
      | Some lh \<Rightarrow> fold (\<lambda>chain freed. fold (\<lambda>n freed. freed + 1) chain freed) (buckets lh) 0 + 2)"

definition OPENSSL_lh_num_items :: "'a lhash \<Rightarrow> nat" where
  "OPENSSL_lh_num_items lh = num_items lh"

text \<open>The walk down a chain to the first item the test hits.\<close>

fun chain_walk :: "('a \<Rightarrow> bool) \<Rightarrow> 'a lhash_item list \<Rightarrow> nat" where
  "chain_walk hit [] = 0"
| "chain_walk hit (cur # rest) = (if hit (idata cur) then 0 else Suc (chain_walk hit rest))"

definition bucket_of :: "'a lhash \<Rightarrow> u32 \<Rightarrow> nat" where
  "bucket_of lh hash = unat hash mod num_buckets lh"

definition get_next_ptr_and_hash ::
  "('a \<Rightarrow> u32) \<Rightarrow> ('a \<Rightarrow> 'a \<Rightarrow> int) \<Rightarrow> 'a \<Rightarrow> 'a lhash \<Rightarrow> nat \<times> nat \<times> u32" where
  "get_next_ptr_and_hash hash_fn cmp_fn d lh =
     (let hash = hash_fn d; b = bucket_of lh hash
      in (b, chain_walk (\<lambda>x. cmp_fn x d = 0) (buckets lh ! b), hash))"

definition get_next_ptr_by_key :: "'k \<Rightarrow> u32 \<Rightarrow> ('k \<Rightarrow> 'a \<Rightarrow> int) \<Rightarrow> 'a lhash \<Rightarrow> nat \<times> nat" where
  "get_next_ptr_by_key key key_hash cmp_key lh =
     (let b = bucket_of lh key_hash in (b, chain_walk (\<lambda>x. cmp_key key x = 0) (buckets lh ! b)))"

definition item_at :: "'a lhash \<Rightarrow> nat \<Rightarrow> nat \<Rightarrow> 'a option" where
  "item_at lh b k = (if k < length (buckets lh ! b) then Some (idata (buckets lh ! b ! k)) else None)"

definition OPENSSL_lh_retrieve :: "('a \<Rightarrow> u32) \<Rightarrow> ('a \<Rightarrow> 'a \<Rightarrow> int) \<Rightarrow> 'a \<Rightarrow> 'a lhash \<Rightarrow> 'a option" where
  "OPENSSL_lh_retrieve hash_fn cmp_fn d lh =
     (case get_next_ptr_and_hash hash_fn cmp_fn d lh of (b, k, _) \<Rightarrow> item_at lh b k)"

definition OPENSSL_lh_retrieve_key :: "'k \<Rightarrow> u32 \<Rightarrow> ('k \<Rightarrow> 'a \<Rightarrow> int) \<Rightarrow> 'a lhash \<Rightarrow> 'a option" where
  "OPENSSL_lh_retrieve_key key key_hash cmp_key lh =
     (case get_next_ptr_by_key key key_hash cmp_key lh of (b, k) \<Rightarrow> item_at lh b k)"

text \<open>Each item moves to the head of its new chain.\<close>

definition move_item :: "nat \<Rightarrow> 'a lhash_item \<Rightarrow> 'a lhash_item list list \<Rightarrow> 'a lhash_item list list" where
  "move_item n cur new_buckets =
     (let new_bucket = unat (ihash cur) mod n in new_buckets[new_bucket := cur # new_buckets ! new_bucket])"

definition lh_rebucket :: "nat \<Rightarrow> 'a lhash \<Rightarrow> heap \<Rightarrow> 'a lhash \<times> heap" where
  "lh_rebucket new_num_buckets lh h =
     (if size_mul 8 new_num_buckets div 8 \<noteq> new_num_buckets then (lh, h)
      else case heap_alloc h of
             (False, h) \<Rightarrow> (lh, h)
           | (True, h) \<Rightarrow>
               (lh\<lparr>buckets := fold (\<lambda>chain nb. fold (move_item new_num_buckets) chain nb) (buckets lh)
                     (replicate new_num_buckets [])\<rparr>, h))"

definition lh_maybe_resize :: "'a lhash \<Rightarrow> heap \<Rightarrow> 'a lhash \<times> heap" where
  "lh_maybe_resize lh h =
     (if callback_depth lh > 0 then (lh, h)
      else let avg_chain_length = num_items lh div num_buckets lh
           in if avg_chain_length > kMaxAverageChainLength
              then let new_num_buckets = size_mul (num_buckets lh) 2
                   in if new_num_buckets > num_buckets lh then lh_rebucket new_num_buckets lh h else (lh, h)
              else if avg_chain_length < kMinAverageChainLength \<and> num_buckets lh > kMinNumBuckets
              then let new_num_buckets = num_buckets lh div 2;
                       new_num_buckets = (if new_num_buckets < kMinNumBuckets then kMinNumBuckets else new_num_buckets)
                   in lh_rebucket new_num_buckets lh h
              else (lh, h))"

text \<open>The return value, \<open>*old_data\<close> and the table.\<close>

definition OPENSSL_lh_insert ::
  "('a \<Rightarrow> u32) \<Rightarrow> ('a \<Rightarrow> 'a \<Rightarrow> int) \<Rightarrow> 'a \<Rightarrow> 'a lhash \<Rightarrow> heap \<Rightarrow> bool \<times> 'a option \<times> 'a lhash \<times> heap" where
  "OPENSSL_lh_insert hash_fn cmp_fn d lh h =
     (case get_next_ptr_and_hash hash_fn cmp_fn d lh of
        (b, k, hash) \<Rightarrow>
          let chain = buckets lh ! b
          in if k < length chain
             then (True, Some (idata (chain ! k)), lh\<lparr>buckets := (buckets lh)[b := chain[k := (chain ! k)\<lparr>idata := d\<rparr>]]\<rparr>, h)
             else case heap_alloc h of
                    (False, h) \<Rightarrow> (False, None, lh, h)
                  | (True, h) \<Rightarrow>
                      (case lh_maybe_resize
                              (lh\<lparr>num_items := num_items lh + 1,
                                  buckets := (buckets lh)[b := chain @ [\<lparr>idata = d, ihash = hash\<rparr>]]\<rparr>) h of
                         (lh, h) \<Rightarrow> (True, None, lh, h)))"

definition OPENSSL_lh_delete ::
  "('a \<Rightarrow> u32) \<Rightarrow> ('a \<Rightarrow> 'a \<Rightarrow> int) \<Rightarrow> 'a \<Rightarrow> 'a lhash \<Rightarrow> heap \<Rightarrow> 'a option \<times> 'a lhash \<times> heap" where
  "OPENSSL_lh_delete hash_fn cmp_fn d lh h =
     (case get_next_ptr_and_hash hash_fn cmp_fn d lh of
        (b, k, hash) \<Rightarrow>
          let chain = buckets lh ! b
          in if k < length chain
             then case lh_maybe_resize
                         (lh\<lparr>num_items := num_items lh - 1,
                             buckets := (buckets lh)[b := take k chain @ drop (Suc k) chain]\<rparr>) h of
                    (lh, h) \<Rightarrow> (Some (idata (chain ! k)), lh, h)
             else (None, lh, h))"

text \<open>
  \<open>lh_doall_arg\<close> with a callback that passes on a state of its own and leaves the table alone.
\<close>

definition OPENSSL_lh_doall_arg :: "('a \<Rightarrow> 's \<Rightarrow> 's) \<Rightarrow> 'a lhash \<Rightarrow> 's \<Rightarrow> heap \<Rightarrow> 's \<times> 'a lhash \<times> heap" where
  "OPENSSL_lh_doall_arg func lh arg h =
     (let lh = (if callback_depth lh < UINT_MAX then lh\<lparr>callback_depth := callback_depth lh + 1\<rparr> else lh);
          arg = fold (\<lambda>chain arg. fold (\<lambda>cur arg. func (idata cur) arg) chain arg) (buckets lh) arg;
          lh = (if callback_depth lh < UINT_MAX then lh\<lparr>callback_depth := callback_depth lh - 1\<rparr> else lh);
          (lh, h) = lh_maybe_resize lh h
      in (arg, lh, h))"

section \<open>The contract of a table\<close>

text \<open>
  A table keyed by its own elements, up to an equivalence \<open>same\<close>: what a lookup returns after an
  insertion and after a deletion.
\<close>

locale keyed_table =
  fixes same :: "'a \<Rightarrow> 'a \<Rightarrow> bool" and inv :: "'s \<Rightarrow> bool" and lookup :: "'a \<Rightarrow> 's \<Rightarrow> 'a option"
    and put :: "'a \<Rightarrow> 's \<Rightarrow> 's" and del :: "'a \<Rightarrow> 's \<Rightarrow> 's"
  assumes same_equivp: "equivp same"
    and put_inv: "inv t \<Longrightarrow> inv (put d t)"
    and del_inv: "inv t \<Longrightarrow> inv (del d t)"
    and lookup_put: "inv t \<Longrightarrow> lookup x (put d t) = (if same d x then Some d else lookup x t)"
    and lookup_del: "inv t \<Longrightarrow> lookup x (del d t) = (if same d x then None else lookup x t)"
begin

text \<open>A run of insertions and deletions against the updates of a map.\<close>

lemma run_lookup:
  assumes "inv t"
  shows "inv (fold (\<lambda>(is_put, d). if is_put then put d else del d) ops t) \<and>
    (\<lambda>x. lookup x (fold (\<lambda>(is_put, d). if is_put then put d else del d) ops t)) =
    fold (\<lambda>(is_put, d) m x. if same d x then (if is_put then Some d else None) else m x) ops (\<lambda>x. lookup x t)"
  using assms
proof (induction ops arbitrary: t)
  case (Cons op ops)
  obtain is_put d where op: "op = (is_put, d)" by (cases op)
  have "inv (if is_put then put d t else del d t)"
    using put_inv del_inv Cons.prems by simp
  note IH = Cons.IH [OF this]
  have "(\<lambda>x. lookup x (if is_put then put d t else del d t)) =
      (\<lambda>x. if same d x then (if is_put then Some d else None) else lookup x t)"
    using lookup_put lookup_del Cons.prems by auto
  then show ?case using IH by (simp add: op if_distrib [of "\<lambda>f. f t"] cong: if_cong)
qed simp

lemma put_put: "inv t \<Longrightarrow> same d e \<Longrightarrow> lookup x (put e (put d t)) = lookup x (put e t)"
  using put_inv [of t d] lookup_put equivp_transp [OF same_equivp] equivp_symp [OF same_equivp] by metis

end

section \<open>The representation\<close>

definition items :: "'a lhash \<Rightarrow> 'a lhash_item list" where
  "items lh = concat (buckets lh)"

lemma mset_concat_update:
  "b < length bs \<Longrightarrow> mset (concat (bs[b := c])) + mset (bs ! b) = mset (concat bs) + mset c"
proof -
  assume b: "b < length bs"
  then have "bs = take b bs @ bs ! b # drop (Suc b) bs" by (simp add: id_take_nth_drop)
  then have "mset (concat bs) = mset (concat (take b bs)) + mset (bs ! b) + mset (concat (drop (Suc b) bs))"
    by (metis concat.simps(2) concat_append mset_append union_assoc)
  then show ?thesis using b by (simp add: upd_conv_take_nth_drop)
qed

lemma chain_walk_le: "chain_walk hit chain \<le> length chain"
  by (induction chain) auto

lemma chain_walk_hit: "chain_walk hit chain < length chain \<Longrightarrow> hit (idata (chain ! chain_walk hit chain))"
  by (induction chain) auto

lemma chain_walk_miss: "chain_walk hit chain = length chain \<longleftrightarrow> (\<forall>i \<in> set chain. \<not> hit (idata i))"
  by (induction chain) auto

lemma items_iff: "i \<in> set (items lh) \<longleftrightarrow> (\<exists>b < num_buckets lh. i \<in> set (buckets lh ! b))"
  by (auto simp: items_def set_conv_nth [of "buckets lh"])

text \<open>What the table relies on: equality is an equivalence and equal elements have equal hashes.\<close>

locale hash_functions =
  fixes hash_fn :: "'a \<Rightarrow> u32" and cmp_fn :: "'a \<Rightarrow> 'a \<Rightarrow> int"
  assumes cmp_equivp: "equivp (\<lambda>x y. cmp_fn x y = 0)"
    and cmp_hash: "cmp_fn x y = 0 \<Longrightarrow> hash_fn x = hash_fn y"

definition lh_class :: "('a \<Rightarrow> 'a \<Rightarrow> int) \<Rightarrow> 'a \<Rightarrow> 'a set" where
  "lh_class cmp_fn x = {y. cmp_fn x y = 0}"

definition lh_inv :: "('a \<Rightarrow> u32) \<Rightarrow> ('a \<Rightarrow> 'a \<Rightarrow> int) \<Rightarrow> 'a lhash \<Rightarrow> bool" where
  "lh_inv hash_fn cmp_fn lh \<longleftrightarrow>
     kMinNumBuckets \<le> num_buckets lh \<and> num_items lh = length (items lh) \<and>
     (\<forall>b < num_buckets lh. \<forall>i \<in> set (buckets lh ! b). bucket_of lh (ihash i) = b) \<and>
     (\<forall>i \<in> set (items lh). ihash i = hash_fn (idata i)) \<and>
     distinct (map (\<lambda>i. lh_class cmp_fn (idata i)) (items lh))"

definition lh_set :: "'a lhash \<Rightarrow> 'a set" where
  "lh_set lh = idata ` set (items lh)"

context hash_functions
begin

lemma class_eq: "lh_class cmp_fn x = lh_class cmp_fn y \<longleftrightarrow> cmp_fn x y = 0"
  using cmp_equivp [unfolded equivp_def fun_eq_iff, THEN spec, THEN spec, of x y]
  unfolding lh_class_def set_eq_iff mem_Collect_eq by (rule sym)

lemma same_sym: "cmp_fn x y = 0 \<longleftrightarrow> cmp_fn y x = 0"
  unfolding class_eq [symmetric] by (rule eq_commute)

lemma same_cancel: "cmp_fn y x = 0 \<Longrightarrow> cmp_fn y d = 0 \<longleftrightarrow> cmp_fn d x = 0"
  unfolding class_eq [symmetric] by auto

text \<open>Two elements of the table that compare equal are the same one.\<close>

lemma lh_set_unique:
  assumes "lh_inv hash_fn cmp_fn lh" and "x \<in> lh_set lh" and "y \<in> lh_set lh" and "cmp_fn x y = 0"
  shows "x = y"
proof -
  obtain i j where i: "i \<in> set (items lh)" "j \<in> set (items lh)" "x = idata i" "y = idata j"
    using assms(2,3) by (auto simp: lh_set_def)
  have "inj_on (\<lambda>i. lh_class cmp_fn (idata i)) (set (items lh))"
    using assms(1) by (simp add: lh_inv_def distinct_map)
  then have "i = j"
    using i assms(4) class_eq by (simp add: inj_on_def)
  then show ?thesis using i by simp
qed

lemma bucket_less: "lh_inv hash_fn cmp_fn lh \<Longrightarrow> bucket_of lh h < num_buckets lh"
  by (auto simp: lh_inv_def bucket_of_def kMinNumBuckets_def intro!: mod_less_divisor)

lemma in_bucket:
  assumes "lh_inv hash_fn cmp_fn lh" and "y \<in> lh_set lh" and "cmp_fn y d = 0"
  shows "\<exists>i \<in> set (buckets lh ! bucket_of lh (hash_fn d)). idata i = y"
proof -
  obtain b i where i: "b < num_buckets lh" "i \<in> set (buckets lh ! b)" "y = idata i"
    using assms(2) by (auto simp: lh_set_def items_iff)
  then have "i \<in> set (items lh)" by (auto simp: items_iff)
  with assms(1) have "ihash i = hash_fn (idata i)" by (simp add: lh_inv_def)
  moreover have "bucket_of lh (ihash i) = b"
    using assms(1) i(1,2) unfolding lh_inv_def by blast
  moreover have "hash_fn (idata i) = hash_fn d"
    using cmp_hash assms(3) i(3) by simp
  ultimately have "bucket_of lh (hash_fn d) = b" by simp
  then show ?thesis using i by blast
qed

lemma retrieve_iff:
  assumes "lh_inv hash_fn cmp_fn lh"
  shows "OPENSSL_lh_retrieve hash_fn cmp_fn d lh = Some y \<longleftrightarrow> y \<in> lh_set lh \<and> cmp_fn y d = 0"
proof -
  let ?b = "bucket_of lh (hash_fn d)"
  let ?c = "buckets lh ! ?b"
  let ?k = "chain_walk (\<lambda>x. cmp_fn x d = 0) ?c"
  have r: "OPENSSL_lh_retrieve hash_fn cmp_fn d lh = (if ?k < length ?c then Some (idata (?c ! ?k)) else None)"
    by (simp add: OPENSSL_lh_retrieve_def get_next_ptr_and_hash_def Let_def item_at_def)
  have sub: "idata ` set ?c \<subseteq> lh_set lh"
    unfolding lh_set_def using bucket_less [OF assms, of "hash_fn d"] by (intro image_mono) (auto simp: items_iff)
  show ?thesis
  proof (cases "?k < length ?c")
    case True
    then have h: "cmp_fn (idata (?c ! ?k)) d = 0" "idata (?c ! ?k) \<in> lh_set lh"
      using chain_walk_hit [of "\<lambda>x. cmp_fn x d = 0"] sub by auto
    then have "y \<in> lh_set lh \<and> cmp_fn y d = 0 \<longrightarrow> y = idata (?c ! ?k)"
      using lh_set_unique [OF assms _ h(2), of y] class_eq by metis
    with h True r show ?thesis by auto
  next
    case False
    then have "?k = length ?c" using chain_walk_le [of "\<lambda>x. cmp_fn x d = 0" ?c] by simp
    then have "\<forall>i \<in> set ?c. cmp_fn (idata i) d \<noteq> 0" by (simp add: chain_walk_miss)
    then have "\<not> (y \<in> lh_set lh \<and> cmp_fn y d = 0)" using in_bucket [OF assms, of y d] by auto
    with False r show ?thesis by simp
  qed
qed


lemma retrieve_eqI:
  assumes "lh_inv hash_fn cmp_fn lh" and "lh_inv hash_fn cmp_fn lh'"
    and "\<And>y. cmp_fn y x = 0 \<Longrightarrow> y \<in> lh_set lh' \<longleftrightarrow> y \<in> lh_set lh"
  shows "OPENSSL_lh_retrieve hash_fn cmp_fn x lh' = OPENSSL_lh_retrieve hash_fn cmp_fn x lh"
  using assms(3) retrieve_iff [OF assms(1), of x] retrieve_iff [OF assms(2), of x] by (metis option.exhaust)

end

text \<open>What a change of the bucket array must keep: the items, and each in its bucket.\<close>

definition well_placed :: "'a lhash_item list list \<Rightarrow> bool" where
  "well_placed bs \<longleftrightarrow> (\<forall>b < length bs. \<forall>i \<in> set (bs ! b). unat (ihash i) mod length bs = b)"

lemma lh_inv_iff:
  "lh_inv hash_fn cmp_fn lh \<longleftrightarrow>
     kMinNumBuckets \<le> num_buckets lh \<and> num_items lh = size (mset (items lh)) \<and> well_placed (buckets lh) \<and>
     (\<forall>i \<in># mset (items lh). ihash i = hash_fn (idata i)) \<and>
     distinct (map (\<lambda>i. lh_class cmp_fn (idata i)) (items lh))"
  by (auto simp: lh_inv_def well_placed_def bucket_of_def)

lemma distinct_map_mset: "mset xs = mset ys \<Longrightarrow> distinct (map f xs) \<longleftrightarrow> distinct (map f ys)"
  by (rule mset_eq_imp_distinct_iff) (simp add: mset_map)

lemma lh_inv_same_items:
  assumes "lh_inv hash_fn cmp_fn lh" and "mset (items lh') = mset (items lh)" and "num_items lh' = num_items lh"
    and "well_placed (buckets lh')" and "kMinNumBuckets \<le> num_buckets lh'"
  shows "lh_inv hash_fn cmp_fn lh'"
  using assms distinct_map_mset [OF assms(2), of "\<lambda>i. lh_class cmp_fn (idata i)"]
  unfolding lh_inv_iff by simp

lemma lh_set_same_items: "mset (items lh') = mset (items lh) \<Longrightarrow> lh_set lh' = lh_set lh"
  unfolding lh_set_def by (metis mset_eq_setD)

lemma move_item_props:
  assumes "length nb = n" and "0 < n" and "well_placed nb"
  shows "length (move_item n cur nb) = n" and "well_placed (move_item n cur nb)"
    and "mset (concat (move_item n cur nb)) = add_mset cur (mset (concat nb))"
proof -
  let ?b = "unat (ihash cur) mod n"
  have b: "?b < length nb" using assms by simp
  show "length (move_item n cur nb) = n"
    using assms by (simp add: move_item_def Let_def)
  show "well_placed (move_item n cur nb)"
    using assms b by (auto simp: move_item_def Let_def well_placed_def nth_list_update)
  show "mset (concat (move_item n cur nb)) = add_mset cur (mset (concat nb))"
    using mset_concat_update [OF b, of "cur # nb ! ?b"] by (simp add: move_item_def Let_def)
qed

lemma move_items_props:
  assumes "length nb = n" and "0 < n" and "well_placed nb"
  shows "length (fold (move_item n) is nb) = n \<and> well_placed (fold (move_item n) is nb) \<and>
    mset (concat (fold (move_item n) is nb)) = mset is + mset (concat nb)"
  using assms
proof (induction "is" arbitrary: nb)
  case (Cons i "is")
  then show ?case using move_item_props [OF Cons.prems, of i] by auto
qed simp

lemma fold_concat: "fold (\<lambda>xs. fold f xs) xss s = fold f (concat xss) s"
  by (induction xss arbitrary: s) auto

lemma lh_rebucket_props:
  assumes "lh_rebucket n lh h = (lh', h')" and "0 < n" and "well_placed (buckets lh)"
  shows "lh' = lh \<or>
    (num_buckets lh' = n \<and> well_placed (buckets lh') \<and> mset (items lh') = mset (items lh) \<and> num_items lh' = num_items lh \<and>
     callback_depth lh' = callback_depth lh)"
proof -
  have "well_placed (replicate n [])" by (simp add: well_placed_def)
  note P = move_items_props [of "replicate n []" n "items lh", OF _ assms(2) this]
  have z: "concat (replicate n []) = []" by simp
  show ?thesis
    using assms(1) P by (auto simp: lh_rebucket_def fold_concat items_def z split: if_splits prod.splits bool.splits)
qed

lemma lh_maybe_resize_props:
  assumes "lh_maybe_resize lh h = (lh', h')" and "lh_inv hash_fn cmp_fn lh"
  shows "lh_inv hash_fn cmp_fn lh'" and "mset (items lh') = mset (items lh)" and "num_items lh' = num_items lh"
    and "callback_depth lh' = callback_depth lh"
proof -
  have i: "well_placed (buckets lh)" "kMinNumBuckets \<le> num_buckets lh" "0 < num_buckets lh"
    using assms(2) by (auto simp: lh_inv_iff kMinNumBuckets_def)
  have "lh' = lh \<or> (kMinNumBuckets \<le> num_buckets lh' \<and> well_placed (buckets lh') \<and> mset (items lh') = mset (items lh) \<and>
      num_items lh' = num_items lh \<and> callback_depth lh' = callback_depth lh)"
  proof -
    have "kMinNumBuckets \<le> n \<longrightarrow> lh_rebucket n lh h = (lh', h') \<longrightarrow> ?thesis" for n
      using lh_rebucket_props [of n lh h lh' h', OF _ _ i(1)] by (auto simp: kMinNumBuckets_def)
    moreover have "\<exists>n. (lh' = lh \<or> lh_rebucket n lh h = (lh', h')) \<and> kMinNumBuckets \<le> n"
      using assms(1) i(2)
      by (auto simp: lh_maybe_resize_def Let_def split: if_splits intro: le_trans [OF _ less_imp_le])
    ultimately show ?thesis by blast
  qed
  then show "lh_inv hash_fn cmp_fn lh'" "mset (items lh') = mset (items lh)" "num_items lh' = num_items lh"
    "callback_depth lh' = callback_depth lh"
    using assms(2) lh_inv_same_items [OF assms(2)] by auto
qed


section \<open>Insertion and deletion\<close>

lemma chain_change:
  assumes "b < length bs" and "k < length (bs ! b)"
  shows "\<exists>ns. mset (concat bs) = mset (bs ! b ! k # ns) \<and> (\<forall>x. mset (concat (bs[b := (bs ! b)[k := x]])) = mset (x # ns)) \<and>
    mset (concat (bs[b := take k (bs ! b) @ drop (Suc k) (bs ! b)])) = mset ns"
proof -
  let ?c = "bs ! b"
  let ?ns = "concat (take b bs) @ take k ?c @ drop (Suc k) ?c @ concat (drop (Suc b) bs)"
  have c: "?c = take k ?c @ ?c ! k # drop (Suc k) ?c" using assms(2) by (rule id_take_nth_drop)
  have "bs = take b bs @ ?c # drop (Suc b) bs" using assms(1) by (rule id_take_nth_drop)
  then have "mset (concat bs) = mset (concat (take b bs)) + mset ?c + mset (concat (drop (Suc b) bs))"
    by (metis concat.simps(2) concat_append mset_append union_assoc)
  moreover have "mset ?c = add_mset (?c ! k) (mset (take k ?c) + mset (drop (Suc k) ?c))"
    by (subst c) simp
  moreover have "mset (concat (bs[b := ?c[k := x]])) = mset (x # ?ns)" for x
    using assms by (simp add: upd_conv_take_nth_drop)
  moreover have "mset (concat (bs[b := take k ?c @ drop (Suc k) ?c])) = mset ?ns"
    using assms by (simp add: upd_conv_take_nth_drop)
  ultimately show ?thesis by (intro exI [of _ ?ns]) simp
qed

lemma well_placed_update:
  assumes "well_placed bs" and "\<And>i. i \<in> set c \<Longrightarrow> unat (ihash i) mod length bs = b"
  shows "well_placed (bs[b := c])"
  unfolding well_placed_def
proof (intro allI impI ballI)
  fix a i assume "a < length (bs[b := c])" "i \<in> set (bs[b := c] ! a)"
  then show "unat (ihash i) mod length (bs[b := c]) = a"
    using assms by (cases "a = b") (auto simp: well_placed_def)
qed

text \<open>The invariant through any listing of the items.\<close>

lemma lh_inv_listing:
  assumes "mset (items lh) = mset l"
  shows "lh_inv hash_fn cmp_fn lh \<longleftrightarrow>
     kMinNumBuckets \<le> num_buckets lh \<and> num_items lh = length l \<and> well_placed (buckets lh) \<and>
     (\<forall>i \<in> set l. ihash i = hash_fn (idata i)) \<and> distinct (map (\<lambda>i. lh_class cmp_fn (idata i)) l)"
  using distinct_map_mset [OF assms, of "\<lambda>i. lh_class cmp_fn (idata i)"] mset_eq_length [OF assms] mset_eq_setD [OF assms] unfolding lh_inv_iff by simp

lemma lh_set_listing: "mset (items lh) = mset l \<Longrightarrow> lh_set lh = idata ` set l"
  unfolding lh_set_def by (metis mset_eq_setD)

context hash_functions
begin

lemma retrieve_None_iff:
  "lh_inv hash_fn cmp_fn lh \<Longrightarrow> OPENSSL_lh_retrieve hash_fn cmp_fn d lh = None \<longleftrightarrow> (\<forall>y \<in> lh_set lh. cmp_fn y d \<noteq> 0)"
  using retrieve_iff [of lh d] by (metis not_None_eq option.distinct(1))

lemma insert_hit:
  assumes "lh_inv hash_fn cmp_fn lh" and "get_next_ptr_and_hash hash_fn cmp_fn d lh = (b, k, hash)" and "k < length (buckets lh ! b)"
  defines "lh' \<equiv> lh\<lparr>buckets := (buckets lh)[b := (buckets lh ! b)[k := (buckets lh ! b ! k)\<lparr>idata := d\<rparr>]]\<rparr>"
  shows "lh_inv hash_fn cmp_fn lh' \<and> lh_set lh' = {y \<in> lh_set lh. cmp_fn y d \<noteq> 0} \<union> {d}"
proof -
  let ?it = "buckets lh ! b ! k"
  have b: "b < num_buckets lh"
    using bucket_less [OF assms(1)] assms(2) by (auto simp: get_next_ptr_and_hash_def Let_def)
  have same: "cmp_fn (idata ?it) d = 0"
    using chain_walk_hit [of "\<lambda>x. cmp_fn x d = 0" "buckets lh ! b"] assms(2,3)
    by (auto simp: get_next_ptr_and_hash_def Let_def)
  obtain ns where ns: "mset (items lh) = mset (?it # ns)" "mset (items lh') = mset (?it\<lparr>idata := d\<rparr> # ns)"
    using chain_change [OF b assms(3)] by (auto simp: items_def lh'_def)
  note I = assms(1) [unfolded lh_inv_listing [OF ns(1)]]
  have cl: "lh_class cmp_fn d = lh_class cmp_fn (idata ?it)"
    using same class_eq by metis
  have "well_placed (buckets lh')"
    unfolding lh'_def
  proof (simp, rule well_placed_update)
    show "well_placed (buckets lh)" using I by blast
    fix i assume i: "i \<in> set ((buckets lh ! b)[k := ?it\<lparr>idata := d\<rparr>])"
    moreover have "\<forall>j \<in> set (buckets lh ! b). unat (ihash j) mod num_buckets lh = b"
      using I b by (auto simp: well_placed_def)
    ultimately show "unat (ihash i) mod num_buckets lh = b"
      using set_update_subset_insert [of "buckets lh ! b" k "?it\<lparr>idata := d\<rparr>"] assms(3) by auto
  qed
  moreover have "hash_fn d = hash_fn (idata ?it)" using cmp_hash [OF same] by simp
  ultimately have "lh_inv hash_fn cmp_fn lh'"
    using I unfolding lh_inv_listing [OF ns(2)] by (simp add: cl lh'_def)
  moreover have "lh_set lh' = {y \<in> lh_set lh. cmp_fn y d \<noteq> 0} \<union> {d}"
  proof -
    have "cmp_fn (idata i) d \<noteq> 0" if "i \<in> set ns" for i
      using I that cl class_eq [of "idata i" d] by auto
    then show ?thesis
      using same unfolding lh_set_listing [OF ns(1)] lh_set_listing [OF ns(2)] by auto
  qed
  ultimately show ?thesis by simp
qed

lemma insert_miss:
  assumes "lh_inv hash_fn cmp_fn lh" and "get_next_ptr_and_hash hash_fn cmp_fn d lh = (b, k, hash)" and "\<not> k < length (buckets lh ! b)"
  defines "lh' \<equiv> lh\<lparr>num_items := num_items lh + 1, buckets := (buckets lh)[b := buckets lh ! b @ [\<lparr>idata = d, ihash = hash\<rparr>]]\<rparr>"
  shows "lh_inv hash_fn cmp_fn lh' \<and> lh_set lh' = {y \<in> lh_set lh. cmp_fn y d \<noteq> 0} \<union> {d} \<and> (\<forall>y \<in> lh_set lh. cmp_fn y d \<noteq> 0)"
proof -
  have b: "b < num_buckets lh" and bh: "b = unat (hash_fn d) mod num_buckets lh" "hash = hash_fn d"
    using bucket_less [OF assms(1)] assms(2) by (auto simp: get_next_ptr_and_hash_def Let_def bucket_of_def)
  have "OPENSSL_lh_retrieve hash_fn cmp_fn d lh = None"
    using assms(2,3) by (simp add: OPENSSL_lh_retrieve_def item_at_def)
  then have new: "\<forall>y \<in> lh_set lh. cmp_fn y d \<noteq> 0"
    using retrieve_None_iff [OF assms(1)] by simp
  let ?it = "\<lparr>idata = d, ihash = hash\<rparr>"
  have ms: "mset (items lh') = mset (?it # items lh)"
    using mset_concat_update [OF b, of "buckets lh ! b @ [?it]"] by (simp add: items_def lh'_def)
  note I = assms(1) [unfolded lh_inv_listing [OF HOL.refl]]
  have "well_placed (buckets lh')"
    unfolding lh'_def using I b bh by (auto simp: well_placed_def nth_list_update)
  moreover have "lh_class cmp_fn d \<notin> (\<lambda>i. lh_class cmp_fn (idata i)) ` set (items lh)"
    using new class_eq unfolding lh_set_def by (metis (no_types, lifting) imageE imageI)
  ultimately have "lh_inv hash_fn cmp_fn lh'"
    using I unfolding lh_inv_listing [OF ms] by (simp add: lh'_def bh)
  moreover have "lh_set lh' = insert d (lh_set lh)"
    unfolding lh_set_listing [OF ms] by (simp add: lh_set_def)
  ultimately show ?thesis using new by auto
qed

lemma delete_hit:
  assumes "lh_inv hash_fn cmp_fn lh" and "get_next_ptr_and_hash hash_fn cmp_fn d lh = (b, k, hash)" and "k < length (buckets lh ! b)"
  defines "lh' \<equiv> lh\<lparr>num_items := num_items lh - 1,
      buckets := (buckets lh)[b := take k (buckets lh ! b) @ drop (Suc k) (buckets lh ! b)]\<rparr>"
  shows "lh_inv hash_fn cmp_fn lh' \<and> lh_set lh' = {y \<in> lh_set lh. cmp_fn y d \<noteq> 0}"
proof -
  let ?it = "buckets lh ! b ! k"
  have b: "b < num_buckets lh"
    using bucket_less [OF assms(1)] assms(2) by (auto simp: get_next_ptr_and_hash_def Let_def)
  have same: "cmp_fn (idata ?it) d = 0"
    using chain_walk_hit [of "\<lambda>x. cmp_fn x d = 0" "buckets lh ! b"] assms(2,3)
    by (auto simp: get_next_ptr_and_hash_def Let_def)
  obtain ns where ns: "mset (items lh) = mset (?it # ns)" "mset (items lh') = mset ns"
    using chain_change [OF b assms(3)] by (auto simp: items_def lh'_def)
  note I = assms(1) [unfolded lh_inv_listing [OF ns(1)]]
  have "well_placed (buckets lh')"
    unfolding lh'_def using I b
    by (auto simp: well_placed_def nth_list_update dest: in_set_takeD in_set_dropD)
  then have "lh_inv hash_fn cmp_fn lh'"
    using I unfolding lh_inv_listing [OF ns(2)] by (simp add: lh'_def)
  moreover have "lh_set lh' = {y \<in> lh_set lh. cmp_fn y d \<noteq> 0}"
  proof -
    have "lh_class cmp_fn d = lh_class cmp_fn (idata ?it)" using same class_eq by metis
    then have "cmp_fn (idata i) d \<noteq> 0" if "i \<in> set ns" for i
      using I that class_eq [of "idata i" d] by auto
    then show ?thesis
      using same unfolding lh_set_listing [OF ns(1)] lh_set_listing [OF ns(2)] by auto
  qed
  ultimately show ?thesis by simp
qed


lemma insert_props:
  assumes "lh_inv hash_fn cmp_fn lh" and "OPENSSL_lh_insert hash_fn cmp_fn d lh h = (ok, old, lh', h')"
  shows "lh_inv hash_fn cmp_fn lh' \<and>
    (if ok then lh_set lh' = {y \<in> lh_set lh. cmp_fn y d \<noteq> 0} \<union> {d} \<and> old = OPENSSL_lh_retrieve hash_fn cmp_fn d lh
     else lh' = lh \<and> old = None \<and> fst (heap_alloc h) = False)"
proof -
  obtain b k hash where g: "get_next_ptr_and_hash hash_fn cmp_fn d lh = (b, k, hash)"
    by (cases "get_next_ptr_and_hash hash_fn cmp_fn d lh")
  have r: "OPENSSL_lh_retrieve hash_fn cmp_fn d lh = item_at lh b k"
    using g by (simp add: OPENSSL_lh_retrieve_def)
  show ?thesis
  proof (cases "k < length (buckets lh ! b)")
    case True
    with assms insert_hit [OF assms(1) g True] show ?thesis
      by (auto simp: OPENSSL_lh_insert_def g r item_at_def Let_def)
  next
    case False
    note M = insert_miss [OF assms(1) g False]
    let ?lh1 = "lh\<lparr>num_items := num_items lh + 1, buckets := (buckets lh)[b := buckets lh ! b @ [\<lparr>idata = d, ihash = hash\<rparr>]]\<rparr>"
    obtain okh h1 where h1: "heap_alloc h = (okh, h1)" by (cases "heap_alloc h")
    obtain lh2 h2 where R: "lh_maybe_resize ?lh1 h1 = (lh2, h2)" by (cases "lh_maybe_resize ?lh1 h1")
    note RP = lh_maybe_resize_props [OF R M [THEN conjunct1]]
    show ?thesis
      using assms False M RP(1) lh_set_same_items [OF RP(2)] R
      by (cases okh) (auto simp: OPENSSL_lh_insert_def g h1 r item_at_def Let_def)
  qed
qed

lemma delete_props:
  assumes "lh_inv hash_fn cmp_fn lh" and "OPENSSL_lh_delete hash_fn cmp_fn d lh h = (ret, lh', h')"
  shows "lh_inv hash_fn cmp_fn lh' \<and> lh_set lh' = {y \<in> lh_set lh. cmp_fn y d \<noteq> 0} \<and>
    ret = OPENSSL_lh_retrieve hash_fn cmp_fn d lh"
proof -
  obtain b k hash where g: "get_next_ptr_and_hash hash_fn cmp_fn d lh = (b, k, hash)"
    by (cases "get_next_ptr_and_hash hash_fn cmp_fn d lh")
  have r: "OPENSSL_lh_retrieve hash_fn cmp_fn d lh = item_at lh b k"
    using g by (simp add: OPENSSL_lh_retrieve_def)
  show ?thesis
  proof (cases "k < length (buckets lh ! b)")
    case False
    then have n: "OPENSSL_lh_retrieve hash_fn cmp_fn d lh = None" by (simp add: r item_at_def)
    then have "{y \<in> lh_set lh. cmp_fn y d \<noteq> 0} = lh_set lh"
      using retrieve_None_iff [OF assms(1)] by auto
    with False assms n show ?thesis by (auto simp: OPENSSL_lh_delete_def g Let_def)
  next
    case True
    note M = delete_hit [OF assms(1) g True]
    let ?lh1 = "lh\<lparr>num_items := num_items lh - 1,
      buckets := (buckets lh)[b := take k (buckets lh ! b) @ drop (Suc k) (buckets lh ! b)]\<rparr>"
    obtain lh2 h2 where R: "lh_maybe_resize ?lh1 h = (lh2, h2)" by (cases "lh_maybe_resize ?lh1 h")
    note RP = lh_maybe_resize_props [OF R M [THEN conjunct1]]
    show ?thesis
      using assms(2) True M RP(1) lh_set_same_items [OF RP(2)] R
      by (auto simp: OPENSSL_lh_delete_def g r item_at_def Let_def)
  qed
qed

lemma doall_props:
  assumes "lh_inv hash_fn cmp_fn lh" and "OPENSSL_lh_doall_arg func lh arg h = (arg', lh', h')"
  shows "lh_inv hash_fn cmp_fn lh' \<and> lh_set lh' = lh_set lh \<and> arg' = fold func (map idata (items lh)) arg \<and>
    distinct (map idata (items lh)) \<and> callback_depth lh' \<le> callback_depth lh + 1"
proof -
  define lh1 where "lh1 = lh\<lparr>callback_depth := (if callback_depth lh < UINT_MAX then
      (if callback_depth lh + 1 < UINT_MAX then callback_depth lh else callback_depth lh + 1) else callback_depth lh)\<rparr>"
  have i: "items lh1 = items lh" by (simp add: lh1_def items_def)
  have "lh_inv hash_fn cmp_fn lh1" using assms(1) unfolding lh_inv_iff i by (simp add: lh1_def)
  moreover obtain lh2 h2 where R: "lh_maybe_resize lh1 h = (lh2, h2)" by (cases "lh_maybe_resize lh1 h")
  moreover note RP = lh_maybe_resize_props [OF R calculation(1)]
  have f: "fold (\<lambda>cur. func (idata cur)) xs s = fold func (map idata xs) s" for xs s
    by (induction xs arbitrary: s) auto
  have f2: "fold (\<lambda>chain. fold func (map idata chain)) bs s = fold func (map idata (concat bs)) s" for bs s
    by (induction bs arbitrary: s) auto
  have "arg' = fold func (map idata (items lh)) arg \<and> lh' = lh2"
    using assms(2) R by (auto simp: OPENSSL_lh_doall_arg_def Let_def f f2 items_def lh1_def split: if_splits prod.splits)
  moreover have "distinct (map idata (items lh))"
  proof -
    have "distinct (map (lh_class cmp_fn) (map idata (items lh)))"
      using assms(1) by (simp add: lh_inv_def comp_def)
    then show ?thesis by (auto simp: distinct_map inj_on_def)
  qed
  moreover have "lh_set lh2 = lh_set lh"
    using lh_set_same_items [OF RP(2)] by (simp add: lh_set_def i)
  ultimately show ?thesis using RP(1,4) by (auto simp: lh1_def)
qed

end

definition lh_put :: "('a \<Rightarrow> u32) \<Rightarrow> ('a \<Rightarrow> 'a \<Rightarrow> int) \<Rightarrow> 'a \<Rightarrow> 'a lhash \<Rightarrow> 'a lhash" where
  "lh_put hash_fn cmp_fn d lh = (case OPENSSL_lh_insert hash_fn cmp_fn d lh [] of (_, _, lh, _) \<Rightarrow> lh)"

definition lh_del :: "('a \<Rightarrow> u32) \<Rightarrow> ('a \<Rightarrow> 'a \<Rightarrow> int) \<Rightarrow> 'a \<Rightarrow> 'a lhash \<Rightarrow> 'a lhash" where
  "lh_del hash_fn cmp_fn d lh = (case OPENSSL_lh_delete hash_fn cmp_fn d lh [] of (_, lh, _) \<Rightarrow> lh)"

text \<open>With an allocator that does not fail the hash table is a keyed table.\<close>

sublocale hash_functions \<subseteq> table: keyed_table "\<lambda>x y. cmp_fn x y = 0" "lh_inv hash_fn cmp_fn"
  "OPENSSL_lh_retrieve hash_fn cmp_fn" "lh_put hash_fn cmp_fn" "lh_del hash_fn cmp_fn"
proof
  fix t d x
  assume t: "lh_inv hash_fn cmp_fn t"
  obtain ok old lh h where i: "OPENSSL_lh_insert hash_fn cmp_fn d t [] = (ok, old, lh, h)"
    by (cases "OPENSSL_lh_insert hash_fn cmp_fn d t []")
  note I = insert_props [OF t i]
  then have ok: ok by (cases ok) auto
  have p: "lh_put hash_fn cmp_fn d t = lh" by (simp add: lh_put_def i)
  show "lh_inv hash_fn cmp_fn (lh_put hash_fn cmp_fn d t)" using I by (simp add: p)
  have s: "lh_set lh = {y \<in> lh_set t. cmp_fn y d \<noteq> 0} \<union> {d}" using I ok by simp
  show "OPENSSL_lh_retrieve hash_fn cmp_fn x (lh_put hash_fn cmp_fn d t) =
      (if cmp_fn d x = 0 then Some d else OPENSSL_lh_retrieve hash_fn cmp_fn x t)"
  proof (cases "cmp_fn d x = 0")
    case True
    then show ?thesis using retrieve_iff [of lh x d] I s by (simp add: p)
  next
    case False
    have "y \<in> lh_set lh \<longleftrightarrow> y \<in> lh_set t" if "cmp_fn y x = 0" for y
      using False that s same_cancel [OF that, of d] by auto
    then show ?thesis using False retrieve_eqI [OF t, of lh x] I by (simp add: p)
  qed
  obtain ret lh2 h2 where e: "OPENSSL_lh_delete hash_fn cmp_fn d t [] = (ret, lh2, h2)"
    by (cases "OPENSSL_lh_delete hash_fn cmp_fn d t []")
  note D = delete_props [OF t e]
  have q: "lh_del hash_fn cmp_fn d t = lh2" by (simp add: lh_del_def e)
  show "lh_inv hash_fn cmp_fn (lh_del hash_fn cmp_fn d t)" using D by (simp add: q)
  show "OPENSSL_lh_retrieve hash_fn cmp_fn x (lh_del hash_fn cmp_fn d t) =
      (if cmp_fn d x = 0 then None else OPENSSL_lh_retrieve hash_fn cmp_fn x t)"
  proof (cases "cmp_fn d x = 0")
    case True
    have "\<forall>y \<in> lh_set lh2. cmp_fn y x \<noteq> 0"
      using D True same_cancel [of _ x d] by auto
    then show ?thesis using True retrieve_None_iff [of lh2 x] D by (simp add: q)
  next
    case False
    have "y \<in> lh_set lh2 \<longleftrightarrow> y \<in> lh_set t" if "cmp_fn y x = 0" for y
      using False that D same_cancel [OF that, of d] by auto
    then show ?thesis using False retrieve_eqI [OF t, of lh2 x] D by (simp add: q)
  qed
qed (rule cmp_equivp)

section \<open>Strings as keys\<close>

interpretation str_table: hash_functions OPENSSL_strhash strcmp
  by unfold_locales (auto simp: strcmp_eq_0 equivp_def fun_eq_iff)

lemmas strhash_strcmp = str_table.hash_functions_axioms

section \<open>The load of the table\<close>

text \<open>The shape every resize restores while no allocation has failed.\<close>

definition lh_load :: "'a lhash \<Rightarrow> bool" where
  "lh_load lh \<longleftrightarrow> num_items lh < 3 * num_buckets lh \<and> (num_buckets lh = 16 \<or> num_buckets lh \<le> num_items lh)"

lemma num_buckets_rebucket:
  assumes "False \<notin> set h" and "0 < n" and "n < 2 ^ 61"
  shows "num_buckets (fst (lh_rebucket n lh h)) = n"
proof -
  have "size_mul 8 n div 8 = n" using assms by (simp add: size_mul_def)
  moreover have len: "length (fold (move_item n) c nb) = length nb" for c and nb :: "'a lhash_item list list"
    by (induction c arbitrary: nb) (simp_all add: move_item_def Let_def)
  have "length (fold (\<lambda>c nb. fold (move_item n) c nb) cs nb) = length nb" for cs and nb :: "'a lhash_item list list"
    by (induction cs arbitrary: nb) (simp_all add: len)
  moreover obtain h1 where "heap_alloc h = (True, h1)" using assms(1) by (cases h) auto
  ultimately show ?thesis by (simp add: lh_rebucket_def)
qed

text \<open>One element more or fewer than a table of the right load: one resize brings the load back.\<close>

lemma lh_maybe_resize_load:
  assumes "lh_maybe_resize lh h = (lh', h')" and "lh_inv hash_fn cmp_fn lh" and "callback_depth lh = 0"
    and "False \<notin> set h" and "num_items lh \<le> 2 ^ 59"
    and "num_items lh \<le> 3 * num_buckets lh" and "num_buckets lh = 16 \<or> num_buckets lh \<le> num_items lh + 1"
  shows "lh_load lh'"
proof -
  define n where "n = num_buckets lh"
  define m where "m = num_items lh"
  have n: "16 \<le> n" using assms(2) by (simp add: lh_inv_def kMinNumBuckets_def n_def)
  have m: "m \<le> 2 ^ 59" "m \<le> 3 * n" "n = 16 \<or> n \<le> m + 1" using assms(5-7) by (simp_all add: n_def m_def)
  then have nb: "n \<le> 2 ^ 59 + 1" by auto
  have m': "num_items lh' = m" using lh_maybe_resize_props [OF assms(1,2)] by (simp add: m_def)
  have dbl: "size_mul n 2 = n * 2" using nb by (simp add: size_mul_def)
  have q: "m div n > 2 \<longleftrightarrow> 3 * n \<le> m" "m div n < 1 \<longleftrightarrow> m < n"
    using less_eq_div_iff_mult_less_eq [of n 3 m] less_eq_div_iff_mult_less_eq [of n 1 m] n
    by (auto simp: not_less)
  consider (grow) "3 * n \<le> m" | (shrink) "m < n" "16 < n" | (keep) "m < 3 * n" "n \<le> m \<or> n = 16"
    using n by linarith
  then show ?thesis
  proof cases
    case grow
    have "buckets lh \<noteq> []" using n by (auto simp: n_def)
    with grow have "lh' = fst (lh_rebucket (n * 2) lh h)"
      using assms(1,3) n q dbl by (simp add: lh_maybe_resize_def Let_def kMaxAverageChainLength_def n_def m_def)
    then have "num_buckets lh' = n * 2"
      using num_buckets_rebucket [OF assms(4), of "n * 2" lh] n nb by simp
    then show ?thesis using grow m n m' by (simp add: lh_load_def)
  next
    case shrink
    define k where "k = (if n div 2 < 16 then 16 else n div 2)"
    have "\<not> 2 < m div n" using q(1) shrink(1) by simp
    then have "lh' = fst (lh_rebucket k lh h)"
      using assms(1,3) shrink q(2)
      by (simp add: lh_maybe_resize_def Let_def kMaxAverageChainLength_def kMinAverageChainLength_def kMinNumBuckets_def
          k_def split: if_splits flip: n_def m_def)
    then have "num_buckets lh' = k"
      using num_buckets_rebucket [OF assms(4), of k lh] n nb by (auto simp: k_def)
    then show ?thesis using shrink m m' by (auto simp: lh_load_def k_def)
  next
    case keep
    have "\<not> 2 < m div n" "\<not> (m div n < 1 \<and> 16 < n)" using q keep by auto
    then have "lh' = lh"
      using assms(1,3)
      by (auto simp: lh_maybe_resize_def Let_def kMaxAverageChainLength_def kMinAverageChainLength_def kMinNumBuckets_def
          simp flip: n_def m_def)
    then show ?thesis using keep by (auto simp: lh_load_def simp flip: n_def m_def)
  qed
qed


context hash_functions
begin

lemmas run_lookup = table.run_lookup

lemma insert_load:
  assumes "OPENSSL_lh_insert hash_fn cmp_fn d lh h = (ok, old, lh', h')" and "lh_inv hash_fn cmp_fn lh"
    and "callback_depth lh = 0" and "num_items lh < 2 ^ 59"
  shows "callback_depth lh' = 0" and "False \<notin> set h \<Longrightarrow> lh_load lh \<Longrightarrow> lh_load lh'"
proof -
  obtain b k hash where g: "get_next_ptr_and_hash hash_fn cmp_fn d lh = (b, k, hash)"
    by (cases "get_next_ptr_and_hash hash_fn cmp_fn d lh")
  have "callback_depth lh' = 0 \<and> (False \<notin> set h \<longrightarrow> lh_load lh \<longrightarrow> lh_load lh')"
  proof (cases "k < length (buckets lh ! b)")
    case True
    with assms(1,3) show ?thesis by (auto simp: OPENSSL_lh_insert_def g Let_def lh_load_def)
  next
    case False
    let ?lh1 = "lh\<lparr>num_items := num_items lh + 1, buckets := (buckets lh)[b := buckets lh ! b @ [\<lparr>idata = d, ihash = hash\<rparr>]]\<rparr>"
    note M = insert_miss [OF assms(2) g False, THEN conjunct1]
    obtain okh h1 where h1: "heap_alloc h = (okh, h1)" by (cases "heap_alloc h")
    obtain lh2 h2 where R: "lh_maybe_resize ?lh1 h1 = (lh2, h2)" by (cases "lh_maybe_resize ?lh1 h1")
    have "False \<notin> set h1" if "False \<notin> set h" using heap_alloc_keeps_no_failure [OF that] h1 by simp
    then have "lh_load lh2" if "False \<notin> set h" "lh_load lh"
      using lh_maybe_resize_load [OF R M] that assms(3,4) by (auto simp: lh_load_def)
    moreover have "callback_depth lh2 = 0" using lh_maybe_resize_props(4) [OF R M] assms(3) by simp
    ultimately show ?thesis
      using assms(1,3) False R by (cases okh) (auto simp: OPENSSL_lh_insert_def g h1 Let_def)
  qed
  then show "callback_depth lh' = 0" and "False \<notin> set h \<Longrightarrow> lh_load lh \<Longrightarrow> lh_load lh'" by auto
qed

lemma delete_load:
  assumes "OPENSSL_lh_delete hash_fn cmp_fn d lh h = (ret, lh', h')" and "lh_inv hash_fn cmp_fn lh"
    and "callback_depth lh = 0" and "num_items lh \<le> 2 ^ 59"
  shows "callback_depth lh' = 0" and "False \<notin> set h \<Longrightarrow> lh_load lh \<Longrightarrow> lh_load lh'"
proof -
  obtain b k hash where g: "get_next_ptr_and_hash hash_fn cmp_fn d lh = (b, k, hash)"
    by (cases "get_next_ptr_and_hash hash_fn cmp_fn d lh")
  have "callback_depth lh' = 0 \<and> (False \<notin> set h \<longrightarrow> lh_load lh \<longrightarrow> lh_load lh')"
  proof (cases "k < length (buckets lh ! b)")
    case False
    with assms(1,3) show ?thesis by (auto simp: OPENSSL_lh_delete_def g Let_def)
  next
    case True
    let ?lh1 = "lh\<lparr>num_items := num_items lh - 1,
      buckets := (buckets lh)[b := take k (buckets lh ! b) @ drop (Suc k) (buckets lh ! b)]\<rparr>"
    note M = delete_hit [OF assms(2) g True, THEN conjunct1]
    obtain lh2 h2 where R: "lh_maybe_resize ?lh1 h = (lh2, h2)" by (cases "lh_maybe_resize ?lh1 h")
    have "lh_load lh2" if "False \<notin> set h" "lh_load lh"
      using lh_maybe_resize_load [OF R M] that assms(3,4) by (auto simp: lh_load_def)
    moreover have "callback_depth lh2 = 0" using lh_maybe_resize_props(4) [OF R M] assms(3) by simp
    ultimately show ?thesis
      using assms(1) True R by (auto simp: OPENSSL_lh_delete_def g Let_def)
  qed
  then show "callback_depth lh' = 0" and "False \<notin> set h \<Longrightarrow> lh_load lh \<Longrightarrow> lh_load lh'" by auto
qed

end

lemma doall_load:
  assumes "OPENSSL_lh_doall_arg func lh arg h = (arg', lh', h')" and "lh_inv hash_fn cmp_fn lh"
    and "callback_depth lh = 0" and "num_items lh \<le> 2 ^ 59"
  shows "callback_depth lh' = 0" and "num_items lh' = num_items lh"
    and "False \<notin> set h \<Longrightarrow> lh_load lh \<Longrightarrow> lh_load lh'"
proof -
  obtain n bs where "lh = \<lparr>num_items = n, buckets = bs, callback_depth = 0\<rparr>"
    using assms(3) by (cases lh) auto
  then have R: "lh_maybe_resize lh h = (lh', h')"
    using assms(1) by (auto simp: OPENSSL_lh_doall_arg_def Let_def split: prod.splits)
  show "callback_depth lh' = 0" "num_items lh' = num_items lh"
    using lh_maybe_resize_props(3,4) [OF R assms(2)] assms(3) by simp_all
  show "lh_load lh'" if "False \<notin> set h" "lh_load lh"
    using lh_maybe_resize_load [OF R assms(2)] that assms(3,4) by (auto simp: lh_load_def)
qed

text \<open>
  The tables of a program: the flag says that no allocation has failed since the table was made.
  An element takes a block of its own, so a table never has \<open>2 ^ 59\<close> of them.
\<close>

inductive lh_reachable :: "('a \<Rightarrow> u32) \<Rightarrow> ('a \<Rightarrow> 'a \<Rightarrow> int) \<Rightarrow> bool \<Rightarrow> 'a lhash \<Rightarrow> bool" for hash_fn cmp_fn where
  new: "OPENSSL_lh_new h = (Some lh, h') \<Longrightarrow> lh_reachable hash_fn cmp_fn True lh"
| insert: "\<lbrakk>lh_reachable hash_fn cmp_fn nf lh; num_items lh < 2 ^ 59;
    OPENSSL_lh_insert hash_fn cmp_fn d lh h = (ok, old, lh', h')\<rbrakk> \<Longrightarrow> lh_reachable hash_fn cmp_fn (nf \<and> False \<notin> set h) lh'"
| delete: "\<lbrakk>lh_reachable hash_fn cmp_fn nf lh; num_items lh \<le> 2 ^ 59; OPENSSL_lh_delete hash_fn cmp_fn d lh h = (ret, lh', h')\<rbrakk>
    \<Longrightarrow> lh_reachable hash_fn cmp_fn (nf \<and> False \<notin> set h) lh'"
| doall: "\<lbrakk>lh_reachable hash_fn cmp_fn nf lh; num_items lh \<le> 2 ^ 59;
    fst (snd (OPENSSL_lh_doall_arg func lh (arg :: unit) h)) = lh'\<rbrakk> \<Longrightarrow> lh_reachable hash_fn cmp_fn (nf \<and> False \<notin> set h) lh'"

lemma lh_new_props:
  assumes "OPENSSL_lh_new h = (Some lh, h')"
  shows "lh = \<lparr>num_items = 0, buckets = replicate 16 [], callback_depth = 0\<rparr>"
  using assms by (auto simp: OPENSSL_lh_new_def kMinNumBuckets_def split: prod.splits bool.splits)

lemma lh_inv_new: "lh_inv hash_fn cmp_fn \<lparr>num_items = 0, buckets = replicate 16 [], callback_depth = 0\<rparr>"
  by (simp add: lh_inv_def items_def kMinNumBuckets_def)

lemma lh_reachable_inv:
  assumes "lh_reachable hash_fn cmp_fn nf lh" and "hash_functions hash_fn cmp_fn"
  shows "lh_inv hash_fn cmp_fn lh \<and> callback_depth lh = 0 \<and> (nf \<longrightarrow> lh_load lh)"
  using assms(1)
proof induction
  case (new h lh h')
  show ?case unfolding lh_new_props [OF new] by (simp add: lh_inv_new lh_load_def)
next
  case (insert nf lh d h ok old lh' h')
  then show ?case
    using hash_functions.insert_props [OF assms(2) _ insert.hyps(3)]
      hash_functions.insert_load [OF assms(2) insert.hyps(3)] by blast
next
  case (delete nf lh d h ret lh' h')
  then show ?case
    using hash_functions.delete_props [OF assms(2) _ delete.hyps(3)]
      hash_functions.delete_load [OF assms(2) delete.hyps(3)] by blast
next
  case (doall nf lh func arg h lh')
  obtain arg' h' where D: "OPENSSL_lh_doall_arg func lh arg h = (arg', lh', h')"
    using doall.hyps(3) by (metis prod.collapse)
  show ?case
    using doall.IH doall.hyps(2) hash_functions.doall_props [OF assms(2) _ D] doall_load [OF D] by blast
qed

section \<open>Properties\<close>

text \<open>C4: whatever is inserted into and deleted from a hash table, in whatever order, a retrieval
  gives what a finite map with the same updates would give: the last element put under an equal
  key and not deleted since. The cached hash values, the chains and every resize stay invisible.\<close>

theorem lhash_refines_map:
  assumes "hash_functions hash_fn cmp_fn" and "OPENSSL_lh_new [] = (Some lh, h)"
  shows "(\<lambda>x. OPENSSL_lh_retrieve hash_fn cmp_fn x
      (fold (\<lambda>(is_put, d). if is_put then lh_put hash_fn cmp_fn d else lh_del hash_fn cmp_fn d) ops lh)) =
    fold (\<lambda>(is_put, d) m x. if cmp_fn d x = 0 then (if is_put then Some d else None) else m x) ops (\<lambda>_. None)"
proof -
  have lh: "lh = \<lparr>num_items = 0, buckets = replicate 16 [], callback_depth = 0\<rparr>" using lh_new_props [OF assms(2)] .
  have "OPENSSL_lh_retrieve hash_fn cmp_fn x lh = None" for x
    using hash_functions.retrieve_None_iff [OF assms(1) lh_inv_new] by (simp add: lh lh_set_def items_def)
  then have "(\<lambda>x. OPENSSL_lh_retrieve hash_fn cmp_fn x lh) = (\<lambda>_. None)" by auto
  with hash_functions.run_lookup [OF assms(1), of lh ops] show ?thesis
    by (simp add: lh lh_inv_new)
qed

theorem lhash_refines_map_witness:
  "\<exists>lh h. OPENSSL_lh_new [] = (Some lh, h) \<and>
    OPENSSL_lh_retrieve OPENSSL_strhash strcmp [97]
      (fold (\<lambda>(is_put, d). if is_put then lh_put OPENSSL_strhash strcmp d else lh_del OPENSSL_strhash strcmp d)
        [(True, [97]), (True, [98]), (False, [98])] lh) = Some [97 :: byte]"
proof -
  have n: "OPENSSL_lh_new [] = (Some \<lparr>num_items = 0, buckets = replicate kMinNumBuckets [], callback_depth = 0\<rparr>, [])"
    by (simp add: OPENSSL_lh_new_def)
  note R = fun_cong [OF lhash_refines_map [OF strhash_strcmp n,
    of "[(True, [97]), (True, [98]), (False, [98])]"], of "[97]"]
  show ?thesis
    by (rule exI, rule exI, rule conjI [OF n], rule trans [OF R]) simp
qed



text \<open>A walk over the table runs the callback on every element exactly once, in one fixed order
  that threads the callback's argument, and afterwards the table holds the same elements.\<close>

theorem lh_doall_each_once:
  assumes "lh_reachable hash_fn cmp_fn nf lh" and "hash_functions hash_fn cmp_fn"
    and "OPENSSL_lh_doall_arg func lh arg h = (arg', lh', h')"
  shows "\<exists>xs. distinct xs \<and> set xs = lh_set lh \<and> length xs = num_items lh \<and> arg' = fold func xs arg \<and>
    lh_set lh' = lh_set lh \<and>
    OPENSSL_lh_retrieve hash_fn cmp_fn d lh' = OPENSSL_lh_retrieve hash_fn cmp_fn d lh"
proof (intro exI [of _ "map idata (items lh)"] conjI)
  have I: "lh_inv hash_fn cmp_fn lh" using lh_reachable_inv [OF assms(1,2)] by simp
  note D = hash_functions.doall_props [OF assms(2) I assms(3)]
  show "distinct (map idata (items lh))" "arg' = fold func (map idata (items lh)) arg" "lh_set lh' = lh_set lh"
    using D by simp_all
  show "set (map idata (items lh)) = lh_set lh" "length (map idata (items lh)) = num_items lh"
    using I by (simp_all add: lh_set_def lh_inv_def)
  show "OPENSSL_lh_retrieve hash_fn cmp_fn d lh' = OPENSSL_lh_retrieve hash_fn cmp_fn d lh"
    using hash_functions.retrieve_eqI [OF assms(2) I] D by blast
qed

theorem lh_doall_each_once_witness:
  "\<exists>lh h arg' lh' h'. OPENSSL_lh_new [] = (Some (lh :: byte list lhash), h) \<and>
    OPENSSL_lh_doall_arg (\<lambda>s n. n + length s) (lh_put OPENSSL_strhash strcmp [98] lh) 0 [] = (arg', lh', h') \<and>
    lh_set lh' = lh_set (lh_put OPENSSL_strhash strcmp [98] lh)"
proof -
  have n: "OPENSSL_lh_new [] =
      (Some \<lparr>num_items = 0, buckets = replicate kMinNumBuckets ([] :: byte list lhash_item list), callback_depth = 0\<rparr>, [])"
    (is "_ = (Some ?lh, _)")
    by (simp add: OPENSSL_lh_new_def)
  obtain ok old lh h where i: "OPENSSL_lh_insert OPENSSL_strhash strcmp [98] ?lh [] = (ok, old, lh, h)"
    by (cases "OPENSSL_lh_insert OPENSSL_strhash strcmp [98] ?lh []")
  have p: "lh_put OPENSSL_strhash strcmp [98] ?lh = lh" by (simp add: lh_put_def i)
  obtain arg' lh' h' where D: "OPENSSL_lh_doall_arg (\<lambda>s n. n + length s) lh 0 [] = (arg', lh', h')"
    by (cases "OPENSSL_lh_doall_arg (\<lambda>s n. n + length s) lh (0 :: nat) []")
  have "lh_reachable OPENSSL_strhash strcmp (True \<and> False \<notin> set []) lh"
    by (rule lh_reachable.insert [OF lh_reachable.new [OF n] _ i]) simp
  from lh_doall_each_once [OF this strhash_strcmp D] n D p show ?thesis by blast
qed

end
