(* ===== verification/Pool.thy ===== *)
theory Pool
  imports CBS LHash "HOL-Library.Multiset" "HOL-Library.Monad_Syntax"
begin

text \<open>
  The buffer pool of \<open>crypto/pool/pool.c\<close> over the hash table, with the reference counts of
  \<open>crypto/refcount_c11.c\<close> and \<open>crypto/refcount_lock.c\<close>.

  A \<open>CRYPTO_BUFFER\<close> is its address together with the fields that are never written once the buffer
  has been set up; its reference count, which is, lies in the state under its address.  An address
  without a count is not allocated, so that using or releasing a buffer that is gone has no result.
  \<open>OPENSSL_malloc\<close> returns any address that is not in use: it is an argument of the operations.

  The state is that of one pool and of all buffers.  The code between taking and releasing the lock
  of the pool is one step; \<open>pool_reachable\<close> interleaves the steps of any number of threads.
\<close>

section \<open>Reference counts\<close>

definition CRYPTO_REFCOUNT_MAX :: u32 where
  "CRYPTO_REFCOUNT_MAX = 0xffffffff"

text \<open>
  An exchange that fails loads the count again and starts over, so the effect is that of the
  iteration whose exchange succeeds.  \<open>None\<close> stands for \<open>abort\<close>.
\<close>

definition CRYPTO_refcount_inc :: "u32 \<Rightarrow> u32" where
  "CRYPTO_refcount_inc cnt = (if cnt \<noteq> CRYPTO_REFCOUNT_MAX then cnt + 1 else cnt)"

definition CRYPTO_refcount_dec_and_test_zero :: "u32 \<Rightarrow> (bool \<times> u32) option" where
  "CRYPTO_refcount_dec_and_test_zero cnt =
     (if cnt = 0 then None
      else if cnt = CRYPTO_REFCOUNT_MAX then Some (False, cnt)
      else let new_value = cnt - 1 in Some (new_value = 0, new_value))"

text \<open>The variants for compilers without atomics.\<close>

definition refcount_inc_lock :: "u32 \<Rightarrow> u32" where
  "refcount_inc_lock cnt = (if cnt < CRYPTO_REFCOUNT_MAX then cnt + 1 else cnt)"

definition refcount_dec_lock :: "u32 \<Rightarrow> (bool \<times> u32) option" where
  "refcount_dec_lock cnt =
     (if cnt = 0 then None
      else let cnt = (if cnt < CRYPTO_REFCOUNT_MAX then cnt - 1 else cnt)
           in Some (cnt = 0, cnt))"

section \<open>Buffers and the pool\<close>

record crypto_buffer =
  addr :: nat
  data :: "byte list"
  data_is_static :: bool
  pooled :: bool \<comment> \<open>\<open>buf->pool\<close> is the pool, not NULL\<close>

record pool_state =
  bufs :: "crypto_buffer lhash"
  refs :: "nat \<Rightarrow> u32 option"

definition CRYPTO_BUFFER_hash :: "crypto_buffer \<Rightarrow> u32" where
  "CRYPTO_BUFFER_hash buf = OPENSSL_hash32 (data buf)"

definition CRYPTO_BUFFER_cmp :: "crypto_buffer \<Rightarrow> crypto_buffer \<Rightarrow> int" where
  "CRYPTO_BUFFER_cmp a b = (if length (data a) \<noteq> length (data b) then 1 else memcmp (data a) (data b))"

definition CRYPTO_BUFFER_POOL_new :: "(nat \<Rightarrow> u32 option) \<Rightarrow> heap \<Rightarrow> pool_state option \<times> heap" where
  "CRYPTO_BUFFER_POOL_new rs h =
     (case heap_alloc h of
        (False, h) \<Rightarrow> (None, h)
      | (True, h) \<Rightarrow>
          (case OPENSSL_lh_new h of
             (None, h) \<Rightarrow> (None, h)
           | (Some t, h) \<Rightarrow> (Some \<lparr>bufs = t, refs = rs\<rparr>, h)))"

text \<open>How many blocks \<open>CRYPTO_BUFFER_POOL_free\<close> releases, and none when its assertion fails.\<close>

definition CRYPTO_BUFFER_POOL_free :: "pool_state option \<Rightarrow> nat option" where
  "CRYPTO_BUFFER_POOL_free pool =
     (case pool of
        None \<Rightarrow> Some 0
      | Some s \<Rightarrow> if OPENSSL_lh_num_items (bufs s) = 0 then Some (OPENSSL_lh_free (Some (bufs s)) + 1) else None)"

text \<open>The count of a live buffer goes up, or down with the test for zero.\<close>

definition refs_inc :: "nat \<Rightarrow> pool_state \<Rightarrow> pool_state option" where
  "refs_inc a s = do { r \<leftarrow> refs s a; Some (s\<lparr>refs := (refs s)(a \<mapsto> CRYPTO_refcount_inc r)\<rparr>) }"

definition refs_dec :: "nat \<Rightarrow> pool_state \<Rightarrow> (bool \<times> pool_state) option" where
  "refs_dec a s = do {
     r \<leftarrow> refs s a;
     (zero, r) \<leftarrow> CRYPTO_refcount_dec_and_test_zero r;
     Some (zero, s\<lparr>refs := (refs s)(a \<mapsto> r)\<rparr>)
   }"

definition crypto_buffer_free_object :: "crypto_buffer \<Rightarrow> pool_state \<Rightarrow> pool_state option" where
  "crypto_buffer_free_object buf s = do { r \<leftarrow> refs s (addr buf); Some (s\<lparr>refs := (refs s)(addr buf := None)\<rparr>) }"

text \<open>
  The parts of \<open>crypto_buffer_new\<close>: the lookup under the read lock, the allocation outside of the
  lock, and the second lookup and the insertion under the write lock.
\<close>

definition pool_duplicate :: "crypto_buffer \<Rightarrow> bool \<Rightarrow> pool_state \<Rightarrow> crypto_buffer option" where
  "pool_duplicate buf is_static s =
     (case OPENSSL_lh_retrieve CRYPTO_BUFFER_hash CRYPTO_BUFFER_cmp buf (bufs s) of
        None \<Rightarrow> None
      | Some duplicate \<Rightarrow> if is_static \<and> \<not> data_is_static duplicate then None else Some duplicate)"

definition pool_lookup :: "byte list \<Rightarrow> bool \<Rightarrow> pool_state \<Rightarrow> (crypto_buffer option \<times> pool_state) option" where
  "pool_lookup bytes is_static s =
     (let tmp = \<lparr>addr = 0, data = bytes, data_is_static = False, pooled = False\<rparr>
      in case pool_duplicate tmp is_static s of
           None \<Rightarrow> Some (None, s)
         | Some duplicate \<Rightarrow> do { s \<leftarrow> refs_inc (addr duplicate) s; Some (Some duplicate, s) })"

definition buffer_setup ::
  "nat \<Rightarrow> byte list \<Rightarrow> bool \<Rightarrow> bool \<Rightarrow> pool_state \<Rightarrow> heap \<Rightarrow> crypto_buffer option \<times> pool_state \<times> heap" where
  "buffer_setup p bytes is_static pool s h =
     (case heap_alloc h of
        (False, h) \<Rightarrow> (None, s, h)
      | (True, h) \<Rightarrow>
          if is_static
          then (Some \<lparr>addr = p, data = bytes, data_is_static = True, pooled = pool\<rparr>, s\<lparr>refs := (refs s)(p \<mapsto> 1)\<rparr>, h)
          else case OPENSSL_memdup bytes h of
                 (copy, h) \<Rightarrow>
                   if length bytes \<noteq> 0 \<and> copy = None then (None, s, h)
                   else (Some \<lparr>addr = p, data = (case copy of None \<Rightarrow> [] | Some bs \<Rightarrow> bs), data_is_static = False, pooled = pool\<rparr>,
                         s\<lparr>refs := (refs s)(p \<mapsto> 1)\<rparr>, h))"

definition pool_insert ::
  "crypto_buffer \<Rightarrow> bool \<Rightarrow> pool_state \<Rightarrow> heap \<Rightarrow> (crypto_buffer option \<times> pool_state \<times> heap) option" where
  "pool_insert buf is_static s h =
     (case pool_duplicate buf is_static s of
        None \<Rightarrow>
          (case OPENSSL_lh_insert CRYPTO_BUFFER_hash CRYPTO_BUFFER_cmp buf (bufs s) h of
             (inserted, old, t, h) \<Rightarrow>
               if inserted then Some (Some buf, s\<lparr>bufs := t\<rparr>, h)
               else do { s \<leftarrow> crypto_buffer_free_object buf (s\<lparr>bufs := t\<rparr>); Some (None, s, h) })
      | Some duplicate \<Rightarrow> do {
          s \<leftarrow> refs_inc (addr duplicate) s;
          s \<leftarrow> crypto_buffer_free_object buf s;
          Some (Some duplicate, s, h)
        })"

text \<open>The whole function, when no other thread comes between its parts.\<close>

definition crypto_buffer_new ::
  "nat \<Rightarrow> byte list \<Rightarrow> bool \<Rightarrow> bool \<Rightarrow> pool_state \<Rightarrow> heap \<Rightarrow> (crypto_buffer option \<times> pool_state \<times> heap) option" where
  "crypto_buffer_new p bytes is_static pool s h = do {
     (duplicate, s) \<leftarrow> (if pool then pool_lookup bytes is_static s else Some (None, s));
     case duplicate of
       Some duplicate \<Rightarrow> Some (Some duplicate, s, h)
     | None \<Rightarrow>
         (case buffer_setup p bytes is_static pool s h of
            (None, s, h) \<Rightarrow> Some (None, s, h)
          | (Some buf, s, h) \<Rightarrow> if \<not> pool then Some (Some buf, s, h) else pool_insert buf is_static s h)
   }"

definition CRYPTO_BUFFER_new ::
  "nat \<Rightarrow> byte list \<Rightarrow> bool \<Rightarrow> pool_state \<Rightarrow> heap \<Rightarrow> (crypto_buffer option \<times> pool_state \<times> heap) option" where
  "CRYPTO_BUFFER_new p bytes pool s h = crypto_buffer_new p bytes False pool s h"

text \<open>The bytes of the new buffer are those the allocator leaves there and the caller writes.\<close>

definition CRYPTO_BUFFER_alloc :: "nat \<Rightarrow> byte list \<Rightarrow> pool_state \<Rightarrow> heap \<Rightarrow> crypto_buffer option \<times> pool_state \<times> heap" where
  "CRYPTO_BUFFER_alloc p bytes s h =
     (case heap_alloc h of
        (False, h) \<Rightarrow> (None, s, h)
      | (True, h) \<Rightarrow>
          (case heap_alloc h of
             (ok, h) \<Rightarrow>
               if length bytes \<noteq> 0 \<and> \<not> ok then (None, s, h)
               else (Some \<lparr>addr = p, data = bytes, data_is_static = False, pooled = False\<rparr>, s\<lparr>refs := (refs s)(p \<mapsto> 1)\<rparr>, h)))"

definition CRYPTO_BUFFER_new_from_CBS ::
  "nat \<Rightarrow> cbs \<Rightarrow> bool \<Rightarrow> pool_state \<Rightarrow> heap \<Rightarrow> (crypto_buffer option \<times> pool_state \<times> heap) option" where
  "CRYPTO_BUFFER_new_from_CBS p cbs pool s h = CRYPTO_BUFFER_new p (take (CBS_len cbs) (CBS_data cbs)) pool s h"

definition CRYPTO_BUFFER_new_from_static_data_unsafe ::
  "nat \<Rightarrow> byte list \<Rightarrow> bool \<Rightarrow> pool_state \<Rightarrow> heap \<Rightarrow> (crypto_buffer option \<times> pool_state \<times> heap) option" where
  "CRYPTO_BUFFER_new_from_static_data_unsafe p bytes pool s h = crypto_buffer_new p bytes True pool s h"

definition CRYPTO_BUFFER_free :: "crypto_buffer option \<Rightarrow> pool_state \<Rightarrow> heap \<Rightarrow> (pool_state \<times> heap) option" where
  "CRYPTO_BUFFER_free buf s h =
     (case buf of
        None \<Rightarrow> Some (s, h)
      | Some buf \<Rightarrow>
          if \<not> pooled buf
          then do {
            (zero, s) \<leftarrow> refs_dec (addr buf) s;
            if zero then do { s \<leftarrow> crypto_buffer_free_object buf s; Some (s, h) } else Some (s, h)
          }
          else do {
            (zero, s) \<leftarrow> refs_dec (addr buf) s;
            if \<not> zero then Some (s, h)
            else
              let found = OPENSSL_lh_retrieve CRYPTO_BUFFER_hash CRYPTO_BUFFER_cmp buf (bufs s)
              in if map_option addr found = Some (addr buf)
                 then (case OPENSSL_lh_delete CRYPTO_BUFFER_hash CRYPTO_BUFFER_cmp buf (bufs s) h of
                         (found, t, h) \<Rightarrow>
                           if map_option addr found \<noteq> Some (addr buf) then None
                           else do { s \<leftarrow> crypto_buffer_free_object buf (s\<lparr>bufs := t\<rparr>); Some (s, h) })
                 else do { s \<leftarrow> crypto_buffer_free_object buf s; Some (s, h) }
          })"

definition CRYPTO_BUFFER_up_ref :: "crypto_buffer \<Rightarrow> pool_state \<Rightarrow> (int \<times> pool_state) option" where
  "CRYPTO_BUFFER_up_ref buf s = do { s \<leftarrow> refs_inc (addr buf) s; Some (1, s) }"

definition CRYPTO_BUFFER_data :: "crypto_buffer \<Rightarrow> byte list" where
  "CRYPTO_BUFFER_data buf = data buf"

definition CRYPTO_BUFFER_len :: "crypto_buffer \<Rightarrow> nat" where
  "CRYPTO_BUFFER_len buf = length (data buf)"

definition CRYPTO_BUFFER_init_CBS :: "crypto_buffer \<Rightarrow> cbs" where
  "CRYPTO_BUFFER_init_CBS buf = CBS_init (data buf)"


section \<open>Any interleaving of threads\<close>

text \<open>
  What the threads have: \<open>held\<close> counts the references they own, \<open>pending\<close> the buffers that a thread
  has set up for the pool and not yet inserted.
\<close>

inductive pool_reachable :: "pool_state \<Rightarrow> crypto_buffer multiset \<Rightarrow> crypto_buffer multiset \<Rightarrow> bool" where
  new: "CRYPTO_BUFFER_POOL_new (\<lambda>_. None) h = (Some s, h') \<Longrightarrow> pool_reachable s {#} {#}"
| lookup: "\<lbrakk>pool_reachable s held pending; pool_lookup bytes is_static s = Some (Some b, s')\<rbrakk> \<Longrightarrow>
    pool_reachable s' (add_mset b held) pending"
| set_up: "\<lbrakk>pool_reachable s held pending; refs s p = None; buffer_setup p bytes is_static pool s h = (Some b, s', h')\<rbrakk> \<Longrightarrow>
    pool_reachable s' (if pool then held else add_mset b held) (if pool then add_mset b pending else pending)"
| alloc: "\<lbrakk>pool_reachable s held pending; refs s p = None; CRYPTO_BUFFER_alloc p bytes s h = (Some b, s', h')\<rbrakk> \<Longrightarrow>
    pool_reachable s' (add_mset b held) pending"
| insert: "\<lbrakk>pool_reachable s held pending; b \<in># pending; pool_insert b (data_is_static b) s h = Some (ret, s', h')\<rbrakk> \<Longrightarrow>
    pool_reachable s' (case ret of None \<Rightarrow> held | Some r \<Rightarrow> add_mset r held) (pending - {#b#})"
| up_ref: "\<lbrakk>pool_reachable s held pending; b \<in># held; CRYPTO_BUFFER_up_ref b s = Some (ret, s')\<rbrakk> \<Longrightarrow>
    pool_reachable s' (add_mset b held) pending"
| free: "\<lbrakk>pool_reachable s held pending; b \<in># held; CRYPTO_BUFFER_free (Some b) s h = Some (s', h')\<rbrakk> \<Longrightarrow>
    pool_reachable s' (held - {#b#}) pending"

text \<open>The two variants of the counters agree.\<close>

lemma CRYPTO_REFCOUNT_MAX_eq: "CRYPTO_REFCOUNT_MAX = - 1"
  by code_simp

lemma refcount_variants:
  "refcount_inc_lock c = CRYPTO_refcount_inc c" "refcount_dec_lock c = CRYPTO_refcount_dec_and_test_zero c"
proof -
  have "c < CRYPTO_REFCOUNT_MAX \<longleftrightarrow> c \<noteq> CRYPTO_REFCOUNT_MAX"
    using word_order.extremum [of c] by (auto simp: CRYPTO_REFCOUNT_MAX_eq order.strict_iff_order)
  then show "refcount_inc_lock c = CRYPTO_refcount_inc c" "refcount_dec_lock c = CRYPTO_refcount_dec_and_test_zero c"
    by (auto simp: refcount_inc_lock_def CRYPTO_refcount_inc_def refcount_dec_lock_def
      CRYPTO_refcount_dec_and_test_zero_def Let_def)
qed

lemma CRYPTO_BUFFER_cmp_eq_0: "CRYPTO_BUFFER_cmp a b = 0 \<longleftrightarrow> data a = data b"
  by (auto simp: CRYPTO_BUFFER_cmp_def memcmp_eq_0)

interpretation buffer_table: hash_functions CRYPTO_BUFFER_hash CRYPTO_BUFFER_cmp
  by unfold_locales (auto simp: CRYPTO_BUFFER_cmp_eq_0 CRYPTO_BUFFER_hash_def equivp_def fun_eq_iff)

abbreviation pool_table_ok :: "pool_state \<Rightarrow> bool" where
  "pool_table_ok s \<equiv> lh_inv CRYPTO_BUFFER_hash CRYPTO_BUFFER_cmp (bufs s)"

text \<open>A count is exact until it saturates.\<close>

definition counts :: "u32 \<Rightarrow> nat \<Rightarrow> bool" where
  "counts r n \<longleftrightarrow> r \<noteq> 0 \<and> (r = CRYPTO_REFCOUNT_MAX \<or> unat r = n)"

definition counted :: "(nat \<Rightarrow> u32 option) \<Rightarrow> crypto_buffer multiset \<Rightarrow> crypto_buffer \<Rightarrow> bool" where
  "counted rs held b \<longleftrightarrow> (\<exists>r. rs (addr b) = Some r \<and> counts r (count held b))"

lemma counts_inc: "counts r n \<Longrightarrow> counts (CRYPTO_refcount_inc r) (Suc n)"
proof (cases "r = CRYPTO_REFCOUNT_MAX")
  case False
  assume c: "counts r n"
  have "r \<noteq> - 1" using False by (simp add: CRYPTO_REFCOUNT_MAX_eq)
  then have "1 + r \<noteq> 0" by (metis add.commute add_eq_0_iff)
  then have "unat (1 + r) = Suc (unat r)" by (rule unatSuc)
  with c False \<open>1 + r \<noteq> 0\<close> show ?thesis by (simp add: counts_def CRYPTO_refcount_inc_def add.commute)
qed (simp add: counts_def CRYPTO_refcount_inc_def)

lemma counts_dec:
  assumes "counts r (Suc n)"
  shows "\<exists>zero r'. CRYPTO_refcount_dec_and_test_zero r = Some (zero, r') \<and>
    (if zero then n = 0 else counts r' n)"
proof (cases "r = CRYPTO_REFCOUNT_MAX")
  case True
  with assms have "CRYPTO_refcount_dec_and_test_zero r = Some (False, r)" "counts r n"
    by (simp_all add: counts_def CRYPTO_refcount_dec_and_test_zero_def)
  then show ?thesis by (intro exI [of _ False] exI [of _ r]) simp
next
  case False
  with assms have r: "r \<noteq> 0" "unat r = Suc n" by (auto simp: counts_def)
  then have "unat (r - 1) = n" by (simp add: unat_minus_one)
  with r False show ?thesis
    by (auto simp: CRYPTO_refcount_dec_and_test_zero_def Let_def counts_def unat_eq_zero)
qed

lemma counts_one [simp]: "counts 1 n \<longleftrightarrow> n = 1"
  by (auto simp: counts_def CRYPTO_REFCOUNT_MAX_def)

lemma counted_other:
  "addr c \<noteq> addr b \<Longrightarrow> count held' c = count held c \<Longrightarrow> counted (rs(addr b := x)) held' c = counted rs held c"
  by (simp add: counted_def)

text \<open>
  The invariant: every buffer that a thread has a reference to or that lies in the table is live with
  an exact count, a pending buffer belongs to one thread alone, addresses tell buffers apart, and
  no live buffer is unaccounted for unless its count is saturated.
\<close>

definition known :: "pool_state \<Rightarrow> crypto_buffer multiset \<Rightarrow> crypto_buffer set" where
  "known s held = set_mset held \<union> lh_set (bufs s)"

definition pool_inv :: "pool_state \<Rightarrow> crypto_buffer multiset \<Rightarrow> crypto_buffer multiset \<Rightarrow> bool" where
  "pool_inv s held pending \<longleftrightarrow>
     pool_table_ok s \<and>
     (\<forall>b \<in> known s held. counted (refs s) held b) \<and>
     (\<forall>b \<in># pending. refs s (addr b) = Some 1 \<and> count pending b = 1 \<and> b \<notin> known s held \<and> pooled b) \<and>
     inj_on addr (known s held \<union> set_mset pending) \<and>
     (\<forall>b \<in> lh_set (bufs s). pooled b) \<and>
     (\<forall>a r. refs s a = Some r \<longrightarrow> r = CRYPTO_REFCOUNT_MAX \<or> (\<exists>b \<in># held + pending. addr b = a))"

lemma pool_invD:
  assumes "pool_inv s held pending"
  shows "pool_table_ok s"
    and "c \<in> known s held \<Longrightarrow> counted (refs s) held c"
    and "c \<in># pending \<Longrightarrow> refs s (addr c) = Some 1 \<and> count pending c = 1 \<and> c \<notin> known s held \<and> pooled c"
    and "inj_on addr (known s held \<union> set_mset pending)"
    and "c \<in> lh_set (bufs s) \<Longrightarrow> pooled c"
    and "refs s a = Some r \<Longrightarrow> r = CRYPTO_REFCOUNT_MAX \<or> (\<exists>b \<in># held + pending. addr b = a)"
  using assms unfolding pool_inv_def by blast+

text \<open>Addresses tell known and pending buffers apart, and they are all live.\<close>

lemma addr_neq:
  assumes "pool_inv s held pending" and "b \<in> known s held \<union> set_mset pending" and "c \<in> known s held \<union> set_mset pending"
  shows "addr c = addr b \<longleftrightarrow> c = b"
  using pool_invD(4) [OF assms(1)] assms(2,3) by (auto simp: inj_on_def)

lemma addr_live: "pool_inv s held pending \<Longrightarrow> c \<in> known s held \<union> set_mset pending \<Longrightarrow> refs s (addr c) \<noteq> None"
  using pool_invD(2,3) [of s held pending c] by (auto simp: counted_def)

lemma retrieve_same_data:
  "data c = data b \<Longrightarrow> OPENSSL_lh_retrieve CRYPTO_BUFFER_hash CRYPTO_BUFFER_cmp c t =
    OPENSSL_lh_retrieve CRYPTO_BUFFER_hash CRYPTO_BUFFER_cmp b t"
  by (simp add: OPENSSL_lh_retrieve_def get_next_ptr_and_hash_def CRYPTO_BUFFER_hash_def CRYPTO_BUFFER_cmp_def)

lemma pool_duplicate_props:
  assumes "pool_table_ok s" and "pool_duplicate buf is_static s = Some d"
  shows "d \<in> lh_set (bufs s) \<and> data d = data buf \<and> (is_static \<longrightarrow> data_is_static d)"
  using assms(2) buffer_table.retrieve_iff [OF assms(1)]
  by (auto simp: pool_duplicate_def CRYPTO_BUFFER_cmp_eq_0 split: option.splits if_splits)

text \<open>One more reference to a known buffer.\<close>

lemma pool_inv_inc:
  assumes "pool_inv s held pending" and "b \<in> known s held"
  shows "\<exists>s'. refs_inc (addr b) s = Some s' \<and> bufs s' = bufs s \<and> pool_inv s' (add_mset b held) pending \<and>
    (\<forall>a. refs s' a = None \<longleftrightarrow> refs s a = None) \<and> (\<forall>a. a \<noteq> addr b \<longrightarrow> refs s' a = refs s a)"
proof -
  note I = pool_invD [OF assms(1)]
  obtain r where r: "refs s (addr b) = Some r" "counts r (count held b)"
    using I(2) [OF assms(2)] by (auto simp: counted_def)
  let ?s = "s\<lparr>refs := (refs s)(addr b \<mapsto> CRYPTO_refcount_inc r)\<rparr>"
  have k: "known ?s (add_mset b held) = known s held"
    using assms(2) by (auto simp: known_def)
  have ne: "addr c \<noteq> addr b" if "c \<in> known s held \<union> set_mset pending" "c \<noteq> b" for c
    using addr_neq [OF assms(1)] assms(2) that by blast
  have "counted (refs ?s) (add_mset b held) c" if "c \<in> known s held" for c
  proof (cases "c = b")
    case True
    with counts_inc [OF r(2)] show ?thesis by (simp add: counted_def)
  next
    case False
    with I(2) [OF that] ne [of c] that show ?thesis by (simp add: counted_other)
  qed
  moreover have "refs ?s (addr c) = Some 1 \<and> count pending c = 1 \<and> c \<notin> known s held \<and> pooled c" if "c \<in># pending" for c
    using I(3) [OF that] ne [of c] that assms(2) by auto
  moreover have "r' = CRYPTO_REFCOUNT_MAX \<or> (\<exists>c \<in># add_mset b held + pending. addr c = a)" if "refs ?s a = Some r'" for a r'
    using that I(6) [of a r'] by (cases "a = addr b") auto
  ultimately have "pool_inv ?s (add_mset b held) pending"
    using I(1,4,5) unfolding pool_inv_def k by simp
  with r show ?thesis by (auto simp: refs_inc_def)
qed

text \<open>A new buffer at an address that was free.\<close>

lemma pool_inv_new:
  assumes "pool_inv s held pending" and "refs s (addr b) = None"
  shows "pool_inv (s\<lparr>refs := (refs s)(addr b \<mapsto> 1)\<rparr>) (add_mset b held) pending"
    and "pooled b \<Longrightarrow> pool_inv (s\<lparr>refs := (refs s)(addr b \<mapsto> 1)\<rparr>) held (add_mset b pending)"
proof -
  note I = pool_invD [OF assms(1)]
  let ?s = "s\<lparr>refs := (refs s)(addr b \<mapsto> 1)\<rparr>"
  have ne: "addr c \<noteq> addr b" if "c \<in> known s held \<union> set_mset pending" for c
    using addr_live [OF assms(1) that] assms(2) by auto
  then have b: "b \<notin> known s held" "b \<notin># pending" "b \<notin># held" by (auto simp: known_def)
  have inj: "inj_on addr (insert b (known s held \<union> set_mset pending))"
    using I(4) ne [THEN not_sym] by auto
  have k: "known ?s (add_mset b held) = insert b (known s held)" "known ?s held = known s held" by (auto simp: known_def)
  have c: "counted (refs ?s) (add_mset b held) c" if "c \<in> insert b (known s held)" for c
    using that I(2) [of c] ne [of c] b(3) by (cases "c = b") (auto simp: counted_other count_eq_zero_iff counted_def)
  have c': "counted (refs ?s) held c" if "c \<in> known s held" for c
    using that I(2) [of c] ne [of c] by (simp add: counted_other)
  have p: "refs ?s (addr c) = Some 1 \<and> count pending c = 1 \<and> c \<notin> insert b (known s held) \<and> pooled c" if "c \<in># pending" for c
    using that I(3) [of c] ne [of c] b(2) by auto
  have l: "r = CRYPTO_REFCOUNT_MAX \<or> (\<exists>c \<in># add_mset b (held + pending). addr c = a)" if "refs ?s a = Some r" for a r
    using that I(6) [of a r] by (cases "a = addr b") auto
  show "pool_inv ?s (add_mset b held) pending"
    unfolding pool_inv_def k using I(1,5) inj c p l by simp
  show "pool_inv ?s held (add_mset b pending)" if "pooled b"
    unfolding pool_inv_def k using I(1,5) inj c' p l b that by (auto simp: count_eq_zero_iff)
qed

text \<open>A pending buffer is released, or becomes an element of the table.\<close>

lemma pool_inv_drop_pending:
  assumes "pool_inv s held pending" and "b \<in># pending"
  shows "pool_inv (s\<lparr>refs := (refs s)(addr b := None)\<rparr>) held (pending - {#b#})"
proof -
  note I = pool_invD [OF assms(1)]
  let ?s = "s\<lparr>refs := (refs s)(addr b := None)\<rparr>"
  have b: "count pending b = 1" "b \<notin> known s held" using I(3) [OF assms(2)] by auto
  have sub: "c \<in># pending - {#b#} \<longleftrightarrow> c \<in># pending \<and> c \<noteq> b" for c
    using b(1) by (auto simp: in_diff_count count_eq_zero_iff [symmetric] simp flip: count_greater_zero_iff)
  have ne: "addr c \<noteq> addr b" if "c \<in> known s held \<union> set_mset pending" "c \<noteq> b" for c
    using addr_neq [OF assms(1)] assms(2) that by blast
  have k: "known ?s held = known s held" by (simp add: known_def)
  have "counted (refs ?s) held c" if "c \<in> known s held" for c
    using that I(2) [of c] ne [of c] b(2) by (cases "c = b") (simp_all add: counted_other)
  moreover have "refs ?s (addr c) = Some 1 \<and> count (pending - {#b#}) c = 1 \<and> c \<notin> known s held \<and> pooled c"
    if "c \<in># pending - {#b#}" for c
    using that I(3) [of c] ne [of c] by (auto simp: sub)
  moreover have "r = CRYPTO_REFCOUNT_MAX \<or> (\<exists>c \<in># held + (pending - {#b#}). addr c = a)" if "refs ?s a = Some r" for a r
    using that I(6) [of a r] by (auto simp: sub split: if_splits)
  moreover have "inj_on addr (known s held \<union> set_mset (pending - {#b#}))"
    by (rule inj_on_subset [OF I(4)]) (auto simp: sub)
  ultimately show ?thesis
    unfolding pool_inv_def k using I(1,5) by simp
qed

lemma pool_inv_publish:
  assumes "pool_inv s held pending" and "b \<in># pending"
    and "lh_inv CRYPTO_BUFFER_hash CRYPTO_BUFFER_cmp t" and "lh_set t \<subseteq> insert b (lh_set (bufs s))"
  shows "pool_inv (s\<lparr>bufs := t\<rparr>) (add_mset b held) (pending - {#b#})"
proof -
  note I = pool_invD [OF assms(1)]
  let ?s = "s\<lparr>bufs := t\<rparr>"
  have b: "refs s (addr b) = Some 1" "count pending b = 1" "b \<notin> known s held" "pooled b" using I(3) [OF assms(2)] by auto
  then have h: "count held b = 0" by (auto simp: known_def count_eq_zero_iff)
  have sub: "c \<in># pending - {#b#} \<longleftrightarrow> c \<in># pending \<and> c \<noteq> b" for c
    using b(2) by (auto simp: in_diff_count count_eq_zero_iff [symmetric] simp flip: count_greater_zero_iff)
  have k: "known ?s (add_mset b held) \<subseteq> insert b (known s held)" using assms(4) by (auto simp: known_def)
  have "counted (refs ?s) (add_mset b held) c" if "c \<in> insert b (known s held)" for c
    using that I(2) [of c] b h by (cases "c = b") (auto simp: counted_def)
  then have "\<forall>c \<in> known ?s (add_mset b held). counted (refs ?s) (add_mset b held) c" using k by blast
  moreover have "refs ?s (addr c) = Some 1 \<and> count (pending - {#b#}) c = 1 \<and> c \<notin> known ?s (add_mset b held) \<and> pooled c"
    if "c \<in># pending - {#b#}" for c
    using that I(3) [of c] k by (auto simp: sub)
  moreover have "r = CRYPTO_REFCOUNT_MAX \<or> (\<exists>c \<in># add_mset b held + (pending - {#b#}). addr c = a)" if "refs ?s a = Some r" for a r
    using that I(6) [of a r] by (auto simp: sub)
  moreover have "inj_on addr (known ?s (add_mset b held) \<union> set_mset (pending - {#b#}))"
    by (rule inj_on_subset [OF I(4)]) (use k assms(2) in \<open>auto simp: sub\<close>)
  moreover have "\<forall>c \<in> lh_set (bufs ?s). pooled c" using assms(4) I(5) b(4) by auto
  ultimately show ?thesis
    unfolding pool_inv_def using assms(3) by simp
qed

text \<open>A reference is given up: either others are left, or the buffer can go, and leave the table with it.\<close>

lemma pool_inv_dec:
  assumes "pool_inv s held pending" and "b \<in># held"
  shows "\<exists>zero s'. refs_dec (addr b) s = Some (zero, s') \<and> bufs s' = bufs s \<and> refs s' (addr b) \<noteq> None \<and>
    (\<not> zero \<longrightarrow> pool_inv s' (held - {#b#}) pending) \<and>
    (zero \<longrightarrow> (\<forall>t. lh_inv CRYPTO_BUFFER_hash CRYPTO_BUFFER_cmp t \<and> lh_set t = lh_set (bufs s) - {b} \<longrightarrow>
      pool_inv \<lparr>bufs = t, refs = (refs s')(addr b := None)\<rparr> (held - {#b#}) pending))"
proof -
  note I = pool_invD [OF assms(1)]
  have bk: "b \<in> known s held" using assms(2) by (simp add: known_def)
  obtain n where n: "count held b = Suc n" using assms(2) by (metis not0_implies_Suc count_eq_zero_iff)
  obtain r where r: "refs s (addr b) = Some r" "counts r (Suc n)"
    using I(2) [OF bk] by (auto simp: counted_def n)
  obtain zero r' where d: "CRYPTO_refcount_dec_and_test_zero r = Some (zero, r')" "if zero then n = 0 else counts r' n"
    using counts_dec [OF r(2)] by blast
  let ?s = "s\<lparr>refs := (refs s)(addr b \<mapsto> r')\<rparr>"
  have ne: "addr c \<noteq> addr b" if "c \<in> known s held \<union> set_mset pending" "c \<noteq> b" for c
    using addr_neq [OF assms(1)] bk that by blast
  have pb: "b \<notin># pending" using I(3) bk by blast
  have sub: "c \<in># held - {#b#} \<longleftrightarrow> (if c = b then 0 < n else c \<in># held)" for c
    using n by (auto simp: in_diff_count simp flip: count_greater_zero_iff)
  have live: "pool_inv ?s (held - {#b#}) pending" if z: "\<not> zero"
  proof -
    have k: "known ?s (held - {#b#}) \<subseteq> known s held" by (auto simp: known_def dest: in_diffD)
    have "counted (refs ?s) (held - {#b#}) c" if "c \<in> known s held" for c
    proof (cases "c = b")
      case True
      then show ?thesis using d z n by (simp add: counted_def)
    next
      case False
      then show ?thesis using that I(2) [of c] ne [of c] by (simp add: counted_other)
    qed
    then have "\<forall>c \<in> known ?s (held - {#b#}). counted (refs ?s) (held - {#b#}) c" using k by blast
    moreover have "refs ?s (addr c) = Some 1 \<and> count pending c = 1 \<and> c \<notin> known ?s (held - {#b#}) \<and> pooled c"
      if "c \<in># pending" for c
      using that I(3) [of c] ne [of c] pb k by auto
    moreover have "r2 = CRYPTO_REFCOUNT_MAX \<or> (\<exists>c \<in># (held - {#b#}) + pending. addr c = a)" if "refs ?s a = Some r2" for a r2
    proof (cases "a = addr b")
      case True
      then show ?thesis using that d z by (cases "n = 0") (auto simp: counts_def sub unat_eq_zero)
    next
      case False
      with that I(6) [of a r2] obtain c where "r2 = CRYPTO_REFCOUNT_MAX \<or> c \<in># held + pending \<and> addr c = a" by auto
      with False show ?thesis by (auto simp: sub)
    qed
    moreover have "inj_on addr (known ?s (held - {#b#}) \<union> set_mset pending)"
      by (rule inj_on_subset [OF I(4)]) (use k in auto)
    ultimately show ?thesis
      unfolding pool_inv_def using I(1,5) by simp
  qed
  have gone: "pool_inv \<lparr>bufs = t, refs = (refs ?s)(addr b := None)\<rparr> (held - {#b#}) pending"
    if z: "zero" and t: "lh_inv CRYPTO_BUFFER_hash CRYPTO_BUFFER_cmp t" "lh_set t = lh_set (bufs s) - {b}" for t
  proof -
    let ?t = "\<lparr>bufs = t, refs = (refs ?s)(addr b := None)\<rparr>"
    have n0: "n = 0" using d z by simp
    then have sub0: "c \<in># held - {#b#} \<longleftrightarrow> c \<noteq> b \<and> c \<in># held" for c by (simp add: sub)
    have k: "known ?t (held - {#b#}) = known s held - {b}"
      unfolding known_def set_eq_iff Un_iff Diff_iff sub0 by (simp add: t(2)) blast
    have "counted (refs ?t) (held - {#b#}) c" if "c \<in> known s held - {b}" for c
      using that I(2) [of c] ne [of c] by (auto simp: counted_other)
    moreover have "refs ?t (addr c) = Some 1 \<and> count pending c = 1 \<and> c \<notin> known s held - {b} \<and> pooled c" if "c \<in># pending" for c
      using that I(3) [of c] ne [of c] pb by auto
    moreover have "r2 = CRYPTO_REFCOUNT_MAX \<or> (\<exists>c \<in># (held - {#b#}) + pending. addr c = a)" if "refs ?t a = Some r2" for a r2
      using that I(6) [of a r2] by (auto simp: sub0 split: if_splits)
    moreover have "inj_on addr (known s held - {b} \<union> set_mset pending)"
      by (rule inj_on_subset [OF I(4)]) auto
    ultimately show ?thesis
      unfolding pool_inv_def k using t I(5) by simp
  qed
  show ?thesis
    using r d live gone by (simp add: refs_dec_def)
qed

section \<open>The operations keep the invariant and never touch a dead buffer\<close>

lemma pool_lookup_props:
  assumes "pool_inv s held pending"
  shows "\<exists>ret s'. pool_lookup bytes is_static s = Some (ret, s') \<and> bufs s' = bufs s \<and>
    (\<forall>a. refs s' a = None \<longleftrightarrow> refs s a = None) \<and>
    (case ret of
       None \<Rightarrow> s' = s
     | Some b \<Rightarrow> pool_inv s' (add_mset b held) pending \<and> b \<in> lh_set (bufs s) \<and> data b = bytes \<and>
         (is_static \<longrightarrow> data_is_static b))"
proof -
  let ?tmp = "\<lparr>addr = 0, data = bytes, data_is_static = False, pooled = False\<rparr>"
  note D = pool_duplicate_props [OF pool_invD(1) [OF assms], of ?tmp is_static]
  show ?thesis
  proof (cases "pool_duplicate ?tmp is_static s")
    case (Some d)
    then have "d \<in> lh_set (bufs s)" using D by blast
    then have "d \<in> known s held" by (simp add: known_def)
    from pool_inv_inc [OF assms this] D [OF Some] Some show ?thesis
      by (auto simp: pool_lookup_def Let_def)
  qed (simp add: pool_lookup_def Let_def)
qed

lemma buffer_setup_props:
  assumes "buffer_setup p bytes is_static pool s h = (Some b, s', h')"
  shows "addr b = p \<and> data b = bytes \<and> data_is_static b = is_static \<and> pooled b = pool \<and>
    s' = s\<lparr>refs := (refs s)(addr b \<mapsto> 1)\<rparr>"
  using assms by (auto simp: buffer_setup_def OPENSSL_memdup_def Let_def split: prod.splits bool.splits if_splits)

lemma buffer_setup_outcome:
  assumes "buffer_setup p bytes is_static pool s h = (ret, s', h')"
  shows "(False \<notin> set h \<longrightarrow> ret \<noteq> None \<and> False \<notin> set h') \<and> (ret = None \<longrightarrow> s' = s)"
proof -
  obtain ok h1 where h1: "heap_alloc h = (ok, h1)" by (cases "heap_alloc h")
  obtain ok2 h2 where h2: "heap_alloc h1 = (ok2, h2)" by (cases "heap_alloc h1")
  have "False \<notin> set h \<longrightarrow> ok \<and> False \<notin> set h1 \<and> ok2 \<and> False \<notin> set h2"
    using heap_alloc_outcome [OF _ h1] heap_alloc_outcome [OF _ h2] by blast
  with assms h1 h2 show ?thesis
    by (cases ok) (auto simp: buffer_setup_def OPENSSL_memdup_def Let_def split: prod.splits if_splits)
qed

lemma alloc_props:
  assumes "CRYPTO_BUFFER_alloc p bytes s h = (Some b, s', h')"
  shows "addr b = p \<and> data b = bytes \<and> s' = s\<lparr>refs := (refs s)(addr b \<mapsto> 1)\<rparr>"
  using assms by (auto simp: CRYPTO_BUFFER_alloc_def split: prod.splits bool.splits if_splits)

lemma pool_insert_props:
  assumes "pool_inv s held pending" and "b \<in># pending"
  shows "\<exists>ret s' h'. pool_insert b (data_is_static b) s h = Some (ret, s', h') \<and>
    pool_inv s' (case ret of None \<Rightarrow> held | Some r \<Rightarrow> add_mset r held) (pending - {#b#}) \<and>
    (case ret of
       None \<Rightarrow> \<not> fst (heap_alloc h) \<and> bufs s' = bufs s
     | Some r \<Rightarrow> data r = data b \<and> (data_is_static b \<longrightarrow> data_is_static r) \<and> (r = b \<or> r \<in> lh_set (bufs s)) \<and>
         OPENSSL_lh_retrieve CRYPTO_BUFFER_hash CRYPTO_BUFFER_cmp b (bufs s') = Some r)"
proof -
  note T = pool_invD(1) [OF assms(1)]
  have live: "refs s (addr b) = Some 1" using pool_invD(3) [OF assms(1,2)] by simp
  show ?thesis
  proof (cases "pool_duplicate b (data_is_static b) s")
    case (Some d)
    note D = pool_duplicate_props [OF T Some]
    then have k: "d \<in> known s held" by (simp add: known_def)
    obtain s1 where s1: "refs_inc (addr d) s = Some s1" "bufs s1 = bufs s" "pool_inv s1 (add_mset d held) pending"
      "\<forall>a. refs s1 a = None \<longleftrightarrow> refs s a = None"
      using pool_inv_inc [OF assms(1) k] by blast
    then obtain r where r: "refs s1 (addr b) = Some r" using live by (metis not_None_eq)
    have "OPENSSL_lh_retrieve CRYPTO_BUFFER_hash CRYPTO_BUFFER_cmp b (bufs s) = Some d"
      using D buffer_table.retrieve_iff [OF T] by (simp add: CRYPTO_BUFFER_cmp_eq_0)
    with Some D s1 r pool_inv_drop_pending [OF s1(3) assms(2)] show ?thesis
      by (simp add: pool_insert_def crypto_buffer_free_object_def)
  next
    case None
    obtain ok old t h' where i: "OPENSSL_lh_insert CRYPTO_BUFFER_hash CRYPTO_BUFFER_cmp b (bufs s) h = (ok, old, t, h')"
      by (cases "OPENSSL_lh_insert CRYPTO_BUFFER_hash CRYPTO_BUFFER_cmp b (bufs s) h")
    note P = buffer_table.insert_props [OF T i]
    show ?thesis
    proof (cases ok)
      case True
      with P have t: "lh_inv CRYPTO_BUFFER_hash CRYPTO_BUFFER_cmp t" "lh_set t \<subseteq> insert b (lh_set (bufs s))" "b \<in> lh_set t"
        by auto
      have "OPENSSL_lh_retrieve CRYPTO_BUFFER_hash CRYPTO_BUFFER_cmp b t = Some b"
        using t buffer_table.retrieve_iff [OF t(1)] by (simp add: CRYPTO_BUFFER_cmp_eq_0)
      with None True i pool_inv_publish [OF assms t(1,2)] show ?thesis by (simp add: pool_insert_def)
    next
      case False
      with P have "t = bufs s" "\<not> fst (heap_alloc h)" by auto
      with None False i live pool_inv_drop_pending [OF assms] show ?thesis
        by (simp add: pool_insert_def crypto_buffer_free_object_def)
    qed
  qed
qed

lemma CRYPTO_BUFFER_free_props:
  assumes "pool_inv s held pending" and "b \<in># held"
  shows "\<exists>s' h'. CRYPTO_BUFFER_free (Some b) s h = Some (s', h') \<and> pool_inv s' (held - {#b#}) pending"
proof -
  note T = pool_invD(1) [OF assms(1)]
  obtain zero s1 where s1: "refs_dec (addr b) s = Some (zero, s1)" "bufs s1 = bufs s" "refs s1 (addr b) \<noteq> None"
    "\<not> zero \<Longrightarrow> pool_inv s1 (held - {#b#}) pending"
    and gone: "\<And>t. zero \<Longrightarrow> lh_inv CRYPTO_BUFFER_hash CRYPTO_BUFFER_cmp t \<Longrightarrow> lh_set t = lh_set (bufs s) - {b} \<Longrightarrow>
      pool_inv \<lparr>bufs = t, refs = (refs s1)(addr b := None)\<rparr> (held - {#b#}) pending"
    using pool_inv_dec [OF assms] by blast
  obtain r where r: "refs s1 (addr b) = Some r" using s1(3) by blast
  note G = gone [unfolded s1(2) [symmetric]]
  have e: "s1\<lparr>refs := f\<rparr> = \<lparr>bufs = bufs s1, refs = f\<rparr>" "s1\<lparr>bufs := t, refs := f\<rparr> = \<lparr>bufs = t, refs = f\<rparr>" for t f
    by simp_all
  let ?found = "OPENSSL_lh_retrieve CRYPTO_BUFFER_hash CRYPTO_BUFFER_cmp b (bufs s1)"
  have T1: "pool_table_ok s1" using T s1(2) by simp
  have found: "map_option addr ?found = Some (addr b) \<longleftrightarrow> b \<in> lh_set (bufs s1)" (is "?L = ?R")
  proof
    assume ?L
    then obtain c where c: "?found = Some c" "addr c = addr b" by auto
    then have "c \<in> lh_set (bufs s1)" using buffer_table.retrieve_iff [OF T1] by blast
    moreover from this have "c = b"
      using addr_neq [OF assms(1), of b c] c(2) assms(2) s1(2) by (simp add: known_def)
    ultimately show ?R by simp
  next
    assume ?R
    then have "?found = Some b" using buffer_table.retrieve_iff [OF T1] by (simp add: CRYPTO_BUFFER_cmp_eq_0)
    then show ?L by simp
  qed
  consider "\<not> zero" | "zero" "b \<notin> lh_set (bufs s1)" | "zero" "b \<in> lh_set (bufs s1)" "pooled b"
    using pool_invD(5) [OF assms(1)] s1(2) by auto
  then show ?thesis
  proof cases
    case 1
    then show ?thesis using s1 by (auto simp: CRYPTO_BUFFER_free_def)
  next
    case 2
    then show ?thesis
      using s1(1) r found G [OF _ T1] by (auto simp: CRYPTO_BUFFER_free_def crypto_buffer_free_object_def Let_def e)
  next
    case 3
    obtain ret t h' where d: "OPENSSL_lh_delete CRYPTO_BUFFER_hash CRYPTO_BUFFER_cmp b (bufs s1) h = (ret, t, h')"
      by (cases "OPENSSL_lh_delete CRYPTO_BUFFER_hash CRYPTO_BUFFER_cmp b (bufs s1) h")
    note P = buffer_table.delete_props [OF T1 d]
    have "lh_set t = lh_set (bufs s1) - {b}"
      using P buffer_table.lh_set_unique [OF T1 _ 3(2)] by (auto simp: CRYPTO_BUFFER_cmp_eq_0)
    with P have inv: "pool_inv \<lparr>bufs = t, refs = (refs s1)(addr b := None)\<rparr> (held - {#b#}) pending"
      by (intro G [OF 3(1)]) simp_all
    have "map_option addr ret = Some (addr b)" using P 3(2) found by simp
    with 3 d s1(1) r found inv show ?thesis
      by (auto simp: CRYPTO_BUFFER_free_def crypto_buffer_free_object_def Let_def e)
  qed
qed

lemma up_ref_props:
  assumes "pool_inv s held pending" and "b \<in># held"
  shows "\<exists>s'. CRYPTO_BUFFER_up_ref b s = Some (1, s') \<and> pool_inv s' (add_mset b held) pending"
  using pool_inv_inc [OF assms(1), of b] assms(2) by (auto simp: CRYPTO_BUFFER_up_ref_def known_def)

lemma pool_reachable_inv: "pool_reachable s held pending \<Longrightarrow> pool_inv s held pending"
proof (induction rule: pool_reachable.induct)
  case (new h s h')
  then have s: "bufs s = \<lparr>num_items = 0, buckets = replicate 16 [], callback_depth = 0\<rparr>" "refs s = (\<lambda>_. None)"
    by (auto simp: CRYPTO_BUFFER_POOL_new_def split: prod.splits bool.splits option.splits dest: lh_new_props)
  then show ?case by (simp add: pool_inv_def known_def lh_inv_new lh_set_def items_def)
next
  case (lookup s held pending bytes is_static b s')
  then show ?case using pool_lookup_props [OF lookup.IH, of bytes is_static] by auto
next
  case (set_up s held pending p bytes is_static pool h b s' h')
  then show ?case using buffer_setup_props [OF set_up.hyps(3)] pool_inv_new [OF set_up.IH, of b] by auto
next
  case (alloc s held pending p bytes h b s' h')
  then show ?case using alloc_props [OF alloc.hyps(3)] pool_inv_new [OF alloc.IH, of b] by auto
next
  case (insert s held pending b h ret s' h')
  then show ?case using pool_insert_props [OF insert.IH insert.hyps(2), of h] by auto
next
  case (up_ref s held pending b ret s')
  then show ?case using up_ref_props [OF up_ref.IH up_ref.hyps(2)] by auto
next
  case (free s held pending b h s' h')
  then show ?case using CRYPTO_BUFFER_free_props [OF free.IH free.hyps(2), of h] by auto
qed

lemma crypto_buffer_new_props:
  assumes "pool_reachable s held pending" and "refs s p = None"
  shows "\<exists>ret s' h'. crypto_buffer_new p bytes is_static True s h = Some (ret, s', h') \<and>
    (case ret of
       None \<Rightarrow> False \<in> set h \<and> pool_reachable s' held pending
     | Some b \<Rightarrow> pool_reachable s' (add_mset b held) pending \<and> data b = bytes \<and> (is_static \<longrightarrow> data_is_static b) \<and>
         (b \<in> lh_set (bufs s) \<or> addr b = p) \<and>
         OPENSSL_lh_retrieve CRYPTO_BUFFER_hash CRYPTO_BUFFER_cmp b (bufs s') = Some b)"
proof -
  note I = pool_reachable_inv [OF assms(1)]
  obtain ret s1 where l: "pool_lookup bytes is_static s = Some (ret, s1)" "bufs s1 = bufs s"
    "case ret of None \<Rightarrow> s1 = s | Some b \<Rightarrow> b \<in> lh_set (bufs s) \<and> data b = bytes \<and> (is_static \<longrightarrow> data_is_static b)"
    using pool_lookup_props [OF I, of bytes is_static] by (fastforce split: option.splits)
  show ?thesis
  proof (cases ret)
    case (Some b)
    with l have "OPENSSL_lh_retrieve CRYPTO_BUFFER_hash CRYPTO_BUFFER_cmp b (bufs s1) = Some b"
      using buffer_table.retrieve_iff [OF pool_invD(1) [OF I]] by (simp add: CRYPTO_BUFFER_cmp_eq_0)
    with Some l pool_reachable.lookup [OF assms(1) l(1) [unfolded Some]] show ?thesis
      by (simp add: crypto_buffer_new_def)
  next
    case None
    then have s1: "s1 = s" using l(3) by simp
    obtain rb s2 h2 where b: "buffer_setup p bytes is_static True s h = (rb, s2, h2)"
      by (cases "buffer_setup p bytes is_static True s h")
    show ?thesis
    proof (cases rb)
      case (Some b)
      note b = b [unfolded Some]
      note B = buffer_setup_props [OF b]
      have R: "pool_reachable s2 held (add_mset b pending)"
        using pool_reachable.set_up [OF assms b] by simp
      obtain r s3 h3 where i: "pool_insert b (data_is_static b) s2 h2 = Some (r, s3, h3)"
        "case r of None \<Rightarrow> \<not> fst (heap_alloc h2) | Some r \<Rightarrow> data r = data b \<and>
           (data_is_static b \<longrightarrow> data_is_static r) \<and> (r = b \<or> r \<in> lh_set (bufs s2)) \<and>
           OPENSSL_lh_retrieve CRYPTO_BUFFER_hash CRYPTO_BUFFER_cmp b (bufs s3) = Some r"
        using pool_insert_props [OF pool_reachable_inv [OF R], of b h2] by (fastforce split: option.splits)
      have R3: "pool_reachable s3 (case r of None \<Rightarrow> held | Some r \<Rightarrow> add_mset r held) pending"
        using pool_reachable.insert [OF R _ i(1)] by simp
      have F: "False \<in> set h" if "\<not> fst (heap_alloc h2)"
        using that buffer_setup_outcome [OF b] heap_alloc_no_failure [of h2] by blast
      have new: "crypto_buffer_new p bytes is_static True s h = Some (r, s3, h3)"
        using i(1) B \<open>ret = None\<close> l(1) s1 b by (simp add: crypto_buffer_new_def)
      show ?thesis
      proof (cases r)
        case None
        with new i(2) R3 F show ?thesis by simp
      next
        case (Some c)
        with i(2) have c: "data c = data b" "data_is_static b \<longrightarrow> data_is_static c" "c = b \<or> c \<in> lh_set (bufs s2)"
          "OPENSSL_lh_retrieve CRYPTO_BUFFER_hash CRYPTO_BUFFER_cmp b (bufs s3) = Some c" by simp_all
        have "OPENSSL_lh_retrieve CRYPTO_BUFFER_hash CRYPTO_BUFFER_cmp c (bufs s3) = Some c"
          using retrieve_same_data [OF c(1)] c(4) by simp
        with Some new c B R3 show ?thesis by auto
      qed
    next
      case None
      then have "s2 = s \<and> False \<in> set h"
        using buffer_setup_outcome [OF b] by blast
      with b None \<open>ret = None\<close> l(1) s1 assms(1) show ?thesis by (simp add: crypto_buffer_new_def)
    qed
  qed
qed

section \<open>Properties\<close>

text \<open>C5: whatever the threads do, and however their critical sections interleave, a buffer lives as
  long as anyone refers to it: its count is the number of references that exist, or stuck at the
  maximum; the table holds live buffers only; and no operation on a reference one owns, and no
  lookup, touches memory that has been released or aborts.\<close>

theorem pool_no_use_after_free:
  assumes "pool_reachable s held pending"
  shows "(\<forall>b \<in># held. \<exists>r. refs s (addr b) = Some r \<and> (r = CRYPTO_REFCOUNT_MAX \<or> unat r = count held b)) \<and>
    (\<forall>b \<in> lh_set (bufs s). \<exists>r. refs s (addr b) = Some r \<and> r \<noteq> 0) \<and>
    (\<forall>b \<in># held. CRYPTO_BUFFER_free (Some b) s h \<noteq> None \<and> CRYPTO_BUFFER_up_ref b s \<noteq> None) \<and>
    (\<forall>b \<in># pending. pool_insert b (data_is_static b) s h \<noteq> None) \<and>
    pool_lookup bytes is_static s \<noteq> None"
proof -
  note I = pool_reachable_inv [OF assms]
  have "counted (refs s) held b" if "b \<in># held \<or> b \<in> lh_set (bufs s)" for b
    using pool_invD(2) [OF I, of b] that by (auto simp: known_def)
  then show ?thesis
    using CRYPTO_BUFFER_free_props [OF I] up_ref_props [OF I] pool_insert_props [OF I] pool_lookup_props [OF I]
    by (fastforce simp: counted_def counts_def)
qed



lemma pool_new_nonempty:
  "\<exists>s. CRYPTO_BUFFER_POOL_new (\<lambda>_. None) [] = (Some s, []) \<and> refs s = (\<lambda>_. None) \<and> pool_reachable s {#} {#}"
  using pool_reachable.new [of "[]"] by (auto simp: CRYPTO_BUFFER_POOL_new_def OPENSSL_lh_new_def)


text \<open>A run with one buffer, which is shared once.\<close>

lemma pool_run_shared:
  "\<exists>s b. pool_reachable s {#b, b#} {#} \<and> data b = [1, 2]"
proof -
  obtain s where s: "refs s = (\<lambda>_. None)" "pool_reachable s {#} {#}"
    using pool_new_nonempty by blast
  then obtain b s1 h where b: "crypto_buffer_new 7 [1, 2] False True s [] = Some (Some b, s1, h)"
    "pool_reachable s1 {#b#} {#}" "data b = [1, 2]"
    using crypto_buffer_new_props [OF s(2), of 7 "[1, 2]" False "[]"] by (auto split: option.splits)
  then obtain s2 where "pool_reachable s2 {#b, b#} {#}"
    using up_ref_props [OF pool_reachable_inv [OF b(2)], of b] pool_reachable.up_ref [OF b(2), of b] by fastforce
  with b(3) show ?thesis by blast
qed

theorem pool_no_use_after_free_witness:
  "\<exists>s b r. pool_reachable s {#b, b#} {#} \<and> refs s (addr b) = Some r \<and> (r = CRYPTO_REFCOUNT_MAX \<or> unat r = 2) \<and>
    CRYPTO_BUFFER_free (Some b) s [] \<noteq> None"
proof -
  obtain s b where s: "pool_reachable s {#b, b#} {#}" using pool_run_shared by blast
  show ?thesis
    using pool_no_use_after_free [OF s, of "[]"] s by fastforce
qed


end
