(* ===== verification/Bio_Chain.thy ===== *)
theory Bio_Chain
  imports Bio Pool
begin

text \<open>
  Chains of BIOs and their reference counts: \<open>BIO_push\<close>, \<open>BIO_pop\<close>, \<open>BIO_next\<close>, \<open>BIO_find_type\<close>, \<open>BIO_up_ref\<close> and
  \<open>BIO_free\<close> of \<open>crypto/bio/bio.c\<close>.

  These functions look at BIOs only by their links, counts and method types, so the model is a store of
  just these fields under the addresses of the BIOs, 0 being NULL.  An address without an entry is not
  allocated: a function that reads there has no result, and neither has one that goes round a cycle of
  links for ever.  What a method's \<open>destroy\<close> does is not seen here; it gets the BIO when it is taken
  out of its chain.
\<close>

section \<open>Operations\<close>

record chained =
  references :: u32
  next_bio :: nat
  method_type :: "int option" \<comment> \<open>\<open>method->type\<close>, \<open>None\<close> for no method\<close>

type_synonym bio_store = "nat \<Rightarrow> chained option"

definition BIO_up_ref :: "nat \<Rightarrow> bio_store \<Rightarrow> bio_store option" where
  "BIO_up_ref bio s = do { b \<leftarrow> s bio; Some (s(bio \<mapsto> b\<lparr>references := CRYPTO_refcount_inc (references b)\<rparr>)) }"

partial_function (option) last_loop :: "nat \<Rightarrow> bio_store \<Rightarrow> nat option" where
  "last_loop last_bio s = do { b \<leftarrow> s last_bio; if next_bio b \<noteq> 0 then last_loop (next_bio b) s else Some last_bio }"

definition BIO_push :: "nat \<Rightarrow> nat \<Rightarrow> bio_store \<Rightarrow> (nat \<times> bio_store) option" where
  "BIO_push bio appended_bio s =
     (if bio = 0 then Some (bio, s)
      else do {
        last_bio \<leftarrow> last_loop bio s;
        b \<leftarrow> s last_bio;
        Some (bio, s(last_bio \<mapsto> b\<lparr>next_bio := appended_bio\<rparr>))
      })"

definition BIO_pop :: "nat \<Rightarrow> bio_store \<Rightarrow> (nat \<times> bio_store) option" where
  "BIO_pop bio s =
     (if bio = 0 then Some (0, s)
      else do { b \<leftarrow> s bio; Some (next_bio b, s(bio \<mapsto> b\<lparr>next_bio := 0\<rparr>)) })"

definition BIO_next :: "nat \<Rightarrow> bio_store \<Rightarrow> nat option" where
  "BIO_next bio s = (if bio = 0 then Some 0 else map_option next_bio (s bio))"

definition type_matches :: "int \<Rightarrow> chained \<Rightarrow> bool" where
  "type_matches type b =
     (case method_type b of
        None \<Rightarrow> False
      | Some t \<Rightarrow> if and type 0xff = 0 then and t type \<noteq> 0 else t = type)"

partial_function (option) find_type_loop :: "nat \<Rightarrow> int \<Rightarrow> bio_store \<Rightarrow> nat option" where
  "find_type_loop bio type s = do {
     b \<leftarrow> s bio;
     if type_matches type b then Some bio
     else if next_bio b \<noteq> 0 then find_type_loop (next_bio b) type s
     else Some 0
   }"

definition BIO_find_type :: "nat \<Rightarrow> int \<Rightarrow> bio_store \<Rightarrow> nat option" where
  "BIO_find_type bio type s = (if bio = 0 then Some 0 else find_type_loop bio type s)"

partial_function (option) BIO_free :: "nat \<Rightarrow> bio_store \<Rightarrow> (int \<times> bio_store) option" where
  "BIO_free bio s =
     (if bio = 0 then Some (1, s)
      else do {
        b \<leftarrow> s bio;
        (zero, r) \<leftarrow> CRYPTO_refcount_dec_and_test_zero (references b);
        let s = s(bio \<mapsto> b\<lparr>references := r\<rparr>);
        if \<not> zero then Some (0, s)
        else do { (next, s) \<leftarrow> BIO_pop bio s; BIO_free next (s(bio := None)) }
      })"

section \<open>Chains\<close>

text \<open>The BIOs from \<open>a\<close> on are \<open>xs\<close>, each once.\<close>

fun linked :: "bio_store \<Rightarrow> nat \<Rightarrow> nat list \<Rightarrow> bool" where
  "linked s a [] \<longleftrightarrow> a = 0"
| "linked s a (x # xs) \<longleftrightarrow> a = x \<and> x \<noteq> 0 \<and> (case s x of None \<Rightarrow> False | Some b \<Rightarrow> linked s (next_bio b) xs)"

definition chain :: "bio_store \<Rightarrow> nat \<Rightarrow> nat list \<Rightarrow> bool" where
  "chain s a xs \<longleftrightarrow> linked s a xs \<and> distinct xs"

lemma linked_cong: "(\<And>x. x \<in> set xs \<Longrightarrow> s x = s' x) \<Longrightarrow> linked s a xs = linked s' a xs"
  by (induction xs arbitrary: a) (auto split: option.splits)

lemma linked_upd [simp]: "x \<notin> set xs \<Longrightarrow> linked (s(x := v)) a xs = linked s a xs"
  by (rule linked_cong) auto

lemma linked_not_null: "linked s a xs \<Longrightarrow> 0 \<notin> set xs"
  by (induction xs arbitrary: a) (auto split: option.splits)

lemma last_loop_chain: "linked s a xs \<Longrightarrow> xs \<noteq> [] \<Longrightarrow> last_loop a s = Some (last xs) \<and> (\<exists>b. s (last xs) = Some b \<and> next_bio b = 0)"
proof (induction xs arbitrary: a)
  case (Cons x xs)
  then obtain b where b: "a = x" "s x = Some b" "linked s (next_bio b) xs" by (auto split: option.splits)
  show ?case
  proof (cases xs)
    case Nil
    then show ?thesis using b by (simp add: last_loop.simps [of x])
  next
    case (Cons y ys)
    then have "next_bio b \<noteq> 0" "xs \<noteq> []" using b(3) by auto
    then show ?thesis using Cons.IH [OF b(3)] b(1,2) by (simp add: last_loop.simps [of x])
  qed
qed simp

lemma linked_push:
  "linked s d xs \<Longrightarrow> xs \<noteq> [] \<Longrightarrow> distinct xs \<Longrightarrow> s (last xs) = Some b \<Longrightarrow> linked (s(last xs \<mapsto> b\<lparr>next_bio := c\<rparr>)) c ys \<Longrightarrow>
    linked (s(last xs \<mapsto> b\<lparr>next_bio := c\<rparr>)) d (xs @ ys)"
proof (induction xs arbitrary: d)
  case (Cons x xs)
  show ?case
  proof (cases "xs = []")
    case True
    with Cons.prems show ?thesis by simp
  next
    case False
    then have "x \<noteq> last xs" using Cons.prems(3) by auto
    with False Cons show ?thesis by (auto split: option.splits)
  qed
qed simp

text \<open>Pushing appends one chain to the other.\<close>

lemma BIO_push_chain:
  assumes "chain s a xs" and "xs \<noteq> []" and "chain s c ys" and "set xs \<inter> set ys = {}"
  shows "\<exists>s'. BIO_push a c s = Some (a, s') \<and> chain s' a (xs @ ys) \<and> (\<forall>x. x \<noteq> last xs \<longrightarrow> s' x = s x)"
proof -
  have x: "linked s a xs" "distinct xs" and y: "linked s c ys" "distinct ys" using assms(1,3) by (simp_all add: chain_def)
  obtain b where l: "last_loop a s = Some (last xs)" "s (last xs) = Some b"
    using last_loop_chain [OF x(1) assms(2)] by blast
  let ?s = "s(last xs \<mapsto> b\<lparr>next_bio := c\<rparr>)"
  have "last xs \<notin> set ys" using assms(2,4) last_in_set by blast
  then have "linked ?s c ys" using y(1) by simp
  from linked_push [OF x(1) assms(2) x(2) l(2) this] have "linked ?s a (xs @ ys)" .
  moreover have "a \<noteq> 0" using x(1) assms(2) by (cases xs) auto
  ultimately show ?thesis
    using l x(2) y(2) assms(4) by (auto simp: BIO_push_def chain_def)
qed

text \<open>Popping takes the first one out.\<close>

lemma BIO_pop_chain:
  assumes "chain s a (x # xs)"
  shows "\<exists>n s'. BIO_pop a s = Some (n, s') \<and> chain s' n xs \<and> chain s' a [x] \<and> (\<forall>y. y \<noteq> x \<longrightarrow> s' y = s y)"
proof -
  obtain b where b: "a = x" "x \<noteq> 0" "s x = Some b" "linked s (next_bio b) xs" "x \<notin> set xs" "distinct xs"
    using assms by (auto simp: chain_def split: option.splits)
  then show ?thesis by (auto simp: BIO_pop_def chain_def)
qed

text \<open>The first BIO of a type is found.\<close>

lemma BIO_find_type_chain:
  assumes "linked s a xs"
  shows "BIO_find_type a type s = Some (case find (\<lambda>x. type_matches type (the (s x))) xs of None \<Rightarrow> 0 | Some x \<Rightarrow> x)"
proof -
  have L: "find_type_loop a type s = Some (case find (\<lambda>x. type_matches type (the (s x))) xs of None \<Rightarrow> 0 | Some x \<Rightarrow> x)"
    if "linked s a xs" "xs \<noteq> []" for a xs
    using that
  proof (induction xs arbitrary: a)
    case (Cons x xs)
    then obtain b where b: "a = x" "s x = Some b" "linked s (next_bio b) xs" by (auto split: option.splits)
    have "next_bio b = 0 \<longleftrightarrow> xs = []" using b(3) by (cases xs) auto
    then show ?case using Cons.IH [OF b(3)] b(1,2) by (auto simp: find_type_loop.simps [of x])
  qed simp
  show ?thesis
  proof (cases "xs = []")
    case True
    with assms show ?thesis by (simp add: BIO_find_type_def)
  next
    case False
    then have "a \<noteq> 0" using assms by (cases xs) auto
    with L [OF assms False] show ?thesis by (simp add: BIO_find_type_def)
  qed
qed

text \<open>
  Freeing a chain releases the BIOs that nobody else refers to, up to the first that is shared: its
  count goes down by one, and it stays with all behind it.
\<close>

lemma BIO_free_chain:
  assumes "chain s a (ps @ rest)" and "\<And>p. p \<in> set ps \<Longrightarrow> references (the (s p)) = 1"
    and "rest \<noteq> [] \<Longrightarrow> references (the (s (hd rest))) > 1"
  shows "\<exists>s'. BIO_free a s = Some (if rest = [] then 1 else 0, s') \<and>
    (\<forall>x. s' x = (if x \<in> set ps then None
       else if rest \<noteq> [] \<and> x = hd rest
       then map_option (\<lambda>b. b\<lparr>references := (if references b = CRYPTO_REFCOUNT_MAX then references b else references b - 1)\<rparr>) (s x)
       else s x))"
  using assms
proof (induction ps arbitrary: a s)
  case Nil
  show ?case
  proof (cases rest)
    case Nil
    then show ?thesis using Nil.prems(1) by (simp add: chain_def BIO_free.simps)
  next
    case (Cons x xs)
    then obtain b where b: "a = x" "x \<noteq> 0" "s x = Some b"
      using Nil.prems(1) by (auto simp: chain_def split: option.splits)
    have r: "references b > 1" using Nil.prems(3) Cons b by simp
    then have "references b \<noteq> 0" "references b - 1 \<noteq> 0" by auto
    then have "BIO_free a s = Some (0, s(x \<mapsto> b\<lparr>references := (if references b = CRYPTO_REFCOUNT_MAX then references b else references b - 1)\<rparr>))"
      using b by (simp add: BIO_free.simps [of x] CRYPTO_refcount_dec_and_test_zero_def Let_def)
    then show ?thesis using Cons b by auto
  qed
next
  case (Cons p ps)
  obtain b where b: "a = p" "p \<noteq> 0" "s p = Some b" "linked s (next_bio b) (ps @ rest)" "p \<notin> set (ps @ rest)" "distinct (ps @ rest)"
    using Cons.prems(1) by (auto simp: chain_def split: option.splits)
  have one: "references b = 1" using Cons.prems(2) [of p] b(3) by simp
  have m: "CRYPTO_REFCOUNT_MAX \<noteq> 1" by (simp add: CRYPTO_REFCOUNT_MAX_def)
  let ?s = "s(p := None)"
  have run: "BIO_free a s = BIO_free (next_bio b) ?s"
    using b(1-3) one m by (simp add: BIO_free.simps [of p] CRYPTO_refcount_dec_and_test_zero_def Let_def BIO_pop_def)
  have "linked ?s (next_bio b) (ps @ rest)" using b(4,5) by simp
  then have c: "chain ?s (next_bio b) (ps @ rest)" using b(6) by (simp add: chain_def)
  have h: "rest \<noteq> [] \<Longrightarrow> hd rest \<noteq> p" using b(5) by (cases rest) auto
  have i1: "references (the (?s q)) = 1" if "q \<in> set ps" for q using Cons.prems(2) [of q] that b(5) by auto
  have i2: "references (the (?s (hd rest))) > 1" if "rest \<noteq> []" using Cons.prems(3) [OF that] h [OF that] by simp
  from Cons.IH [OF c i1 i2] obtain s' where s': "BIO_free (next_bio b) ?s = Some (if rest = [] then 1 else 0, s')"
    "\<forall>x. s' x = (if x \<in> set ps then None
       else if rest \<noteq> [] \<and> x = hd rest
       then map_option (\<lambda>b. b\<lparr>references := (if references b = CRYPTO_REFCOUNT_MAX then references b else references b - 1)\<rparr>) (?s x)
       else ?s x)"
    by blast
  have "\<forall>x. s' x = (if x \<in> set (p # ps) then None
       else if rest \<noteq> [] \<and> x = hd rest
       then map_option (\<lambda>b. b\<lparr>references := (if references b = CRYPTO_REFCOUNT_MAX then references b else references b - 1)\<rparr>) (s x)
       else s x)"
    using s'(2) h by auto
  with s'(1) run show ?case by auto
qed


text \<open>A BIO of its own in front of one that is referred to twice.\<close>

definition two_bios :: bio_store where
  "two_bios = (\<lambda>_. None)(8 \<mapsto> \<lparr>references = 1, next_bio = 16, method_type = None\<rparr>,
     16 \<mapsto> \<lparr>references = 2, next_bio = 0, method_type = None\<rparr>)"


end
