(* ===== verification/Buf.thy ===== *)
theory Buf
  imports Mem
begin

text \<open>
  The growable buffer of \<open>crypto/buf/buf.c\<close>.

  Of the block at \<open>data\<close> the record holds the bytes \<open>data[0 .. length)\<close>: the ones behind them are
  cleared before a growing buffer shows them.  A NULL \<open>data\<close> is an empty one.  A memory BIO over
  constant bytes moves \<open>data\<close> through the caller's block; \<open>passed\<close> are the bytes of the block before
  the pointer.
\<close>

record buf_mem =
  data :: "byte list"
  passed :: "byte list"
  max_size :: nat

definition BUF_MEM_new :: "heap \<Rightarrow> buf_mem option \<times> heap" where
  "BUF_MEM_new h =
     (let (ok, h) = heap_alloc h
      in (if ok then Some \<lparr>data = [], passed = [], max_size = 0\<rparr> else None, h))"

definition BUF_MEM_reserve :: "buf_mem \<Rightarrow> nat \<Rightarrow> heap \<Rightarrow> bool \<times> buf_mem \<times> heap" where
  "BUF_MEM_reserve buf cap h =
     (if max_size buf \<ge> cap then (True, buf, h)
      else let n = size_add cap 3
           in if n < cap then (False, buf, h)
              else let n = n div 3; alloc_size = size_mul n 4
                   in if alloc_size div 4 \<noteq> n then (False, buf, h)
                      else case heap_alloc h of
                             (False, h) \<Rightarrow> (False, buf, h)
                           | (True, h) \<Rightarrow> (True, buf\<lparr>max_size := alloc_size\<rparr>, h))"

definition BUF_MEM_grow :: "buf_mem \<Rightarrow> nat \<Rightarrow> heap \<Rightarrow> nat \<times> buf_mem \<times> heap" where
  "BUF_MEM_grow buf len h =
     (case BUF_MEM_reserve buf len h of
        (False, buf, h) \<Rightarrow> (0, buf, h)
      | (True, buf, h) \<Rightarrow>
          (len,
           buf\<lparr>data := (if length (data buf) < len then data buf @ replicate (len - length (data buf)) 0
                        else take len (data buf))\<rparr>, h))"

definition BUF_MEM_grow_clean :: "buf_mem \<Rightarrow> nat \<Rightarrow> heap \<Rightarrow> nat \<times> buf_mem \<times> heap" where
  "BUF_MEM_grow_clean buf len h = BUF_MEM_grow buf len h"

definition BUF_MEM_append :: "buf_mem \<Rightarrow> byte list \<Rightarrow> heap \<Rightarrow> bool \<times> buf_mem \<times> heap" where
  "BUF_MEM_append buf bs h =
     (if length bs = 0 then (True, buf, h)
      else let new_len = size_add (length (data buf)) (length bs)
           in if new_len < length bs then (False, buf, h)
              else case BUF_MEM_reserve buf new_len h of
                     (False, buf, h) \<Rightarrow> (False, buf, h)
                   | (True, buf, h) \<Rightarrow> (True, buf\<lparr>data := data buf @ bs\<rparr>, h))"

definition BUF_strdup :: "byte list option \<Rightarrow> heap \<Rightarrow> byte list option \<times> heap" where
  "BUF_strdup str h = OPENSSL_strdup str h"

definition BUF_strnlen :: "byte list \<Rightarrow> nat \<Rightarrow> nat" where
  "BUF_strnlen str max_len = OPENSSL_strnlen str max_len"

definition BUF_strndup :: "byte list \<Rightarrow> nat \<Rightarrow> heap \<Rightarrow> byte list option \<times> heap" where
  "BUF_strndup str sz h = OPENSSL_strndup str sz h"

definition BUF_strlcpy :: "byte list \<Rightarrow> byte list \<Rightarrow> nat \<Rightarrow> byte list \<times> nat" where
  "BUF_strlcpy dst src dst_size = OPENSSL_strlcpy dst src dst_size"

definition BUF_strlcat :: "byte list \<Rightarrow> byte list \<Rightarrow> nat \<Rightarrow> byte list \<times> nat" where
  "BUF_strlcat dst src dst_size = OPENSSL_strlcat dst src dst_size"

definition BUF_memdup :: "byte list \<Rightarrow> heap \<Rightarrow> byte list option \<times> heap" where
  "BUF_memdup bs h = OPENSSL_memdup bs h"

section \<open>Correctness\<close>

text \<open>The bytes lie inside the block, whose size a \<open>size_t\<close> holds.\<close>

definition buf_inv :: "buf_mem \<Rightarrow> bool" where
  "buf_inv b \<longleftrightarrow> length (passed b) + length (data b) \<le> max_size b \<and> max_size b < 2 ^ 64"

lemma BUF_MEM_reserve_frame:
  "BUF_MEM_reserve b cap h = (ok, b', h') \<Longrightarrow> data b' = data b \<and> passed b' = passed b"
  by (auto simp: BUF_MEM_reserve_def Let_def split: if_splits prod.splits bool.splits)

lemma BUF_MEM_reserve_max:
  assumes "BUF_MEM_reserve b cap h = (ok, b', h')" and "cap < 2 ^ 64"
  shows "max_size b \<le> max_size b' \<and> (ok \<longrightarrow> cap \<le> max_size b') \<and> (max_size b < 2 ^ 64 \<longrightarrow> max_size b' < 2 ^ 64)"
proof (cases "cap \<le> max_size b")
  case True
  with assms(1) show ?thesis by (simp add: BUF_MEM_reserve_def)
next
  case False
  define n where "n = size_add cap 3 div 3"
  show ?thesis
  proof (cases "\<not> size_add cap 3 < cap \<and> size_mul n 4 div 4 = n")
    case True
    have "cap + 3 < 2 ^ 64"
      using True size_add_overflow_iff [of cap 3] assms(2) by simp
    then have n: "n = (cap + 3) div 3" by (simp add: n_def)
    have "size_mul n 4 \<le> n * 4" by (simp add: size_mul_def)
    moreover have "n * 4 \<le> size_mul n 4" using True by linarith
    ultimately have s: "size_mul n 4 = n * 4" by simp
    moreover have "size_mul n 4 < 2 ^ 64" by (simp add: size_mul_def)
    ultimately have "n * 4 < 2 ^ 64" by simp
    have "cap \<le> n * 4" unfolding n by linarith
    moreover have "size_mul k 4 < 18446744073709551616" for k by (simp add: size_mul_def)
    ultimately show ?thesis
      using \<open>n * 4 < 2 ^ 64\<close> s False assms(1) True
      by (auto simp: BUF_MEM_reserve_def Let_def simp flip: n_def split: if_splits prod.splits bool.splits)
  next
    case F: False
    with False assms(1) show ?thesis
      by (auto simp: BUF_MEM_reserve_def Let_def simp flip: n_def split: if_splits)
  qed
qed

lemma BUF_MEM_grow_props:
  assumes "BUF_MEM_grow b len h = (ret, b', h')" and "buf_inv b" and "len < 2 ^ 64" and "passed b = []"
  shows "buf_inv b' \<and> passed b' = [] \<and> (ret = len \<and> 0 < len \<longrightarrow> length (data b') = len) \<and>
    (ret \<noteq> len \<longrightarrow> data b' = data b) \<and> (ret = len \<and> length (data b) \<le> len \<and> 0 < len \<longrightarrow>
      data b' = data b @ replicate (len - length (data b)) 0)"
proof -
  obtain ok b1 h1 where R: "BUF_MEM_reserve b len h = (ok, b1, h1)" by (cases "BUF_MEM_reserve b len h")
  show ?thesis
    using assms BUF_MEM_reserve_frame [OF R] BUF_MEM_reserve_max [OF R assms(3)]
    by (cases ok) (auto simp: BUF_MEM_grow_def R buf_inv_def)
qed

lemma BUF_MEM_append_props:
  assumes "BUF_MEM_append b bs h = (ok, b', h')" and "buf_inv b" and "length bs < 2 ^ 64" and "passed b = []"
  shows "buf_inv b' \<and> passed b' = [] \<and> data b' = (if ok then data b @ bs else data b)"
proof (cases "length bs = 0")
  case True
  with assms show ?thesis by (auto simp: BUF_MEM_append_def)
next
  case False
  show ?thesis
  proof (cases "size_add (length (data b)) (length bs) < length bs")
    case True
    with False assms show ?thesis by (auto simp: BUF_MEM_append_def Let_def)
  next
    case F: False
    have l: "length (data b) < 2 ^ 64" using assms(2) by (simp add: buf_inv_def)
    have "length bs + length (data b) < 2 ^ 64"
      using F size_add_overflow_iff [OF assms(3) l] by (simp add: size_add_def add.commute)
    then have s: "size_add (length (data b)) (length bs) = length (data b) + length bs" by simp
    obtain ok1 b1 h1 where R: "BUF_MEM_reserve b (length (data b) + length bs) h = (ok1, b1, h1)"
      by (cases "BUF_MEM_reserve b (length (data b) + length bs) h")
    have "length (data b) + length bs < 2 ^ 64" using \<open>length bs + _ < _\<close> by simp
    note M = BUF_MEM_reserve_max [OF R this]
    show ?thesis
      using assms(1,2,4) False BUF_MEM_reserve_frame [OF R] M s R
      by (cases ok1) (auto simp: BUF_MEM_append_def Let_def buf_inv_def)
  qed
qed

end
