(* ===== verification/Bio_Mem.thy ===== *)
theory Bio_Mem
  imports Bio Buf
begin

text \<open>
  The memory BIO of \<open>crypto/bio/bio_mem.c\<close>: a byte queue in a \<open>BUF_MEM\<close>, or a reader over constant
  bytes.  Its environment is the allocator.  The pointers a control command hands out
  (\<open>BIO_CTRL_INFO\<close>, \<open>BIO_C_GET_BUF_MEM_PTR\<close>) alias the buffer of the record.
\<close>

section \<open>State\<close>

record mem_bio = bio +
  ptr :: "buf_mem option"

abbreviation mem_buf :: "mem_bio \<Rightarrow> buf_mem" where
  "mem_buf bio \<equiv> the (ptr bio)"

abbreviation rdonly :: "mem_bio \<Rightarrow> bool" where
  "rdonly bio \<equiv> flags bio AND BIO_FLAGS_MEM_RDONLY \<noteq> 0"

text \<open>The conversion of a \<open>size_t\<close> to an \<open>int\<close>.\<close>

definition int_of_size :: "nat \<Rightarrow> int" where
  "int_of_size n = sint (of_nat n :: u32)"

section \<open>Operations\<close>

definition mem_new :: "mem_bio \<Rightarrow> heap \<Rightarrow> bool \<times> mem_bio \<times> heap" where
  "mem_new bio h =
     (case BUF_MEM_new h of
        (None, h) \<Rightarrow> (False, bio, h)
      | (Some b, h) \<Rightarrow> (True, bio\<lparr>shutdown := 1, init := True, num := - 1, ptr := Some b\<rparr>, h))"

definition mem_free :: "mem_bio \<Rightarrow> int \<times> mem_bio" where
  "mem_free bio =
     (if shutdown bio = 0 \<or> \<not> init bio \<or> ptr bio = None then (1, bio) else (1, bio\<lparr>ptr := None\<rparr>))"

definition BIO_new_mem :: "heap \<Rightarrow> mem_bio option \<times> heap" where
  "BIO_new_mem h = BIO_new (Some mem_new) \<lparr>ptr = None\<rparr> h"

definition BIO_new_mem_buf :: "byte list option \<Rightarrow> int \<Rightarrow> heap \<Rightarrow> mem_bio option \<times> heap" where
  "BIO_new_mem_buf buf len h =
     (let bs = (case buf of None \<Rightarrow> [] | Some bs \<Rightarrow> bs);
          n = (if len < 0 then length (takeWhile (\<lambda>c. c \<noteq> 0) bs) else nat len)
      in if buf = None \<and> len \<noteq> 0 then (None, h)
         else case BIO_new_mem h of
                (None, h) \<Rightarrow> (None, h)
              | (Some ret, h) \<Rightarrow>
                  (Some (ret\<lparr>ptr := Some \<lparr>data = take n bs, passed = [], max_size = n\<rparr>,
                             flags := flags ret OR BIO_FLAGS_MEM_RDONLY, num := 0\<rparr>), h))"

definition mem_read :: "int \<Rightarrow> mem_bio \<Rightarrow> heap \<Rightarrow> int \<times> byte list \<times> mem_bio \<times> heap" where
  "mem_read outl bio h =
     (let b = mem_buf bio;
          bio = BIO_clear_retry_flags bio;
          ret = (if length (data b) < INT_MAX \<and> outl > int_of_size (length (data b))
                 then int_of_size (length (data b)) else outl)
      in if ret > 0
         then let out = take (nat ret) (data b);
                  b' = b\<lparr>data := drop (nat ret) (data b),
                         passed := (if rdonly bio then passed b @ out else passed b)\<rparr>
              in (ret, out, bio\<lparr>ptr := Some b'\<rparr>, h)
         else if length (data b) = 0
         then (num bio, [], (if num bio \<noteq> 0 then BIO_set_retry_read bio else bio), h)
         else (ret, [], bio, h))"

definition mem_write :: "byte list \<Rightarrow> mem_bio \<Rightarrow> heap \<Rightarrow> int \<times> mem_bio \<times> heap" where
  "mem_write bs bio h =
     (let b = mem_buf bio
      in if rdonly bio then (- 1, bio, h)
         else let bio = BIO_clear_retry_flags bio; blen = int_of_size (length (data b)); inl = int (length bs)
              in if int INT_MAX - blen < inl then (- 1, bio, h)
                 else case BUF_MEM_grow_clean b (nat (blen + inl)) h of
                        (n, b, h) \<Rightarrow>
                          if n \<noteq> nat (blen + inl) then (- 1, bio\<lparr>ptr := Some b\<rparr>, h)
                          else (inl,
                                bio\<lparr>ptr := Some (b\<lparr>data := take (nat blen) (data b) @ bs @
                                  drop (nat blen + length bs) (data b)\<rparr>)\<rparr>, h))"

text \<open>The loop that looks for the end of the line among \<open>j\<close> bytes.\<close>

fun line_len :: "nat \<Rightarrow> byte list \<Rightarrow> nat" where
  "line_len (Suc j) (c # p) = (if c = 10 then 1 else Suc (line_len j p))"
| "line_len _ _ = 0"

lemma line_len_code [code]:
  "line_len j p = (if j = 0 then 0 else case p of [] \<Rightarrow> 0 | c # p \<Rightarrow> if c = 10 then 1 else Suc (line_len (j - 1) p))"
  by (cases j; cases p) simp_all

definition mem_gets :: "int \<Rightarrow> mem_bio \<Rightarrow> heap \<Rightarrow> int \<times> byte list \<times> mem_bio \<times> heap" where
  "mem_gets sz bio h =
     (let b = mem_buf bio;
          bio = BIO_clear_retry_flags bio;
          j = int_of_size (length (data b));
          j = (if sz - 1 < j then sz - 1 else j)
      in if j \<le> 0 then (0, (if sz > 0 then [0] else []), bio, h)
         else let i = line_len (nat j) (data b);
                  (r, out, bio, h) = mem_read (int i) bio h
              in (r, (if r > 0 then out @ [0] else out), bio, h))"

definition mem_ctrl :: "int \<Rightarrow> int \<Rightarrow> buf_mem option \<Rightarrow> mem_bio \<Rightarrow> heap \<Rightarrow> int \<times> mem_bio \<times> heap" where
  "mem_ctrl cmd larg p bio h =
     (let b = mem_buf bio
      in if cmd = BIO_CTRL_RESET
         then (1,
               (if rdonly bio
                then let back = max_size b - length (data b); start = length (passed b) - back
                     in bio\<lparr>ptr := Some (b\<lparr>data := drop start (passed b) @ data b, passed := take start (passed b)\<rparr>)\<rparr>
                else bio\<lparr>ptr := Some (b\<lparr>data := []\<rparr>)\<rparr>), h)
         else if cmd = BIO_CTRL_EOF then (if length (data b) = 0 then 1 else 0, bio, h)
         else if cmd = BIO_C_SET_BUF_MEM_EOF_RETURN then (1, bio\<lparr>num := sint (word_of_int larg :: u32)\<rparr>, h)
         else if cmd = BIO_CTRL_INFO then (int (length (data b)), bio, h)
         else if cmd = BIO_C_SET_BUF_MEM
         then (1, (snd (mem_free bio))\<lparr>shutdown := sint (word_of_int larg :: u32), ptr := p\<rparr>, h)
         else if cmd = BIO_C_GET_BUF_MEM_PTR then (1, bio, h)
         else if cmd = BIO_CTRL_GET_CLOSE then (shutdown bio, bio, h)
         else if cmd = BIO_CTRL_SET_CLOSE then (1, bio\<lparr>shutdown := sint (word_of_int larg :: u32)\<rparr>, h)
         else if cmd = BIO_CTRL_WPENDING then (0, bio, h)
         else if cmd = BIO_CTRL_PENDING then (int (length (data b)), bio, h)
         else if cmd = BIO_CTRL_FLUSH then (1, bio, h)
         else (0, bio, h))"

definition mem_method :: "(mem_bio, heap, buf_mem) bio_method" where
  "mem_method = \<lparr>bwrite = Some mem_write, bread = Some mem_read, bgets = Some mem_gets, ctrl = Some mem_ctrl\<rparr>"

definition BIO_mem_contents :: "mem_bio \<Rightarrow> byte list" where
  "BIO_mem_contents bio = data (mem_buf bio)"

definition BIO_set_mem_buf :: "mem_bio \<Rightarrow> buf_mem option \<Rightarrow> int \<Rightarrow> heap \<Rightarrow> int \<times> mem_bio \<times> heap" where
  "BIO_set_mem_buf bio b take_ownership h = BIO_ctrl mem_method BIO_C_SET_BUF_MEM take_ownership b bio h"

definition BIO_set_mem_eof_return :: "mem_bio \<Rightarrow> int \<Rightarrow> heap \<Rightarrow> int \<times> mem_bio \<times> heap" where
  "BIO_set_mem_eof_return bio eof_value h = BIO_ctrl mem_method BIO_C_SET_BUF_MEM_EOF_RETURN eof_value None bio h"

lemma BUF_MEM_grow_fails:
  assumes "BUF_MEM_grow b len h = (k, b', h')" and "k \<noteq> len" and "len \<le> INT_MAX"
  shows "False \<in> set h"
proof -
  define n where "n = (len + 3) div 3"
  have "size_add len 3 = len + 3" "\<not> len + 3 < len" "size_mul n 4 = n * 4"
    using assms(3) by (auto simp: size_mul_def n_def INT_MAX_def intro!: mod_less)
  then have "fst (heap_alloc h) = False"
    using assms(1,2)
    by (auto simp: BUF_MEM_grow_def BUF_MEM_reserve_def Let_def simp flip: n_def split: if_splits prod.splits bool.splits)
  then show ?thesis using heap_alloc_no_failure by blast
qed

section \<open>What each call does\<close>

definition mem_inv :: "mem_bio \<Rightarrow> bool" where
  "mem_inv bio \<longleftrightarrow> init bio \<and>
     (\<exists>b. ptr bio = Some b \<and> buf_inv b \<and> length (passed b) + length (data b) \<le> INT_MAX \<and>
       (\<not> rdonly bio \<longrightarrow> passed b = []))"

lemma int_of_size_exact: "n \<le> INT_MAX \<Longrightarrow> int_of_size n = int n"
  unfolding int_of_size_def INT_MAX_def by (simp add: signed_of_nat signed_take_bit_int_eq_self)

lemma clear_retry_fields [simp]:
  "ptr (BIO_clear_retry_flags bio) = ptr bio" "init (BIO_clear_retry_flags bio) = init bio"
  "num (BIO_clear_retry_flags bio) = num bio" "num_read (BIO_clear_retry_flags bio) = num_read bio"
  "num_write (BIO_clear_retry_flags bio) = num_write bio"
  by (simp_all add: BIO_clear_retry_flags_def)

lemma set_retry_fields [simp]:
  "ptr (BIO_set_retry_read bio) = ptr bio" "init (BIO_set_retry_read bio) = init bio"
  by (simp_all add: BIO_set_retry_read_def)

lemma retry_ptr_update [simp]:
  "BIO_should_retry (bio\<lparr>ptr := p\<rparr>) = BIO_should_retry bio"
  "BIO_should_retry (bio'\<lparr>num_read := n\<rparr>) = BIO_should_retry bio'"
  "BIO_should_retry (bio'\<lparr>num_write := n\<rparr>) = BIO_should_retry bio'"
  by (simp_all add: BIO_should_retry_def BIO_test_flags_def)

text \<open>A read takes what is there, up to the length asked for.\<close>

lemma mem_read_eq:
  assumes "mem_inv bio" and "0 < n" and "n \<le> int INT_MAX"
  shows "\<exists>bio'. mem_read n bio h =
      (if data (mem_buf bio) = [] then num bio else int (min (nat n) (length (data (mem_buf bio)))),
       take (nat n) (data (mem_buf bio)), bio', h) \<and>
    mem_inv bio' \<and> data (mem_buf bio') = drop (nat n) (data (mem_buf bio)) \<and> num bio' = num bio \<and> rdonly bio' = rdonly bio \<and>
    max_size (mem_buf bio') = max_size (mem_buf bio) \<and>
    (rdonly bio \<longrightarrow> passed (mem_buf bio') @ data (mem_buf bio') = passed (mem_buf bio) @ data (mem_buf bio)) \<and>
    (BIO_should_retry bio' \<noteq> 0 \<longleftrightarrow> data (mem_buf bio) = [] \<and> num bio \<noteq> 0)"
proof -
  obtain b where b: "ptr bio = Some b" "buf_inv b" "length (passed b) + length (data b) \<le> INT_MAX" "init bio"
    "\<not> rdonly bio \<longrightarrow> passed b = []"
    using assms(1) by (auto simp: mem_inv_def)
  define m where "m = min (nat n) (length (data b))"
  have e: "(if length (data b) < INT_MAX \<and> n > int_of_size (length (data b)) then int_of_size (length (data b)) else n) = int m"
    using assms(2,3) b(3) by (auto simp: int_of_size_exact m_def min_def)
  have t: "take m (data b) = take (nat n) (data b)" "drop m (data b) = drop (nat n) (data b)"
    by (auto simp: m_def min_def)
  have n: "num (BIO_set_retry_read x) = num x" for x :: mem_bio by (simp add: BIO_set_retry_read_def)
  show ?thesis
  proof (cases "data b = []")
    case True
    then have "m = 0" by (simp add: m_def)
    then have "mem_read n bio h = (num bio, [],
        if num bio \<noteq> 0 then BIO_set_retry_read (BIO_clear_retry_flags bio) else BIO_clear_retry_flags bio, h)"
      unfolding mem_read_def Let_def b(1) option.sel e using True by simp
    then show ?thesis using True b n by (auto simp: mem_inv_def)
  next
    case False
    then have "0 < m" using assms(2) by (simp add: m_def)
    define b' where "b' = b\<lparr>data := drop (nat n) (data b), passed := (if rdonly bio then passed b @ take (nat n) (data b) else passed b)\<rparr>"
    have "mem_read n bio h = (int m, take (nat n) (data b), (BIO_clear_retry_flags bio)\<lparr>ptr := Some b'\<rparr>, h)"
      unfolding mem_read_def Let_def b(1) option.sel e using \<open>0 < m\<close> by (simp add: t b'_def)
    moreover have "buf_inv b'" "length (passed b') + length (data b') \<le> INT_MAX" "\<not> rdonly bio \<longrightarrow> passed b' = []"
      using b(2,3,5) by (auto simp: b'_def buf_inv_def min_def)
    moreover have "rdonly bio \<longrightarrow> passed b' @ data b' = passed b @ data b" by (simp add: b'_def)
    ultimately show ?thesis
      using False b(1,4) by (auto simp: mem_inv_def m_def b'_def)
  qed
qed

text \<open>A write takes everything or, with no room or no memory, nothing.\<close>

lemma mem_write_eq:
  assumes "mem_inv bio" and "bs \<noteq> []"
  shows "\<exists>ret bio' h'. mem_write bs bio h = (ret, bio', h') \<and> mem_inv bio' \<and> num bio' = num bio \<and> rdonly bio' = rdonly bio \<and>
    (ret = int (length bs) \<and> \<not> rdonly bio \<and> data (mem_buf bio') = data (mem_buf bio) @ bs \<and> BIO_should_retry bio' = 0 \<or>
     ret = - 1 \<and> data (mem_buf bio') = data (mem_buf bio) \<and> passed (mem_buf bio') = passed (mem_buf bio)) \<and>
    (ret = - 1 \<longrightarrow> rdonly bio \<or> INT_MAX < length (data (mem_buf bio)) + length bs \<or> False \<in> set h)"
proof (cases "rdonly bio")
  case True
  with assms show ?thesis by (auto simp: mem_write_def Let_def)
next
  case w: False
  obtain b where b: "ptr bio = Some b" "buf_inv b" "length (data b) \<le> INT_MAX" "init bio" "passed b = []"
    using assms(1) w by (auto simp: mem_inv_def)
  have l: "int_of_size (length (data b)) = int (length (data b))" using b(3) by (simp add: int_of_size_exact)
  show ?thesis
  proof (cases "INT_MAX < length (data b) + length bs")
    case True
    then have "mem_write bs bio h = (- 1, BIO_clear_retry_flags bio, h)"
      using w unfolding mem_write_def Let_def b(1) option.sel l by simp
    then show ?thesis using True b assms w by (auto simp: mem_inv_def)
  next
    case room: False
    define len where "len = length (data b) + length bs"
    have n: "nat (int (length (data b)) + int (length bs)) = len" by (simp add: len_def)
    have len: "len < 2 ^ 64" "0 < len" "length (data b) \<le> len" "len \<le> INT_MAX"
      using room assms(2) by (auto simp: len_def INT_MAX_def)
    obtain k b' h' where g: "BUF_MEM_grow b len h = (k, b', h')" by (cases "BUF_MEM_grow b len h")
    note G = BUF_MEM_grow_props [OF g b(2) len(1) b(5)]
    show ?thesis
    proof (cases "k = len")
      case False
      have "mem_write bs bio h = (- 1, (BIO_clear_retry_flags bio)\<lparr>ptr := Some b'\<rparr>, h')"
        using w room False unfolding mem_write_def Let_def b(1) option.sel l n BUF_MEM_grow_clean_def g by (simp add: len_def)
      moreover have "False \<in> set h"
        using g False len by (auto dest: BUF_MEM_grow_fails)
      ultimately show ?thesis
        using False b G w by (auto simp: mem_inv_def)
    next
      case True
      have "data b' = data b @ replicate (length bs) 0" using G True len by (simp add: len_def)
      then have "mem_write bs bio h = (int (length bs), (BIO_clear_retry_flags bio)\<lparr>ptr := Some (b'\<lparr>data := data b @ bs\<rparr>)\<rparr>, h')"
        using w room True unfolding mem_write_def Let_def b(1) option.sel l n BUF_MEM_grow_clean_def g by (simp add: len_def)
      moreover have "buf_inv (b'\<lparr>data := data b @ bs\<rparr>)"
        using G True len by (auto simp: buf_inv_def len_def)
      ultimately show ?thesis
        using b G w len by (auto simp: mem_inv_def len_def)
    qed
  qed
qed


text \<open>A line ends behind the first line feed, or where the buffer of the caller or the data end.\<close>

lemma line_len_le: "line_len j p \<le> min j (length p)"
  by (induction j p rule: line_len.induct) auto

lemma line_len_pos: "0 < j \<Longrightarrow> p \<noteq> [] \<Longrightarrow> 0 < line_len j p"
  by (cases j; cases p) auto

lemma line_len_inner: "10 \<notin> set (butlast (take (line_len j p) p))"
  by (induction j p rule: line_len.induct) auto

lemma line_len_last: "line_len j p < min j (length p) \<Longrightarrow> last (take (line_len j p) p) = 10"
proof (induction j p rule: line_len.induct)
  case (1 j c p)
  show ?case
  proof (cases "c = 10")
    case False
    with "1.prems" have l: "line_len j p < min j (length p)" by simp
    then have "take (line_len j p) p \<noteq> []" using line_len_pos [of j p] by (cases p) auto
    with "1.IH" [OF False l] False show ?thesis by simp
  qed simp
qed auto

lemma mem_gets_eq:
  assumes "mem_inv bio" and "0 < sz" and "sz \<le> int INT_MAX"
  shows "\<exists>ret line bio'. mem_gets sz bio h = (ret, line @ [0], bio', h) \<and> mem_inv bio' \<and>
    data (mem_buf bio) = line @ data (mem_buf bio') \<and> ret = int (length line) \<and> ret < sz \<and> 10 \<notin> set (butlast line) \<and>
    (ret < sz - 1 \<and> data (mem_buf bio') \<noteq> [] \<longrightarrow> last line = 10) \<and> (1 < sz \<and> data (mem_buf bio) \<noteq> [] \<longrightarrow> 0 < ret) \<and>
    num bio' = num bio \<and> rdonly bio' = rdonly bio \<and> BIO_should_retry bio' = 0 \<and>
    (rdonly bio \<longrightarrow> passed (mem_buf bio') @ data (mem_buf bio') = passed (mem_buf bio) @ data (mem_buf bio)) \<and>
    max_size (mem_buf bio') = max_size (mem_buf bio)"
proof -
  obtain b where b: "ptr bio = Some b" "length (data b) \<le> INT_MAX"
    using assms(1) by (auto simp: mem_inv_def)
  define j where "j = min (nat (sz - 1)) (length (data b))"
  have e: "(if sz - 1 < int_of_size (length (data b)) then sz - 1 else int_of_size (length (data b))) = int j"
    using assms(2) b(2) by (auto simp: int_of_size_exact j_def)
  define bio1 where "bio1 = BIO_clear_retry_flags bio"
  have i1: "mem_inv bio1" "ptr bio1 = ptr bio" "num bio1 = num bio" "rdonly bio1 = rdonly bio" "BIO_should_retry bio1 = 0"
    using assms(1) by (auto simp: bio1_def mem_inv_def)
  show ?thesis
  proof (cases "j = 0")
    case True
    have "mem_gets sz bio h = (0, [] @ [0], bio1, h)"
      unfolding mem_gets_def Let_def b(1) option.sel e bio1_def using True assms(2) by simp
    moreover have "sz = 1 \<or> data b = []" using True assms(2) by (auto simp: j_def min_def split: if_splits)
    ultimately show ?thesis
      using i1 b assms(2) by (intro exI [of _ 0] exI [of _ "[]"] exI [of _ bio1]) auto
  next
    case False
    define i where "i = line_len j (data b)"
    have L: "10 \<notin> set (butlast (take i (data b)))" "i < min j (length (data b)) \<Longrightarrow> last (take i (data b)) = 10"
      using line_len_inner line_len_last by (simp_all add: i_def)
    have i: "0 < i" "i \<le> j" "i \<le> length (data b)"
      using line_len_le [of j "data b"] line_len_pos [of j "data b"] False by (auto simp: i_def j_def)
    moreover have "j < nat sz" using False assms(2) by (auto simp: j_def min_def)
    ultimately have "i < nat sz" by linarith
    note i = i this
    have c: "0 < int i" "int i \<le> int INT_MAX" using i b(2) by simp_all
    obtain bio' where R: "mem_read (int i) bio1 h =
        (if data b = [] then num bio1 else int (min i (length (data b))), take i (data b), bio', h)"
      "mem_inv bio'" "data (mem_buf bio') = drop i (data b)" "num bio' = num bio1" "rdonly bio' = rdonly bio1"
      "max_size (mem_buf bio') = max_size b" "rdonly bio1 \<longrightarrow> passed (mem_buf bio') @ data (mem_buf bio') = passed b @ data b"
      "BIO_should_retry bio' \<noteq> 0 \<longleftrightarrow> data b = [] \<and> num bio1 \<noteq> 0"
      using mem_read_eq [OF i1(1) c, of h] unfolding i1(2) b(1) option.sel nat_int by (elim exE conjE)
    have ne: "data b \<noteq> []" using i by auto
    have "mem_gets sz bio h = (int i, take i (data b) @ [0], bio', h)"
      unfolding mem_gets_def Let_def b(1) option.sel e using False R(1) ne i
      by (simp add: i_def [symmetric] bio1_def [symmetric] min_def)
    moreover have "last (take i (data b)) = 10" if "int i < sz - 1" "data (mem_buf bio') \<noteq> []"
    proof -
      have "i < nat (sz - 1)" "i < length (data b)" using that R(3) by auto
      then show ?thesis using L(2) by (simp add: j_def)
    qed
    moreover have "int i < sz" using i(4) by linarith
    ultimately show ?thesis
      using R i1 i ne b L(1)
      by (intro exI [of _ "int i"] exI [of _ "take i (data b)"] exI [of _ bio']) auto
  qed
qed


section \<open>Runs\<close>

datatype mem_op = Mem_Write "byte list" | Mem_Read u32 | Mem_Gets u32 | Mem_Eof_Return u32

text \<open>One call on the BIO: its return value and what it writes to the caller's buffer.\<close>

fun mem_step :: "mem_op \<Rightarrow> mem_bio \<times> heap \<Rightarrow> int \<times> byte list \<times> mem_bio \<times> heap" where
  "mem_step (Mem_Write bs) (bio, h) = (case BIO_write mem_method bs bio h of (ret, bio, h) \<Rightarrow> (ret, [], bio, h))"
| "mem_step (Mem_Read n) (bio, h) = BIO_read mem_method (sint n) bio h"
| "mem_step (Mem_Gets n) (bio, h) = BIO_gets mem_method (sint n) bio h"
| "mem_step (Mem_Eof_Return v) (bio, h) =
    (case BIO_set_mem_eof_return bio (sint v) h of (ret, bio, h) \<Rightarrow> (ret, [], bio, h))"

definition mem_exec :: "mem_op \<Rightarrow> mem_bio \<times> heap \<Rightarrow> mem_bio \<times> heap" where
  "mem_exec p s = snd (snd (mem_step p s))"

fun mem_accepted :: "mem_op \<Rightarrow> mem_bio \<times> heap \<Rightarrow> byte list" where
  "mem_accepted (Mem_Write bs) s = take (nat (fst (mem_step (Mem_Write bs) s))) bs"
| "mem_accepted _ s = []"

fun mem_delivered :: "mem_op \<Rightarrow> mem_bio \<times> heap \<Rightarrow> byte list" where
  "mem_delivered (Mem_Read n) s = (case mem_step (Mem_Read n) s of (ret, out, _) \<Rightarrow> take (nat ret) out)"
| "mem_delivered (Mem_Gets n) s = (case mem_step (Mem_Gets n) s of (ret, out, _) \<Rightarrow> take (nat ret) out)"
| "mem_delivered _ s = []"

lemma sint_le_INT_MAX: "sint (n :: u32) \<le> int INT_MAX"
  using sint_lt [of n] by (simp add: INT_MAX_def)

text \<open>What one call does to the bytes, the mode of the BIO and the block.\<close>

lemma mem_step_law:
  assumes "mem_inv bio"
  shows "mem_inv (fst (mem_exec p (bio, h))) \<and>
    data (mem_buf bio) @ mem_accepted p (bio, h) =
      mem_delivered p (bio, h) @ data (mem_buf (fst (mem_exec p (bio, h)))) \<and>
    rdonly (fst (mem_exec p (bio, h))) = rdonly bio \<and>
    (rdonly bio \<longrightarrow> mem_accepted p (bio, h) = [] \<and>
      max_size (mem_buf (fst (mem_exec p (bio, h)))) = max_size (mem_buf bio) \<and>
      passed (mem_buf (fst (mem_exec p (bio, h)))) @ data (mem_buf (fst (mem_exec p (bio, h)))) =
      passed (mem_buf bio) @ data (mem_buf bio))"
proof -
  have init: "init bio" using assms by (simp add: mem_inv_def)
  have inv_upd: "mem_inv (b\<lparr>num_read := k\<rparr>) = mem_inv b" "mem_inv (b\<lparr>num_write := k\<rparr>) = mem_inv b"
    "mem_inv (b\<lparr>num := v\<rparr>) = mem_inv b" for b k v by (simp_all add: mem_inv_def)
  show ?thesis
  proof (cases p)
    case (Mem_Write bs)
    show ?thesis
    proof (cases "bs = []")
      case True
      then show ?thesis using assms init by (simp add: Mem_Write mem_exec_def BIO_write_def mem_method_def)
    next
      case False
      obtain ret bio' h' where W: "mem_write bs bio h = (ret, bio', h')" "mem_inv bio'" "rdonly bio' = rdonly bio"
        "ret = int (length bs) \<and> \<not> rdonly bio \<and> data (mem_buf bio') = data (mem_buf bio) @ bs \<or>
         ret = - 1 \<and> data (mem_buf bio') = data (mem_buf bio) \<and> passed (mem_buf bio') = passed (mem_buf bio)"
        using mem_write_eq [OF assms False, of h] by blast
      have "rdonly bio \<longrightarrow> bio' = bio" using W(1) by (auto simp: mem_write_def Let_def)
      with W init False show ?thesis
        by (auto simp: Mem_Write mem_exec_def BIO_write_def mem_method_def inv_upd)
    qed
  next
    case (Mem_Read n)
    show ?thesis
    proof (cases "0 < sint n")
      case False
      then show ?thesis using assms init by (simp add: Mem_Read mem_exec_def BIO_read_def mem_method_def)
    next
      case True
      obtain bio' where R: "mem_read (sint n) bio h =
          (if data (mem_buf bio) = [] then num bio else int (min (nat (sint n)) (length (data (mem_buf bio)))),
           take (nat (sint n)) (data (mem_buf bio)), bio', h)"
        "mem_inv bio'" "data (mem_buf bio') = drop (nat (sint n)) (data (mem_buf bio))" "rdonly bio' = rdonly bio"
        "max_size (mem_buf bio') = max_size (mem_buf bio)"
        "rdonly bio \<longrightarrow> passed (mem_buf bio') @ data (mem_buf bio') = passed (mem_buf bio) @ data (mem_buf bio)"
        using mem_read_eq [OF assms True sint_le_INT_MAX, of h] by (elim exE conjE)
      show ?thesis
        using R(2-) init True
        by (simp add: Mem_Read mem_exec_def BIO_read_def mem_method_def R(1) inv_upd min_def)
    qed
  next
    case (Mem_Gets n)
    show ?thesis
    proof (cases "0 < sint n")
      case False
      then show ?thesis using assms init by (simp add: Mem_Gets mem_exec_def BIO_gets_def mem_method_def)
    next
      case True
      obtain ret line bio' where R: "mem_gets (sint n) bio h = (ret, line @ [0], bio', h)"
        "mem_inv bio'" "data (mem_buf bio) = line @ data (mem_buf bio')" "ret = int (length line)" "rdonly bio' = rdonly bio"
        "max_size (mem_buf bio') = max_size (mem_buf bio)"
        "rdonly bio \<longrightarrow> passed (mem_buf bio') @ data (mem_buf bio') = passed (mem_buf bio) @ data (mem_buf bio)"
        using mem_gets_eq [OF assms True sint_le_INT_MAX, of h] by (elim exE conjE)
      show ?thesis
        using R(2-) init True
        by (simp add: Mem_Gets mem_exec_def BIO_gets_def mem_method_def R(1) inv_upd)
    qed
  next
    case (Mem_Eof_Return v)
    then show ?thesis
      using assms by (simp add: mem_exec_def BIO_set_mem_eof_return_def BIO_ctrl_def mem_method_def mem_ctrl_def
          bio_ctrl_defs Let_def inv_upd)
  qed
qed

interpretation mem_stream: byte_stream "\<lambda>(bio, h). mem_inv bio" "\<lambda>(bio, h). BIO_mem_contents bio"
  mem_exec mem_accepted mem_delivered
proof
  fix s :: "mem_bio \<times> heap" and p
  obtain bio h where s: "s = (bio, h)" by (cases s)
  assume "case s of (bio, h) \<Rightarrow> mem_inv bio"
  then have I: "mem_inv bio" by (simp add: s)
  show "case mem_exec p s of (bio, h) \<Rightarrow> mem_inv bio"
    using mem_step_law [OF I, of p h] by (simp add: s split_beta)
  show "(case s of (bio, h) \<Rightarrow> BIO_mem_contents bio) @ mem_accepted p s =
      mem_delivered p s @ (case mem_exec p s of (bio, h) \<Rightarrow> BIO_mem_contents bio)"
    using mem_step_law [OF I, of p h] by (simp add: s split_beta BIO_mem_contents_def)
qed


lemma BIO_new_mem_props:
  assumes "BIO_new_mem h = (Some bio, h')"
  shows "bio = \<lparr>init = True, shutdown = 1, flags = 0, retry_reason = 0, num = - 1, num_read = 0, num_write = 0,
    ptr = Some \<lparr>data = [], passed = [], max_size = 0\<rparr>\<rparr>"
  using assms
  by (auto simp: BIO_new_mem_def BIO_new_def mem_new_def BUF_MEM_new_def bio.defs Let_def
      split: prod.splits bool.splits option.splits if_splits)

lemma BIO_new_mem_inv:
  assumes "BIO_new_mem h = (Some bio, h')"
  shows "mem_inv bio" and "BIO_mem_contents bio = []" and "\<not> rdonly bio"
  by (simp_all add: BIO_new_mem_props [OF assms] mem_inv_def buf_inv_def BIO_mem_contents_def)

lemma rdonly_run:
  assumes "mem_inv bio" and "fold mem_exec ops (bio, h) = (bio', h')"
  shows "mem_inv bio' \<and> rdonly bio' = rdonly bio \<and> (rdonly bio \<longrightarrow> along mem_exec mem_accepted ops (bio, h) = [] \<and>
    max_size (mem_buf bio') = max_size (mem_buf bio) \<and>
    passed (mem_buf bio') @ data (mem_buf bio') = passed (mem_buf bio) @ data (mem_buf bio))"
  using assms
proof (induction ops arbitrary: bio h)
  case (Cons p ops)
  obtain bio1 h1 where e: "mem_exec p (bio, h) = (bio1, h1)" by (cases "mem_exec p (bio, h)")
  note L = mem_step_law [OF Cons.prems(1), of p h, unfolded e fst_conv]
  have r: "fold mem_exec ops (bio1, h1) = (bio', h')" using Cons.prems(2) e by simp
  note IH = Cons.IH [OF L [THEN conjunct1] r]
  show ?case using L IH e by (intro conjI impI) auto
qed auto

section \<open>Properties\<close>



text \<open>What each call on a memory BIO returns. A write takes all its bytes or, when the queue would
  outgrow an \<open>int\<close> or memory runs out, none and returns -1. A read takes as many bytes as it asks
  for and there are; on an empty queue it returns the end-of-input value and asks for a retry
  exactly when that value is not zero. \<open>BIO_gets\<close> takes a line up to and including its line feed,
  or as much of it as fits the caller's buffer behind which it puts a NUL.\<close>

theorem mem_bio_calls:
  assumes "BIO_new_mem h0 = (Some bio0, h1)" and "fold mem_exec ops (bio0, h1) = (bio, h)" and "bs \<noteq> []"
    and "0 < n" and "n \<le> int INT_MAX"
    and "BIO_write mem_method bs bio h = (wret, wbio, wh)" and "BIO_read mem_method n bio h = (rret, rout, rbio, rh)"
    and "BIO_gets mem_method n bio h = (gret, gout, gbio, gh)"
  shows "(wret = int (length bs) \<and> BIO_mem_contents wbio = BIO_mem_contents bio @ bs \<or>
      wret = - 1 \<and> BIO_mem_contents wbio = BIO_mem_contents bio \<and>
      (INT_MAX < length (BIO_mem_contents bio) + length bs \<or> False \<in> set h)) \<and>
    rout = take (nat n) (BIO_mem_contents bio) \<and> BIO_mem_contents rbio = drop (nat n) (BIO_mem_contents bio) \<and>
    rret = (if BIO_mem_contents bio = [] then num bio else int (length rout)) \<and>
    (BIO_should_retry rbio \<noteq> 0 \<longleftrightarrow> BIO_mem_contents bio = [] \<and> num bio \<noteq> 0) \<and>
    (\<exists>line. gout = line @ [0] \<and> gret = int (length line) \<and> gret < n \<and> BIO_mem_contents bio = line @ BIO_mem_contents gbio \<and>
      10 \<notin> set (butlast line) \<and> (gret = n - 1 \<or> BIO_mem_contents gbio = [] \<or> last line = 10))"
proof -
  have "mem_inv bio" "\<not> rdonly bio"
    using rdonly_run [OF BIO_new_mem_inv(1) [OF assms(1)] assms(2)] BIO_new_mem_inv(3) [OF assms(1)] by simp_all
  moreover from this(1) have "init bio" by (simp add: mem_inv_def)
  ultimately have I: "mem_inv bio" "\<not> rdonly bio" "init bio" by simp_all
  obtain ret bio' h' where W: "mem_write bs bio h = (ret, bio', h')"
    "ret = int (length bs) \<and> data (mem_buf bio') = data (mem_buf bio) @ bs \<or> ret = - 1 \<and> data (mem_buf bio') = data (mem_buf bio)"
    "ret = - 1 \<longrightarrow> INT_MAX < length (data (mem_buf bio)) + length bs \<or> False \<in> set h"
    using mem_write_eq [OF I(1) assms(3), of h] I(2) by blast
  have w: "wret = ret" "BIO_mem_contents wbio = data (mem_buf bio')"
    using assms(3,6) W(1) I(3) by (auto simp: BIO_write_def mem_method_def BIO_mem_contents_def split: if_splits)
  obtain bio2 where R: "mem_read n bio h =
      (if data (mem_buf bio) = [] then num bio else int (min (nat n) (length (data (mem_buf bio)))),
       take (nat n) (data (mem_buf bio)), bio2, h)" "data (mem_buf bio2) = drop (nat n) (data (mem_buf bio))"
      "BIO_should_retry bio2 \<noteq> 0 \<longleftrightarrow> data (mem_buf bio) = [] \<and> num bio \<noteq> 0"
    using mem_read_eq [OF I(1) assms(4,5), of h] by (elim exE conjE)
  have r: "rout = take (nat n) (data (mem_buf bio))" "BIO_mem_contents rbio = data (mem_buf bio2)"
    "rret = (if data (mem_buf bio) = [] then num bio else int (min (nat n) (length (data (mem_buf bio)))))"
    "BIO_should_retry rbio = BIO_should_retry bio2"
    using assms(4,7) R(1) I(3) by (auto simp: BIO_read_def mem_method_def BIO_mem_contents_def split: if_splits)
  obtain gr line bio3 where G: "mem_gets n bio h = (gr, line @ [0], bio3, h)"
    "data (mem_buf bio) = line @ data (mem_buf bio3)" "gr = int (length line)" "gr < n" "10 \<notin> set (butlast line)"
    "gr < n - 1 \<and> data (mem_buf bio3) \<noteq> [] \<longrightarrow> last line = 10"
    using mem_gets_eq [OF I(1) assms(4,5), of h] by (elim exE conjE)
  have g: "gout = line @ [0]" "gret = gr" "BIO_mem_contents gbio = data (mem_buf bio3)"
    using assms(4,8) G(1) I(3) by (auto simp: BIO_gets_def mem_method_def BIO_mem_contents_def split: if_splits)
  have "gr = n - 1 \<or> gr < n - 1" using G(4) by linarith
  have A: "wret = int (length bs) \<and> BIO_mem_contents wbio = BIO_mem_contents bio @ bs \<or>
      wret = - 1 \<and> BIO_mem_contents wbio = BIO_mem_contents bio \<and>
      (INT_MAX < length (BIO_mem_contents bio) + length bs \<or> False \<in> set h)"
    using W(2,3) unfolding w by (auto simp: BIO_mem_contents_def)
  have B: "rout = take (nat n) (BIO_mem_contents bio)" "BIO_mem_contents rbio = drop (nat n) (BIO_mem_contents bio)"
    "rret = (if BIO_mem_contents bio = [] then num bio else int (length rout))"
    "BIO_should_retry rbio \<noteq> 0 \<longleftrightarrow> BIO_mem_contents bio = [] \<and> num bio \<noteq> 0"
    unfolding r using R(2,3) by (simp_all add: BIO_mem_contents_def min.commute)
  have C: "BIO_mem_contents bio = line @ BIO_mem_contents gbio"
    unfolding g using G(2) by (simp add: BIO_mem_contents_def)
  have D: "gret = n - 1 \<or> BIO_mem_contents gbio = [] \<or> last line = 10"
    using G(6) \<open>gr = n - 1 \<or> gr < n - 1\<close> unfolding g by blast
  have E: "gret = int (length line)" "gret < n" using G(3,4) g(2) by simp_all
  show ?thesis
    by (rule conjI [OF A], intro conjI B exI [of _ line] g(1) E C D G(5))
qed

theorem mem_bio_calls_witness:
  "\<exists>bio0 h1 bio h wret wbio wh gret gout gbio gh. BIO_new_mem [] = (Some bio0, h1) \<and>
    fold mem_exec [Mem_Write [97, 10, 98]] (bio0, h1) = (bio, h) \<and>
    BIO_write mem_method [1] bio h = (wret, wbio, wh) \<and> BIO_gets mem_method 80 bio h = (gret, gout, gbio, gh) \<and>
    (wret = 1 \<or> wret = - 1) \<and> (\<exists>line. gout = line @ [0] \<and> gret = int (length line))"
proof -
  obtain bio0 h1 where n: "BIO_new_mem [] = (Some bio0, h1)"
    by (simp add: BIO_new_mem_def BIO_new_def mem_new_def BUF_MEM_new_def Let_def)
  obtain bio h where f: "fold mem_exec [Mem_Write [97, 10, 98]] (bio0, h1) = (bio, h)"
    by (cases "fold mem_exec [Mem_Write [97, 10, 98]] (bio0, h1)")
  obtain wret wbio wh where w: "BIO_write mem_method [1] bio h = (wret, wbio, wh)"
    by (cases "BIO_write mem_method [1] bio h")
  obtain rret rout rbio rh where r: "BIO_read mem_method 80 bio h = (rret, rout, rbio, rh)"
    by (cases "BIO_read mem_method 80 bio h")
  obtain gret gout gbio gh where g: "BIO_gets mem_method 80 bio h = (gret, gout, gbio, gh)"
    by (cases "BIO_gets mem_method 80 bio h")
  have "[1] \<noteq> ([] :: byte list)" "0 < (80 :: int)" "80 \<le> int INT_MAX" by (simp_all add: INT_MAX_def)
  from mem_bio_calls [OF n f this w r g]
  have "wret = 1 \<or> wret = - 1" "\<exists>line. gout = line @ [0] \<and> gret = int (length line)" by auto
  with n f w g show ?thesis by blast
qed

text \<open>A BIO over constant bytes delivers exactly those bytes, in order, never accepts a byte, and a
  reset brings it back to the start whatever has been read.\<close>

theorem mem_bio_rdonly:
  assumes "BIO_new_mem_buf (Some bs) len h0 = (Some bio0, h)" and "0 \<le> len" and "nat len \<le> length bs" and "nat len \<le> INT_MAX"
    and "fold mem_exec ops (bio0, h) = (bio, h')" and "BIO_reset mem_method bio h' = (ret, bio', h'')"
  shows "along mem_exec mem_accepted ops (bio0, h) = [] \<and>
    take (nat len) bs = along mem_exec mem_delivered ops (bio0, h) @ BIO_mem_contents bio \<and>
    BIO_mem_contents bio' = take (nat len) bs \<and> ret = 1"
proof -
  obtain bio1 where n: "BIO_new_mem h0 = (Some bio1, h)" and
    b0: "bio0 = bio1\<lparr>ptr := Some \<lparr>data = take (nat len) bs, passed = [], max_size = nat len\<rparr>,
      flags := flags bio1 OR BIO_FLAGS_MEM_RDONLY, num := 0\<rparr>"
    using assms(1,2) by (auto simp: BIO_new_mem_buf_def Let_def split: prod.splits option.splits)
  have "mem_inv bio0" "rdonly bio0" "max_size (mem_buf bio0) = nat len" "BIO_mem_contents bio0 = take (nat len) bs"
    "passed (mem_buf bio0) @ data (mem_buf bio0) = take (nat len) bs"
    unfolding b0 using assms(2-4)
    by (auto simp: BIO_new_mem_props [OF n] mem_inv_def buf_inv_def BIO_mem_contents_def bio_flag_defs INT_MAX_def)
  note B = this
  note R = rdonly_run [OF B(1) assms(5)]
  have P: "rdonly bio" "max_size (mem_buf bio) = nat len"
    "passed (mem_buf bio) @ data (mem_buf bio) = take (nat len) bs"
    "along mem_exec mem_accepted ops (bio0, h) = []"
    using R B by auto
  have "length (passed (mem_buf bio)) + length (data (mem_buf bio)) = nat len"
    using arg_cong [OF P(3), of length] assms(3) by simp
  then have "BIO_mem_contents bio' = take (nat len) bs" "ret = 1"
    using assms(6) P(1,2,3)
    by (auto simp: BIO_reset_def BIO_ctrl_def mem_method_def mem_ctrl_def Let_def BIO_mem_contents_def)
  moreover have "take (nat len) bs = along mem_exec mem_delivered ops (bio0, h) @ BIO_mem_contents bio"
    using mem_stream.run_law [of "(bio0, h)" ops] B assms(5) P(4) by simp
  ultimately show ?thesis using P(4) by simp
qed

theorem mem_bio_rdonly_witness:
  "\<exists>bio0 h bio h' ret bio' h''. BIO_new_mem_buf (Some [1, 2, 3]) 2 [] = (Some bio0, h) \<and>
    fold mem_exec [Mem_Read 1, Mem_Write [7]] (bio0, h) = (bio, h') \<and> BIO_reset mem_method bio h' = (ret, bio', h'') \<and>
    BIO_mem_contents bio' = [1, 2]"
proof -
  obtain bio0 h where n: "BIO_new_mem_buf (Some [1, 2, 3]) 2 [] = (Some bio0, h)"
    by (simp add: BIO_new_mem_buf_def BIO_new_mem_def BIO_new_def mem_new_def BUF_MEM_new_def Let_def)
  obtain bio h' where f: "fold mem_exec [Mem_Read 1, Mem_Write [7]] (bio0, h) = (bio, h')"
    by (cases "fold mem_exec [Mem_Read 1, Mem_Write [7]] (bio0, h)")
  obtain ret bio' h'' where r: "BIO_reset mem_method bio h' = (ret, bio', h'')"
    by (cases "BIO_reset mem_method bio h'")
  have c: "0 \<le> (2 :: int)" "nat 2 \<le> length [1, 2, 3 :: byte]" "nat 2 \<le> INT_MAX" by (simp_all add: INT_MAX_def)
  have "BIO_mem_contents bio' = take (nat 2) [1, 2, 3]"
    using mem_bio_rdonly [OF n c f r] by blast
  then show ?thesis using n f r by auto
qed

end
