(* ===== verification/Bio_Asn1.thy ===== *)
theory Bio_Asn1
  imports Bio_Mem Asn1_Parse "HOL-Library.Monad_Syntax"
begin

text \<open>
  Reading one ASN.1 object from a BIO: \<open>BIO_read_asn1\<close> of \<open>crypto/bio/bio.c\<close>, over any method and in
  particular over a memory BIO, where it reads what the DER reader of \<open>Asn1_Parse\<close> would.

  The allocations of the function have their own outcomes, apart from those in the environment of the
  BIO.  Which error is pushed has no effect, so the end of file on the first read is not reported.  A
  method never reads more than it was asked for.
\<close>

section \<open>Reading\<close>

text \<open>
  The loop of \<open>bio_read_all\<close> with \<open>buf\<close> the bytes \<open>(*out)[0 .. done)\<close>.  A result below -1 moves \<open>done\<close>
  back; the outer \<open>None\<close> is a call that does not return or leaves the block.
\<close>

definition kChunkSize :: nat where
  "kChunkSize = 4096"

definition moved :: "byte list \<Rightarrow> int \<Rightarrow> byte list \<Rightarrow> byte list option" where
  "moved buf n bs =
     (if n > 0 then Some (buf @ bs)
      else if nat (- n) \<le> length buf then Some (take (length buf - nat (- n)) buf) else None)"

partial_function (option) read_all_loop ::
  "('m bio_scheme, 'e, 'p) bio_method \<Rightarrow> nat \<Rightarrow> nat \<Rightarrow> byte list \<Rightarrow> heap \<Rightarrow> 'm bio_scheme \<Rightarrow> 'e \<Rightarrow>
    (byte list option \<times> heap \<times> 'm bio_scheme \<times> 'e) option" where
  "read_all_loop method max_len len buf h bio e =
     (if length buf = len then Some (None, h, bio, e)
      else
        let todo = len - length buf
        in case BIO_read method (int_of_size todo) bio e of
             (n, bs, bio, e) \<Rightarrow>
               if n = 0 then Some (Some buf, h, bio, e)
               else if n = - 1 then Some (None, h, bio, e)
               else do {
                 buf \<leftarrow> moved buf n bs;
                 if len < max_len \<and> len - length buf < kChunkSize div 2
                 then
                   let len = size_add len kChunkSize;
                       len = (if len < kChunkSize \<or> len > max_len then max_len else len);
                       (ok, h) = heap_alloc h
                   in if ok then read_all_loop method max_len len buf h bio e else Some (None, h, bio, e)
                 else read_all_loop method max_len len buf h bio e
               })"

definition bio_read_all ::
  "('m bio_scheme, 'e, 'p) bio_method \<Rightarrow> byte list \<Rightarrow> nat \<Rightarrow> heap \<Rightarrow> 'm bio_scheme \<Rightarrow> 'e \<Rightarrow>
    (byte list option \<times> heap \<times> 'm bio_scheme \<times> 'e) option" where
  "bio_read_all method prefix max_len h bio e =
     (let len = size_add (length prefix) kChunkSize;
          len = (if len > max_len then max_len else len)
      in if len < length prefix then Some (None, h, bio, e)
         else case heap_alloc h of
                (False, h) \<Rightarrow> Some (None, h, bio, e)
              | (True, h) \<Rightarrow> read_all_loop method max_len len prefix h bio e)"

text \<open>The bytes it has read, \<open>None\<close> when a read fails before all are there.\<close>

function bio_read_full ::
  "('m bio_scheme, 'e, 'p) bio_method \<Rightarrow> nat \<Rightarrow> 'm bio_scheme \<Rightarrow> 'e \<Rightarrow> byte list option \<times> 'm bio_scheme \<times> 'e" where
  "bio_read_full method len bio e =
     (if len > 0
      then let todo = (if len \<le> INT_MAX then len else INT_MAX);
               (ret, bs, bio, e) = BIO_read method (int todo) bio e
           in if ret \<le> 0 then (None, bio, e)
              else case bio_read_full method (len - nat ret) bio e of
                     (None, bio, e) \<Rightarrow> (None, bio, e)
                   | (Some rest, bio, e) \<Rightarrow> (Some (bs @ rest), bio, e)
      else (Some [], bio, e))"
  by pat_completeness auto
termination
  by (relation "measure (\<lambda>(_, len, _). len)") auto

declare bio_read_full.simps [simp del]

section \<open>One object\<close>

fun len32_loop :: "u32 \<Rightarrow> byte list \<Rightarrow> u32" where
  "len32_loop len32 [] = len32"
| "len32_loop len32 (b # bs) = len32_loop (push_bit 8 len32 OR ucast b) bs"

text \<open>From the check of the length on: \<open>header\<close> are the bytes of the header, \<open>len\<close> the length they give.\<close>

definition read_asn1_body ::
  "('m bio_scheme, 'e, 'p) bio_method \<Rightarrow> byte list \<Rightarrow> nat \<Rightarrow> nat \<Rightarrow> heap \<Rightarrow> 'm bio_scheme \<Rightarrow> 'e \<Rightarrow>
    byte list option \<times> heap \<times> 'm bio_scheme \<times> 'e" where
  "read_asn1_body method header len max_len h bio e =
     (if size_add len (length header) < len \<or> size_add len (length header) > max_len \<or> len > INT_MAX
      then (None, h, bio, e)
      else let header_len = length header; len = size_add len header_len
           in case heap_alloc h of
                (False, h) \<Rightarrow> (None, h, bio, e)
              | (True, h) \<Rightarrow>
                  (case bio_read_full method (len - header_len) bio e of
                     (None, bio, e) \<Rightarrow> (None, h, bio, e)
                   | (Some body, bio, e) \<Rightarrow> (Some (header @ body), h, bio, e)))"

definition BIO_read_asn1 ::
  "('m bio_scheme, 'e, 'p) bio_method \<Rightarrow> nat \<Rightarrow> heap \<Rightarrow> 'm bio_scheme \<Rightarrow> 'e \<Rightarrow>
    (byte list option \<times> heap \<times> 'm bio_scheme \<times> 'e) option" where
  "BIO_read_asn1 method max_len h bio e =
     (case bio_read_full method 2 bio e of
        (None, bio, e) \<Rightarrow> Some (None, h, bio, e)
      | (Some header, bio, e) \<Rightarrow>
          let tag = header ! 0; length_byte = header ! 1
          in if tag AND 0x1f = 0x1f then Some (None, h, bio, e)
             else if length_byte AND 0x80 = 0
             then Some (read_asn1_body method header (unat length_byte) max_len h bio e)
             else
               let num_bytes = unat (length_byte AND 0x7f)
               in if tag AND 0x20 \<noteq> 0 \<and> num_bytes = 0 then bio_read_all method header max_len h bio e
                  else if num_bytes = 0 \<or> num_bytes > 4 then Some (None, h, bio, e)
                  else
                    (case bio_read_full method num_bytes bio e of
                       (None, bio, e) \<Rightarrow> Some (None, h, bio, e)
                     | (Some octets, bio, e) \<Rightarrow>
                         let len32 = len32_loop 0 octets
                         in if len32 < 128 then Some (None, h, bio, e)
                            else if drop_bit ((num_bytes - 1) * 8) len32 = 0 then Some (None, h, bio, e)
                            else Some (read_asn1_body method (header @ octets) (unat len32) max_len h bio e)))"

section \<open>Over a memory BIO\<close>

lemma BIO_read_mem:
  assumes "mem_inv bio" and "0 < n" and "n \<le> INT_MAX"
  obtains bio' where "BIO_read mem_method (int n) bio h =
      (if BIO_mem_contents bio = [] then num bio else int (min n (length (BIO_mem_contents bio))),
       take n (BIO_mem_contents bio), bio', h)"
    and "mem_inv bio'" and "BIO_mem_contents bio' = drop n (BIO_mem_contents bio)" and "num bio' = num bio"
proof -
  have "0 < int n" "int n \<le> int INT_MAX" using assms(2,3) by simp_all
  from mem_read_eq [OF assms(1) this, of h] obtain b where b:
    "mem_read (int n) bio h = (if BIO_mem_contents bio = [] then num bio else int (min n (length (BIO_mem_contents bio))),
       take n (BIO_mem_contents bio), b, h)"
    "mem_inv b" "BIO_mem_contents b = drop n (BIO_mem_contents bio)" "num b = num bio"
    unfolding nat_int BIO_mem_contents_def [symmetric] by (elim exE conjE)
  let ?r = "if BIO_mem_contents bio = [] then num bio else int (min n (length (BIO_mem_contents bio)))"
  let ?b = "if ?r > 0 then b\<lparr>num_read := size_add (num_read b) (nat ?r)\<rparr> else b"
  have i: "init bio" using assms(1) by (simp add: mem_inv_def)
  have "BIO_read mem_method (int n) bio h = (?r, take n (BIO_mem_contents bio), ?b, h)"
    using i assms(2) b(1) by (simp add: BIO_read_def mem_method_def)
  moreover have "mem_inv ?b" "BIO_mem_contents ?b = drop n (BIO_mem_contents bio)" "num ?b = num bio"
    using b(2-4) by (auto simp: mem_inv_def BIO_mem_contents_def)
  ultimately show ?thesis by (rule that)
qed

lemma mem_inv_length: "mem_inv bio \<Longrightarrow> length (BIO_mem_contents bio) \<le> INT_MAX"
  by (auto simp: mem_inv_def BIO_mem_contents_def)

lemma bio_read_full_mem:
  assumes "mem_inv bio" and "num bio \<le> 0"
  obtains bio' where "bio_read_full mem_method n bio h =
      (if n \<le> length (BIO_mem_contents bio) then Some (take n (BIO_mem_contents bio)) else None, bio', h)"
    and "mem_inv bio'" and "num bio' = num bio"
    and "n \<le> length (BIO_mem_contents bio) \<longrightarrow> BIO_mem_contents bio' = drop n (BIO_mem_contents bio)"
proof -
  have empty: "\<exists>bio'. bio_read_full mem_method m b h = (None, bio', h) \<and> mem_inv bio' \<and> num bio' = num b"
    if e: "mem_inv b" "num b \<le> 0" "BIO_mem_contents b = []" "0 < m" for b m
  proof -
    have m: "0 < min m INT_MAX" "min m INT_MAX \<le> INT_MAX" using e(4) by (simp_all add: INT_MAX_def)
    obtain b' where "BIO_read mem_method (int (min m INT_MAX)) b h = (num b, [], b', h)" "mem_inv b'" "num b' = num b"
      by (rule BIO_read_mem [OF e(1) m, of h]) (use e(3) in simp)
    then show ?thesis using e by (simp add: bio_read_full.simps [of _ m] min_def)
  qed
  let ?c = "BIO_mem_contents bio"
  consider "n = 0" | "0 < n" "?c = []" | "0 < n" "?c \<noteq> []" by auto
  then show ?thesis
  proof cases
    case 1
    then show ?thesis using assms by (intro that [of bio]) (simp_all add: bio_read_full.simps)
  next
    case 2
    then show ?thesis using empty [OF assms 2(2,1)] that by fastforce
  next
    case 3
    have m: "0 < min n INT_MAX" "min n INT_MAX \<le> INT_MAX" using 3 by (simp_all add: INT_MAX_def)
    obtain b where b: "BIO_read mem_method (int (min n INT_MAX)) bio h =
        (int (min (min n INT_MAX) (length ?c)), take (min n INT_MAX) ?c, b, h)"
      "mem_inv b" "BIO_mem_contents b = drop (min n INT_MAX) ?c" "num b = num bio"
      by (rule BIO_read_mem [OF assms(1) m, of h]) (use 3(2) in simp)
    have l: "length ?c \<le> INT_MAX" by (rule mem_inv_length [OF assms(1)])
    have step: "bio_read_full mem_method n bio h =
      (case bio_read_full mem_method (n - min n (length ?c)) b h of
         (None, bio, e) \<Rightarrow> (None, bio, e) | (Some rest, bio, e) \<Rightarrow> (Some (take n ?c @ rest), bio, e))"
    proof -
      define k where "k = min n (length ?c)"
      have "min (min n INT_MAX) (length ?c) = k" "take (min n INT_MAX) ?c = take n ?c"
        using l by (auto simp: min_def k_def)
      with b(1) have rd: "BIO_read mem_method (int (if n \<le> INT_MAX then n else INT_MAX)) bio h = (int k, take n ?c, b, h)"
        by (simp add: min_def [of n INT_MAX])
      have "k \<noteq> 0" using 3 by (auto simp: k_def min_def)
      then show ?thesis
        unfolding bio_read_full.simps [of _ n] Let_def rd k_def [symmetric] using 3(1) by simp
    qed
    show ?thesis
    proof (cases "n \<le> length ?c")
      case True
      then have "bio_read_full mem_method n bio h = (Some (take n ?c), b, h)"
        using step by (simp add: min_def bio_read_full.simps)
      then show ?thesis using True b l by (intro that [of b]) (simp_all add: min_def)
    next
      case False
      then have "0 < n - min n (length ?c)" "BIO_mem_contents b = []" using b(3) l by (simp_all add: min_def)
      from empty [OF b(2) _ this(2,1)] assms(2) b(4) obtain b' where
        "bio_read_full mem_method (n - min n (length ?c)) b h = (None, b', h)" "mem_inv b'" "num b' = num bio" by auto
      then show ?thesis using False step by (intro that [of b']) simp_all
    qed
  qed
qed

section \<open>The length of the header\<close>

lemma push_bit_or_byte32: "push_bit 8 (r :: u32) OR ucast (b :: byte) = r * 256 + ucast b"
proof -
  have "push_bit 8 r OR ucast b = push_bit 8 r + ucast b"
    by (rule disjunctive_add_eq_or [symmetric]) (auto simp: bit_eq_iff bit_simps dest: bit_imp_le_length)
  then show ?thesis by (simp add: push_bit_eq_mult)
qed

lemma len32_loop_eq: "len32_loop r bs = r * 256 ^ length bs + of_nat (be_val bs)"
proof (induction r bs rule: len32_loop.induct)
  case (2 r b bs)
  have "len32_loop r (b # bs) = (r * 256 + ucast b) * 256 ^ length bs + of_nat (be_val bs)"
    using 2 by (simp only: len32_loop.simps push_bit_or_byte32)
  then show ?case by (simp add: algebra_simps)
qed simp

lemma len32_loop_val:
  assumes "length bs \<le> 4"
  shows "unat (len32_loop 0 bs) = be_val bs" and "be_val bs < 2 ^ 32"
proof -
  have "be_val bs < 256 ^ length bs" by (rule be_val_bound)
  also have "(256 :: nat) ^ length bs \<le> 256 ^ 4" using assms by (intro power_increasing) auto
  finally show "be_val bs < 2 ^ 32" by simp
  then show "unat (len32_loop 0 bs) = be_val bs" by (simp add: len32_loop_eq unat_of_nat)
qed

lemma drop_len32: "drop_bit (j * 8) w = 0 \<longleftrightarrow> unat (w :: u32) < 256 ^ j"
proof -
  have e: "(2 :: nat) ^ (j * 8) = 256 ^ j"
    by (subst mult.commute, subst power_mult) simp
  have "drop_bit (j * 8) w = 0 \<longleftrightarrow> unat w div 2 ^ (j * 8) = 0"
    by (simp only: word_unat_eq_iff unat_drop_bit_div unsigned_0)
  then show ?thesis unfolding e by (simp add: div_eq_0_iff)
qed

section \<open>One object of a memory BIO\<close>

text \<open>The tag of CBS and CBB for an identifier octet of one byte.\<close>

definition low_tag :: "byte \<Rightarrow> u32" where
  "low_tag b = push_bit 24 (ucast (b AND 0xe0)) OR ucast (b AND 0x1f)"

lemma der_low_tag:
  assumes "b AND 0x1f \<noteq> 0x1f"
  shows "der_tag (low_tag b) = [b]"
proof -
  have n: "low_tag b AND CBS_ASN1_TAG_NUMBER_MASK = ucast (b AND 0x1f)"
    unfolding low_tag_def tag_masks by (rule bit_word_eqI) (auto simp: bit_simps)
  have t: "(ucast (drop_bit CBS_ASN1_TAG_SHIFT (low_tag b)) :: byte) AND 0xe0 = b AND 0xe0"
    unfolding low_tag_def tag_masks by (rule bit_word_eqI) (auto simp: bit_simps)
  have j: "(b AND 0xe0) OR (b AND 0x1f) = b"
    unfolding tag_masks by (rule bit_word_eqI) (auto simp: bit_simps)
  have "b AND 0x1f < 0x1f" using assms word_and_le1 [of b "0x1f"] by (simp add: order_less_le)
  then have "unat (b AND 0x1f) < 31" by (simp add: word_less_nat_alt)
  then have l: "\<not> 0x1f \<le> (ucast (b AND 0x1f) :: u32)" by (simp add: word_le_nat_alt unsigned_ucast_eq not_le take_bit_nat_eq_self)
  have "(ucast (ucast (b AND 0x1f) :: u32) :: byte) = b AND 0x1f" by (rule bit_word_eqI) (auto simp: bit_simps)
  with n t j l show ?thesis by (simp add: der_tag_def Let_def)
qed

lemma read_asn1_body_mem:
  assumes "mem_inv bio" and "num bio \<le> 0" and "len < 2 ^ 32" and "length header < 2 ^ 32"
  shows "\<exists>r h' bio'. read_asn1_body mem_method header len max_len h bio e = (r, h', bio', e) \<and> mem_inv bio' \<and> num bio' = num bio \<and>
    (False \<notin> set h \<longrightarrow> r = (if len + length header \<le> max_len \<and> len \<le> INT_MAX \<and> len \<le> length (BIO_mem_contents bio)
       then Some (header @ take len (BIO_mem_contents bio)) else None)) \<and>
    (\<forall>out. r = Some out \<longrightarrow> len + length header \<le> max_len \<and> len \<le> INT_MAX \<and> len \<le> length (BIO_mem_contents bio) \<and>
       out = header @ take len (BIO_mem_contents bio) \<and> BIO_mem_contents bio' = drop len (BIO_mem_contents bio))"
proof -
  have s: "size_add len (length header) = len + length header" using assms(3,4) by simp
  obtain bio' where full: "bio_read_full mem_method len bio e =
      (if len \<le> length (BIO_mem_contents bio) then Some (take len (BIO_mem_contents bio)) else None, bio', e)"
    "mem_inv bio'" "num bio' = num bio"
    "len \<le> length (BIO_mem_contents bio) \<longrightarrow> BIO_mem_contents bio' = drop len (BIO_mem_contents bio)"
    using bio_read_full_mem [OF assms(1,2), of len e] .
  obtain ok h' where h: "heap_alloc h = (ok, h')" by (cases "heap_alloc h")
  have ok: "False \<notin> set h \<Longrightarrow> ok" using heap_alloc_outcome [OF _ h] by blast
  show ?thesis
  proof (cases "len + length header > max_len \<or> len > INT_MAX \<or> \<not> ok")
    case True
    then have "read_asn1_body mem_method header len max_len h bio e = (None, if len + length header > max_len \<or> len > INT_MAX then h else h', bio, e)"
      using h by (auto simp: read_asn1_body_def s Let_def)
    then show ?thesis using True assms(1,2) ok by auto
  next
    case False
    then have "read_asn1_body mem_method header len max_len h bio e =
        ((if len \<le> length (BIO_mem_contents bio) then Some (header @ take len (BIO_mem_contents bio)) else None), h', bio', e)"
      using h full(1) by (auto simp: read_asn1_body_def s Let_def)
    then show ?thesis using False full(2-4) by auto
  qed
qed

lemma length_byte_short:
  assumes "l AND 0x80 = (0 :: byte)"
  shows "unat l < 128" and "der_len (unat l) = [l]"
proof -
  have "list_all (\<lambda>i. word_of_int i AND 0x80 = (0 :: byte) \<longrightarrow> unat (word_of_int i :: byte) < 128) [0..255]" by code_simp
  then have "l AND 0x80 = 0 \<longrightarrow> unat l < 128" by (rule all_bytesI)
  with assms show "unat l < 128" by blast
  then show "der_len (unat l) = [l]" by (simp add: der_len_def)
qed

lemma length_byte_long:
  assumes "l AND 0x80 \<noteq> (0 :: byte)"
  shows "l = of_nat (128 + unat (l AND 0x7f))"
proof -
  have "list_all (\<lambda>i. word_of_int i AND 0x80 \<noteq> (0 :: byte) \<longrightarrow>
      (word_of_int i :: byte) = of_nat (128 + unat (word_of_int i AND 0x7f :: byte))) [0..255]" by code_simp
  then have "l AND 0x80 \<noteq> 0 \<longrightarrow> l = of_nat (128 + unat (l AND 0x7f))" by (rule all_bytesI)
  with assms show ?thesis by blast
qed

lemma short_length_byte:
  assumes "n < 128"
  shows "(of_nat n :: byte) AND 0x80 = 0 \<and> unat (of_nat n :: byte) = n"
proof -
  have "list_all (\<lambda>n. (of_nat n :: byte) AND 0x80 = 0 \<and> unat (of_nat n :: byte) = n) [0..<128]" by code_simp
  from all_lessI [OF this assms] show ?thesis .
qed

lemma long_length_byte:
  assumes "k < 5"
  shows "(of_nat (128 + k) :: byte) AND 0x80 \<noteq> 0 \<and> unat (of_nat (128 + k) AND 0x7f :: byte) = k"
proof -
  have "list_all (\<lambda>k. (of_nat (128 + k) :: byte) AND 0x80 \<noteq> 0 \<and> unat (of_nat (128 + k) AND 0x7f :: byte) = k) [0..<5]" by code_simp
  from all_lessI [OF this assms] show ?thesis .
qed

text \<open>The two forms of a header in front of an element.\<close>

lemma der_low_prefix:
  assumes "b # l # cs = der (low_tag b') body @ rest" and "b' AND 0x1f \<noteq> 0x1f" and "length body < 2 ^ 32"
  obtains (short) "b' = b" "l AND 0x80 = 0" "unat l = length body" "cs = body @ rest"
    | (long) octets where "b' = b" "l AND 0x80 \<noteq> 0" "unat (l AND 0x7f) = length octets" "1 \<le> length octets" "length octets \<le> 4"
        "cs = octets @ body @ rest" "be_val octets = length body" "128 \<le> be_val octets" "256 ^ (length octets - 1) \<le> be_val octets"
proof -
  have e: "b # l # cs = b' # der_len (length body) @ body @ rest"
    using assms(1) der_low_tag [OF assms(2)] by (simp add: der_def)
  show ?thesis
  proof (cases rule: der_len_cases [OF assms(3)])
    case 1
    then show ?thesis using e short_length_byte [OF 1(1)] by (intro short) auto
  next
    case (2 k bs)
    then show ?thesis using e long_length_byte [of k] by (intro long [of bs]) auto
  qed
qed

lemma der_low_short:
  assumes "b AND 0x1f \<noteq> 0x1f" and "l AND 0x80 = 0" and "length body = unat l"
  shows "der (low_tag b) body = b # l # body"
  using assms der_low_tag length_byte_short(2) by (simp add: der_def)

lemma der_low_long:
  assumes "b AND 0x1f \<noteq> 0x1f" and "l AND 0x80 \<noteq> 0" and "length octets = unat (l AND 0x7f)" and "1 \<le> length octets" and "length octets \<le> 4"
    and "128 \<le> be_val octets" and "256 ^ (length octets - 1) \<le> be_val octets" and "length body = be_val octets"
  shows "der (low_tag b) body = b # l # octets @ body"
  using assms der_low_tag be_bytes_size_cases [of octets "length octets"] length_byte_long [OF assms(2)] by (simp add: der_def)

text \<open>The element a byte string starts with, as \<open>BIO_read_asn1\<close> understands it.\<close>

definition low_element :: "nat \<Rightarrow> byte list \<Rightarrow> byte list \<Rightarrow> byte list \<Rightarrow> bool" where
  "low_element max_len cs out rest \<longleftrightarrow>
     (\<exists>b body. b AND 0x1f \<noteq> 0x1f \<and> length body \<le> INT_MAX \<and> out = der (low_tag b) body \<and> length out \<le> max_len \<and>
        cs = out @ rest)"

definition indefinite :: "byte list \<Rightarrow> bool" where
  "indefinite cs \<longleftrightarrow> (\<exists>b rest. cs = b # 0x80 # rest \<and> b AND 0x1f \<noteq> 0x1f \<and> b AND 0x20 \<noteq> 0)"

definition reads_element :: "nat \<Rightarrow> heap \<Rightarrow> byte list \<Rightarrow> byte list option \<Rightarrow> byte list \<Rightarrow> bool" where
  "reads_element max_len h cs r cs' \<longleftrightarrow>
     (\<forall>out. r = Some out \<longrightarrow> low_element max_len cs out cs') \<and>
     (False \<notin> set h \<longrightarrow> (\<exists>out rest. low_element max_len cs out rest) \<longrightarrow> r \<noteq> None)"

lemma reads_none: "(\<And>out rest. \<not> low_element max_len cs out rest) \<Longrightarrow> reads_element max_len h cs None cs'"
  by (simp add: reads_element_def)

lemma low_elementD:
  assumes "low_element max_len (b # l # cs) out rest"
  obtains (short) body where "b AND 0x1f \<noteq> 0x1f" "l AND 0x80 = 0" "unat l = length body" "cs = body @ rest"
      "length body \<le> INT_MAX" "length body + 2 \<le> max_len"
    | (long) octets body where "b AND 0x1f \<noteq> 0x1f" "l AND 0x80 \<noteq> 0" "unat (l AND 0x7f) = length octets" "1 \<le> length octets" "length octets \<le> 4"
        "cs = octets @ body @ rest" "be_val octets = length body" "128 \<le> be_val octets" "256 ^ (length octets - 1) \<le> be_val octets"
        "length body \<le> INT_MAX" "length body + (2 + length octets) \<le> max_len"
proof -
  obtain b' body where e: "b' AND 0x1f \<noteq> 0x1f" "length body \<le> INT_MAX" "out = der (low_tag b') body" "length out \<le> max_len"
    "b # l # cs = der (low_tag b') body @ rest" using assms by (auto simp: low_element_def)
  have "length body < 2 ^ 32" using e(2) by (simp add: INT_MAX_def)
  from e(5,1) this show ?thesis
  proof (cases rule: der_low_prefix)
    case short
    then have "out = b # l # body" using der_low_short [of b l body] e(1,3) by simp
    then have "length body + 2 \<le> max_len" using e(4) by simp
    with short e(1,2) show ?thesis by (intro that(1) [of body]) auto
  next
    case (long octets)
    have bb: "b AND 0x1f \<noteq> 0x1f" using e(1) unfolding long(1) .
    have "out = b # l # octets @ body"
      using der_low_long [OF bb long(2) long(3) [symmetric] long(4,5,8,9) long(7) [symmetric]] e(3) unfolding long(1) by (rule trans [rotated])
    then have "length body + (2 + length octets) \<le> max_len" using e(4) by simp
    from that(2) [OF bb long(2-9) e(2) this] show ?thesis .
  qed
qed

lemma low_element_shortI:
  assumes "b AND 0x1f \<noteq> 0x1f" and "l AND 0x80 = 0" and "unat l \<le> length cs" and "unat l + 2 \<le> max_len"
  shows "low_element max_len (b # l # cs) ([b, l] @ take (unat l) cs) (drop (unat l) cs)"
proof -
  have "unat l \<le> INT_MAX" using length_byte_short(1) [OF assms(2)] by (simp add: INT_MAX_def)
  then show ?thesis
    unfolding low_element_def using assms der_low_short [of b l "take (unat l) cs"]
    by (intro exI [of _ b] exI [of _ "take (unat l) cs"]) (simp add: min_def)
qed

lemma low_element_longI:
  assumes "b AND 0x1f \<noteq> 0x1f" and "l AND 0x80 \<noteq> 0" and "length octets = unat (l AND 0x7f)" and "1 \<le> length octets" and "length octets \<le> 4"
    and "128 \<le> be_val octets" and "256 ^ (length octets - 1) \<le> be_val octets" and "be_val octets \<le> length cs"
    and "be_val octets \<le> INT_MAX" and "be_val octets + (2 + length octets) \<le> max_len"
  shows "low_element max_len (b # l # octets @ cs) (([b, l] @ octets) @ take (be_val octets) cs) (drop (be_val octets) cs)"
  unfolding low_element_def using assms der_low_long [OF assms(1-7), of "take (be_val octets) cs"]
  by (intro exI [of _ b] exI [of _ "take (be_val octets) cs"]) (simp add: min_def)

lemma body_reads:
  assumes "mem_inv bio" and "num bio \<le> 0" and "len < 2 ^ 32" and "length header < 2 ^ 32" and "BIO_mem_contents bio = cs"
    and sound: "len + length header \<le> max_len \<Longrightarrow> len \<le> INT_MAX \<Longrightarrow> len \<le> length cs \<Longrightarrow>
      low_element max_len all (header @ take len cs) (drop len cs)"
    and complete: "\<And>out rest. low_element max_len all out rest \<Longrightarrow> len + length header \<le> max_len \<and> len \<le> INT_MAX \<and> len \<le> length cs"
  shows "\<exists>r h' bio'. read_asn1_body mem_method header len max_len h bio e = (r, h', bio', e) \<and> mem_inv bio' \<and>
    reads_element max_len h all r (BIO_mem_contents bio')"
proof -
  from read_asn1_body_mem [OF assms(1-4), of max_len h e] obtain r h' bio' where
    b: "read_asn1_body mem_method header len max_len h bio e = (r, h', bio', e)" "mem_inv bio'"
    "False \<notin> set h \<longrightarrow> r = (if len + length header \<le> max_len \<and> len \<le> INT_MAX \<and> len \<le> length cs then Some (header @ take len cs) else None)"
    "\<forall>out. r = Some out \<longrightarrow> len + length header \<le> max_len \<and> len \<le> INT_MAX \<and> len \<le> length cs \<and>
       out = header @ take len cs \<and> BIO_mem_contents bio' = drop len cs"
    unfolding assms(5) by (elim exE conjE)
  have "reads_element max_len h all r (BIO_mem_contents bio')"
    unfolding reads_element_def
  proof (intro conjI allI impI)
    fix out assume "r = Some out"
    with b(4) have "len + length header \<le> max_len" "len \<le> INT_MAX" "len \<le> length cs" "out = header @ take len cs"
      "BIO_mem_contents bio' = drop len cs" by auto
    then show "low_element max_len all out (BIO_mem_contents bio')" using sound by simp
  next
    assume "False \<notin> set h" "\<exists>out rest. low_element max_len all out rest"
    then show "r \<noteq> None" using b(3) complete by auto
  qed
  with b(1,2) show ?thesis by blast
qed

lemma BIO_read_asn1_reads:
  assumes "mem_inv bio" and "num bio \<le> 0" and "\<not> indefinite (BIO_mem_contents bio)"
  shows "\<exists>r h' bio'. BIO_read_asn1 mem_method max_len h bio e = Some (r, h', bio', e) \<and> mem_inv bio' \<and>
    reads_element max_len h (BIO_mem_contents bio) r (BIO_mem_contents bio')"
proof -
  let ?cs = "BIO_mem_contents bio"
  obtain bio1 where r1: "bio_read_full mem_method 2 bio e = (if 2 \<le> length ?cs then Some (take 2 ?cs) else None, bio1, e)"
    "mem_inv bio1" "num bio1 = num bio" "2 \<le> length ?cs \<longrightarrow> BIO_mem_contents bio1 = drop 2 ?cs"
    using bio_read_full_mem [OF assms(1,2), of 2 e] .
  show ?thesis
  proof (cases "2 \<le> length ?cs")
    case False
    have "\<not> low_element max_len ?cs out rest" for out rest
    proof
      assume "low_element max_len ?cs out rest"
      then obtain b body where "b AND 0x1f \<noteq> 0x1f" "?cs = der (low_tag b) body @ rest" by (auto simp: low_element_def)
      then show False using False der_low_tag [of b] by (cases "der_len (length body)") (auto simp: der_def der_len_def split: if_splits)
    qed
    then show ?thesis using r1 False by (auto simp: BIO_read_asn1_def intro: reads_none)
  next
    case True
    then obtain b l cs where cs: "?cs = b # l # cs" by (cases ?cs; cases "tl ?cs") auto
    have run1: "bio_read_full mem_method 2 bio e = (Some [b, l], bio1, e)" and c1: "BIO_mem_contents bio1 = cs"
      using r1 True cs by simp_all
    note start = BIO_read_asn1_def run1 prod.case option.case nth_Cons_0 One_nat_def nth_Cons_Suc
    consider "b AND 0x1f = 0x1f" | "b AND 0x1f \<noteq> 0x1f" "l AND 0x80 = 0" | "b AND 0x1f \<noteq> 0x1f" "l AND 0x80 \<noteq> 0" by blast
    then show ?thesis
    proof cases
      case 1
      have "\<not> low_element max_len ?cs out rest" for out rest
        unfolding cs using 1 by (auto elim: low_elementD)
      then show ?thesis using 1 r1(2) by (auto simp: start Let_def intro: reads_none)
    next
      case 2
      have "BIO_read_asn1 mem_method max_len h bio e = Some (read_asn1_body mem_method [b, l] (unat l) max_len h bio1 e)"
        using 2 by (simp add: start Let_def)
      moreover have "\<exists>r h' bio'. read_asn1_body mem_method [b, l] (unat l) max_len h bio1 e = (r, h', bio', e) \<and> mem_inv bio' \<and>
          reads_element max_len h ?cs r (BIO_mem_contents bio')"
      proof (rule body_reads)
        show "unat l + length [b, l] \<le> max_len \<and> unat l \<le> INT_MAX \<and> unat l \<le> length cs"
          if "low_element max_len ?cs out rest" for out rest
          using that 2 unfolding cs by (auto elim!: low_elementD)
        show "low_element max_len ?cs ([b, l] @ take (unat l) cs) (drop (unat l) cs)"
          if "unat l + length [b, l] \<le> max_len" "unat l \<le> INT_MAX" "unat l \<le> length cs"
          unfolding cs by (rule low_element_shortI) (use 2 that in simp_all)
      qed (use r1(2,3) assms(2) c1 length_byte_short(1) [OF 2(2)] in simp_all)
      ultimately show ?thesis by auto
    next
      case 3
      define k where "k = unat (l AND 0x7f)"
      have n1: "num bio1 \<le> 0" using r1(3) assms(2) by simp
      have ind: "\<not> (b AND 0x20 \<noteq> 0 \<and> k = 0)"
      proof
        assume i: "b AND 0x20 \<noteq> 0 \<and> k = 0"
        then have "l = 0x80" using length_byte_long [OF 3(2)] by (simp add: k_def)
        with i 3(1) assms(3) cs show False by (auto simp: indefinite_def)
      qed
      have run2: "BIO_read_asn1 mem_method max_len h bio e =
        (if k = 0 \<or> k > 4 then Some (None, h, bio1, e)
         else case bio_read_full mem_method k bio1 e of
           (None, bio, e) \<Rightarrow> Some (None, h, bio, e)
         | (Some octets, bio, e) \<Rightarrow>
             if len32_loop 0 octets < 128 then Some (None, h, bio, e)
             else if drop_bit ((k - 1) * 8) (len32_loop 0 octets) = 0 then Some (None, h, bio, e)
             else Some (read_asn1_body mem_method ([b, l] @ octets) (unat (len32_loop 0 octets)) max_len h bio e))"
        unfolding start Let_def k_def [symmetric] if_not_P [OF ind] if_not_P [OF 3(1)] if_not_P [OF 3(2)] by simp
      show ?thesis
      proof (cases "k = 0 \<or> k > 4 \<or> length cs < k")
        case True
        have no: "\<not> low_element max_len ?cs out rest" for out rest
          unfolding cs using 3 True by (auto simp: k_def elim!: low_elementD)
        obtain bio2 where "bio_read_full mem_method k bio1 e = (if k \<le> length cs then Some (take k cs) else None, bio2, e)"
          "mem_inv bio2" "num bio2 = num bio1" "k \<le> length cs \<longrightarrow> BIO_mem_contents bio2 = drop k cs"
          using bio_read_full_mem [OF r1(2) n1, of k e] unfolding c1 .
        with True r1(2) have "\<exists>bio'. BIO_read_asn1 mem_method max_len h bio e = Some (None, h, bio', e) \<and> mem_inv bio'"
          unfolding run2 by auto
        then show ?thesis using reads_none [OF no] by blast
      next
        case False
        define octets where "octets = take k cs"
        define v where "v = be_val octets"
        have k: "length octets = k" "1 \<le> k" "k \<le> 4" "cs = octets @ drop k cs" using False by (auto simp: octets_def)
        have v: "unat (len32_loop 0 octets) = v" "v < 2 ^ 32" using len32_loop_val [of octets] k by (simp_all add: v_def)
        obtain bio2 where raw: "bio_read_full mem_method k bio1 e = (if k \<le> length cs then Some (take k cs) else None, bio2, e)"
          "mem_inv bio2" "num bio2 = num bio1" "k \<le> length cs \<longrightarrow> BIO_mem_contents bio2 = drop k cs"
          using bio_read_full_mem [OF r1(2) n1, of k e] unfolding c1 .
        have "k \<le> length cs" using False by simp
        with raw n1 have r2: "bio_read_full mem_method k bio1 e = (Some octets, bio2, e)"
          "mem_inv bio2" "num bio2 \<le> 0" "BIO_mem_contents bio2 = drop k cs" by (simp_all add: octets_def)
        have t: "len32_loop 0 octets < 128 \<longleftrightarrow> v < 128" "drop_bit ((k - 1) * 8) (len32_loop 0 octets) = 0 \<longleftrightarrow> v < 256 ^ (k - 1)"
          using v(1) unfolding drop_len32 by (simp_all add: word_less_nat_alt)
        have run3: "BIO_read_asn1 mem_method max_len h bio e =
          (if v < 128 \<or> v < 256 ^ (k - 1) then Some (None, h, bio2, e)
           else Some (read_asn1_body mem_method ([b, l] @ octets) v max_len h bio2 e))"
          unfolding run2 r2(1) prod.case option.case t v(1) using False by simp
        have D: "128 \<le> v \<and> 256 ^ (k - 1) \<le> v \<and> v \<le> INT_MAX \<and> v + (2 + k) \<le> max_len \<and> v \<le> length (drop k cs)"
          if "low_element max_len ?cs out rest" for out rest
          using that unfolding cs
        proof (cases rule: low_elementD)
          case (long octets' body)
          then have "octets' = octets" by (simp add: octets_def k_def)
          with long k(1) show ?thesis by (simp add: v_def k_def)
        qed (use 3 in simp)
        show ?thesis
        proof (cases "v < 128 \<or> v < 256 ^ (k - 1)")
          case True
          have "\<not> low_element max_len ?cs out rest" for out rest using D [of out rest] True by auto
          then show ?thesis using True r2(2) reads_none unfolding run3 by auto
        next
          case small: False
          have "\<exists>r h' bio'. read_asn1_body mem_method ([b, l] @ octets) v max_len h bio2 e = (r, h', bio', e) \<and> mem_inv bio' \<and>
              reads_element max_len h ?cs r (BIO_mem_contents bio')"
          proof (rule body_reads)
            show "v + length ([b, l] @ octets) \<le> max_len \<and> v \<le> INT_MAX \<and> v \<le> length (drop k cs)"
              if "low_element max_len ?cs out rest" for out rest using D [OF that] k(1) by simp
            show "low_element max_len ?cs (([b, l] @ octets) @ take v (drop k cs)) (drop v (drop k cs))"
              if "v + length ([b, l] @ octets) \<le> max_len" "v \<le> INT_MAX" "v \<le> length (drop k cs)"
              using low_element_longI [of b l octets "drop k cs" max_len] 3 k small that
              unfolding cs by (simp add: v_def k_def)
          qed (use r2(2-4) k v(2) in simp_all)
          then show ?thesis unfolding run3 using small by auto
        qed
      qed
    qed
  qed
qed

section \<open>The rest of a memory BIO\<close>

lemma int_of_size_small: "n \<le> 8192 \<Longrightarrow> int_of_size n = int n"
  by (rule int_of_size_exact) (simp add: INT_MAX_def)

definition reads_rest :: "nat \<Rightarrow> heap \<Rightarrow> byte list \<Rightarrow> byte list option \<Rightarrow> byte list \<Rightarrow> bool" where
  "reads_rest max_len h cs r cs' \<longleftrightarrow>
     (\<forall>out. r = Some out \<longrightarrow> out = cs \<and> length out < max_len \<and> cs' = []) \<and>
     (False \<notin> set h \<longrightarrow> length cs < max_len \<longrightarrow> r \<noteq> None)"

lemma reads_rest_none: "False \<in> set h \<or> max_len \<le> length cs \<Longrightarrow> reads_rest max_len h cs None cs'"
  by (auto simp: reads_rest_def)

lemma read_all_loop_mem:
  assumes "mem_inv bio" and "num bio = 0" and "length buf \<le> len" and "len \<le> max_len" and "max_len < 2 ^ 63"
    and "len - length buf \<le> 8192" and "length buf < len \<or> len = max_len"
  shows "\<exists>r h' bio'. read_all_loop mem_method max_len len buf h bio e = Some (r, h', bio', e) \<and> mem_inv bio' \<and>
    reads_rest max_len h (buf @ BIO_mem_contents bio) r (BIO_mem_contents bio')"
  using assms
proof (induction "length (BIO_mem_contents bio)" arbitrary: bio buf len h rule: less_induct)
  case less
  let ?c = "BIO_mem_contents bio" and ?todo = "len - length buf"
  note step = read_all_loop.simps [of mem_method max_len len buf h bio e]
  show ?case
  proof (cases "length buf = len")
    case True
    then show ?thesis using less.prems unfolding step by (auto intro: reads_rest_none)
  next
    case False
    then have todo: "0 < ?todo" "?todo \<le> INT_MAX" "int_of_size ?todo = int ?todo"
      using less.prems(3,6) int_of_size_small [of ?todo] by (simp_all add: INT_MAX_def)
    obtain bio1 where r: "BIO_read mem_method (int ?todo) bio e =
        (if ?c = [] then num bio else int (min ?todo (length ?c)), take ?todo ?c, bio1, e)"
      "mem_inv bio1" "BIO_mem_contents bio1 = drop ?todo ?c" "num bio1 = num bio"
      using BIO_read_mem [OF less.prems(1) todo(1,2), of e] .
    show ?thesis
    proof (cases "?c = []")
      case True
      then have "read_all_loop mem_method max_len len buf h bio e = Some (Some buf, h, bio1, e)"
        unfolding step Let_def todo(3) r(1) using False less.prems(2) by simp
      moreover have "length buf < max_len" using False less.prems(3,4) by simp
      ultimately show ?thesis using True r(2,3) by (auto simp: reads_rest_def)
    next
      case c: False
      define buf1 where "buf1 = buf @ take ?todo ?c"
      have n: "0 < min ?todo (length ?c)" using todo(1) c by simp
      have all: "buf1 @ BIO_mem_contents bio1 = buf @ ?c" unfolding buf1_def r(3) by simp
      have l1: "length buf < length buf1" "length buf1 \<le> len"
        using n less.prems(3) False unfolding buf1_def by simp_all
      have "0 < length ?c" using c by simp
      with todo(1) have l2: "length (BIO_mem_contents bio1) < length ?c" unfolding r(3) length_drop by linarith
      define m where "m = min ?todo (length ?c)"
      have mv: "moved buf (int m) (take ?todo ?c) = Some buf1" and m: "m \<noteq> 0"
        using n by (simp_all add: moved_def buf1_def m_def)
      define len1 where "len1 = (if size_add len kChunkSize < kChunkSize \<or> size_add len kChunkSize > max_len then max_len else size_add len kChunkSize)"
      have half: "kChunkSize div 2 = 2048" by (simp add: kChunkSize_def)
      have run: "read_all_loop mem_method max_len len buf h bio e =
        (if len < max_len \<and> len - length buf1 < 2048
         then (case heap_alloc h of (ok, h) \<Rightarrow> if ok then read_all_loop mem_method max_len len1 buf1 h bio1 e else Some (None, h, bio1, e))
         else read_all_loop mem_method max_len len buf1 h bio1 e)"
        unfolding step Let_def todo(3) r(1) prod.case if_not_P [OF c] if_not_P [OF False] m_def [symmetric] mv half len1_def [symmetric]
        using m by simp
      show ?thesis
      proof (cases "len < max_len \<and> len - length buf1 < 2048")
        case True
        obtain ok h1 where h: "heap_alloc h = (ok, h1)" by (cases "heap_alloc h")
        have s: "size_add len 4096 = len + 4096" using less.prems(4,5) by simp
        have len1: "len1 \<le> max_len" "length buf1 < len1" "len1 - length buf1 \<le> 8192"
          using True l1(2) unfolding len1_def kChunkSize_def s by (auto split: if_splits)
        show ?thesis
        proof (cases ok)
          case True
          obtain r' h' bio' where i: "read_all_loop mem_method max_len len1 buf1 h1 bio1 e = Some (r', h', bio', e)"
            "mem_inv bio'" "reads_rest max_len h1 (buf1 @ BIO_mem_contents bio1) r' (BIO_mem_contents bio')"
            using less.hyps [OF l2 r(2), of buf1 len1 h1] r(4) less.prems(2,5) len1 by auto
          have "False \<notin> set h \<Longrightarrow> False \<notin> set h1" using heap_alloc_outcome [OF _ h] by blast
          then have "reads_rest max_len h (buf @ ?c) r' (BIO_mem_contents bio')" using i(3) unfolding all reads_rest_def by blast
          with i(1,2) True h \<open>len < max_len \<and> len - length buf1 < 2048\<close> show ?thesis unfolding run by simp
        next
          case bad: False
          then have "False \<in> set h" using heap_alloc_outcome [OF _ h] by blast
          then show ?thesis unfolding run using True h bad r(2) by (simp add: reads_rest_none)
        qed
      next
        case False
        have "length buf1 < len \<or> len = max_len" using False l1(2) less.prems(4) by linarith
        moreover have "len - length buf1 \<le> 8192" using less.prems(6) l1(1) by linarith
        ultimately obtain r' h' bio' where i: "read_all_loop mem_method max_len len buf1 h bio1 e = Some (r', h', bio', e)"
          "mem_inv bio'" "reads_rest max_len h (buf1 @ BIO_mem_contents bio1) r' (BIO_mem_contents bio')"
          using less.hyps [OF l2 r(2), of buf1 len h] r(4) less.prems(2,4,5) l1 by auto
        then show ?thesis unfolding run if_not_P [OF False] all by blast
      qed
    qed
  qed
qed

lemma bio_read_all_mem:
  assumes "mem_inv bio" and "num bio = 0" and "max_len < 2 ^ 63" and "length prefix \<le> 2"
  shows "\<exists>r h' bio'. bio_read_all mem_method prefix max_len h bio e = Some (r, h', bio', e) \<and> mem_inv bio' \<and>
    reads_rest max_len h (prefix @ BIO_mem_contents bio) r (BIO_mem_contents bio')"
proof -
  define len where "len = (if length prefix + 4096 > max_len then max_len else length prefix + 4096)"
  have s: "size_add (length prefix) 4096 = length prefix + 4096" using assms(4) by simp
  obtain ok h1 where h: "heap_alloc h = (ok, h1)" by (cases "heap_alloc h")
  have run: "bio_read_all mem_method prefix max_len h bio e =
    (if len < length prefix then Some (None, h, bio, e)
     else if ok then read_all_loop mem_method max_len len prefix h1 bio e else Some (None, h1, bio, e))"
    unfolding bio_read_all_def kChunkSize_def s Let_def len_def [symmetric] h by simp
  consider "len < length prefix" | "length prefix \<le> len" "\<not> ok" | "length prefix \<le> len" ok by linarith
  then show ?thesis
  proof cases
    case 1
    then have "max_len \<le> length prefix" by (auto simp: len_def split: if_splits)
    then show ?thesis using 1 assms(1) unfolding run by (auto intro: reads_rest_none)
  next
    case 2
    then have "False \<in> set h" using heap_alloc_outcome [OF _ h] by blast
    then show ?thesis using 2 assms(1) unfolding run by (auto intro: reads_rest_none)
  next
    case 3
    have "len \<le> max_len" "len - length prefix \<le> 8192" "length prefix < len \<or> len = max_len"
      using 3(1) by (auto simp: len_def split: if_splits)
    from read_all_loop_mem [OF assms(1,2) 3(1) this(1) assms(3) this(2,3), of h1 e] obtain r h' bio' where
      i: "read_all_loop mem_method max_len len prefix h1 bio e = Some (r, h', bio', e)" "mem_inv bio'"
      "reads_rest max_len h1 (prefix @ BIO_mem_contents bio) r (BIO_mem_contents bio')" by blast
    have "False \<notin> set h \<Longrightarrow> False \<notin> set h1" using heap_alloc_outcome [OF _ h] by blast
    then have "reads_rest max_len h (prefix @ BIO_mem_contents bio) r (BIO_mem_contents bio')" using i(3) unfolding reads_rest_def by blast
    with i 3 show ?thesis unfolding run by auto
  qed
qed

lemma BIO_read_asn1_rest:
  assumes "mem_inv bio" and "num bio = 0" and "max_len < 2 ^ 63" and "indefinite (BIO_mem_contents bio)"
  shows "\<exists>r h' bio'. BIO_read_asn1 mem_method max_len h bio e = Some (r, h', bio', e) \<and> mem_inv bio' \<and>
    reads_rest max_len h (BIO_mem_contents bio) r (BIO_mem_contents bio')"
proof -
  obtain b rest where cs: "BIO_mem_contents bio = b # 0x80 # rest" "b AND 0x1f \<noteq> 0x1f" "b AND 0x20 \<noteq> 0"
    using assms(4) by (auto simp: indefinite_def)
  have n: "num bio \<le> 0" using assms(2) by simp
  obtain bio1 where r1: "bio_read_full mem_method 2 bio e =
      (if 2 \<le> length (BIO_mem_contents bio) then Some (take 2 (BIO_mem_contents bio)) else None, bio1, e)"
    "mem_inv bio1" "num bio1 = num bio" "2 \<le> length (BIO_mem_contents bio) \<longrightarrow> BIO_mem_contents bio1 = drop 2 (BIO_mem_contents bio)"
    using bio_read_full_mem [OF assms(1) n, of 2 e] .
  have run: "BIO_read_asn1 mem_method max_len h bio e = bio_read_all mem_method [b, 0x80] max_len h bio1 e"
    using r1(1) cs by (simp add: BIO_read_asn1_def Let_def)
  from r1(3) assms(2) have "num bio1 = 0" by simp
  from bio_read_all_mem [OF r1(2) this assms(3), of "[b, 0x80]" h e] show ?thesis
    using r1(4) cs(1) unfolding run by simp
qed

text \<open>What is read is an element for the DER reader as well.\<close>

lemma low_element_CBS:
  assumes "low_element max_len cs out rest"
  shows "\<exists>tag body. CBS_get_any_asn1 cs = (Some (body, tag), rest) \<and> out = der tag body"
proof -
  obtain b body where "length body \<le> INT_MAX" "out = der (low_tag b) body" "cs = out @ rest"
    using assms by (auto simp: low_element_def)
  then show ?thesis using der_codec.get_put [of "(body, low_tag b)" rest] by (auto simp: INT_MAX_def)
qed

text \<open>A method that reports the end with -3 moves the position in front of the block.\<close>

lemmas [code] = read_all_loop.simps

lemma read_all_leaves_block:
  "BIO_read_asn1 mem_method 100 []
     \<lparr>init = True, shutdown = 1, flags = 0, retry_reason = 0, num = - 3, num_read = 0, num_write = 0,
       ptr = Some \<lparr>data = [0x30, 0x80], passed = [], max_size = 2\<rparr>\<rparr> [] = None"
  by code_simp


text \<open>An OCTET STRING in front of another byte.\<close>

definition octets_bio :: mem_bio where
  "octets_bio = \<lparr>init = True, shutdown = 1, flags = 0, retry_reason = 0, num = - 1, num_read = 0, num_write = 0,
     ptr = Some \<lparr>data = [4, 1, 0xaa, 0xbb], passed = [], max_size = 4\<rparr>\<rparr>"

lemma octets_bio_reads:
  "map_option (\<lambda>(r, h, bio, e). (r, BIO_mem_contents bio)) (BIO_read_asn1 mem_method 10 [] octets_bio []) =
    Some (Some [4, 1, 0xaa], [0xbb])"
  by code_simp


end
