(* ===== verification/Bio_Pair.thy ===== *)
theory Bio_Pair
  imports Bio
begin

text \<open>
  The BIO pair of \<open>crypto/bio/pair.c\<close>: two BIOs, each with a ring buffer for what it writes, which
  the other one reads.

  The environment of a call on one BIO is the other one.  The loops that copy a chunk up to the end
  of the ring and go round would never end on a ring without room; the environment \<open>None\<close> stands
  for a call that does not return.
\<close>

section \<open>State\<close>

record bio_bio =
  peer :: bool \<comment> \<open>whether the pointer to the other BIO is set\<close>
  closed :: bool
  len :: nat
  offset :: nat
  bsize :: nat
  ring :: "byte list option"
  request :: nat

record pair_bio = bio +
  bptr :: bio_bio

section \<open>Operations\<close>

definition bio_new :: "pair_bio \<Rightarrow> heap \<Rightarrow> bool \<times> pair_bio \<times> heap" where
  "bio_new bio h =
     (case heap_alloc h of
        (False, h) \<Rightarrow> (False, bio, h)
      | (True, h) \<Rightarrow>
          (True, bio\<lparr>bptr := \<lparr>peer = False, closed = False, len = 0, offset = 0, bsize = 17 * 1024, ring = None, request = 0\<rparr>\<rparr>, h))"

definition bio_destroy_pair :: "pair_bio \<Rightarrow> pair_bio \<Rightarrow> pair_bio \<times> pair_bio" where
  "bio_destroy_pair bio peer_bio =
     (if \<not> peer (bptr bio) then (bio, peer_bio)
      else let peer_bio = peer_bio\<lparr>bptr := (bptr peer_bio)\<lparr>peer := False\<rparr>, init := False\<rparr>;
               peer_bio = peer_bio\<lparr>bptr := (bptr peer_bio)\<lparr>len := 0, offset := 0\<rparr>\<rparr>;
               bio = bio\<lparr>bptr := (bptr bio)\<lparr>peer := False\<rparr>, init := False\<rparr>;
               bio = bio\<lparr>bptr := (bptr bio)\<lparr>len := 0, offset := 0\<rparr>\<rparr>
           in (bio, peer_bio))"

text \<open>What \<open>bio_free\<close> leaves of the other BIO.\<close>

definition bio_free :: "pair_bio \<Rightarrow> pair_bio \<Rightarrow> int \<times> pair_bio" where
  "bio_free bio peer_bio =
     (1, if peer (bptr bio) then snd (bio_destroy_pair bio peer_bio) else peer_bio)"

text \<open>The copying loop of \<open>bio_read\<close>: the bytes copied so far come last.\<close>

partial_function (option) read_loop :: "nat \<Rightarrow> bio_bio \<Rightarrow> byte list \<Rightarrow> (byte list \<times> bio_bio) option" where
  "read_loop rest peer_b out =
     (let chunk = (if size_add (offset peer_b) rest \<le> bsize peer_b then rest else bsize peer_b - offset peer_b);
          out = out @ take chunk (drop (offset peer_b) (the (ring peer_b)));
          left = len peer_b - chunk;
          next_offset = (if left \<noteq> 0
                         then if offset peer_b + chunk = bsize peer_b then 0 else offset peer_b + chunk
                         else 0);
          peer_b = peer_b\<lparr>len := left, offset := next_offset\<rparr>
      in if rest - chunk \<noteq> 0 then read_loop (rest - chunk) peer_b out else Some (out, peer_b))"

definition bio_read :: "int \<Rightarrow> pair_bio \<Rightarrow> pair_bio option \<Rightarrow> int \<times> byte list \<times> pair_bio \<times> pair_bio option" where
  "bio_read outl bio e =
     (case e of
        None \<Rightarrow> (0, [], bio, None)
      | Some peer_bio \<Rightarrow>
          let bio = BIO_clear_retry_flags bio; sz = nat outl
          in if \<not> init bio then (0, [], bio, e)
             else let peer_b = (bptr peer_bio)\<lparr>request := 0\<rparr>
                  in if sz = 0 then (0, [], bio, Some (peer_bio\<lparr>bptr := peer_b\<rparr>))
                     else if len peer_b = 0
                     then if closed peer_b then (0, [], bio, Some (peer_bio\<lparr>bptr := peer_b\<rparr>))
                          else (- 1, [], BIO_set_retry_read bio,
                                Some (peer_bio\<lparr>bptr := peer_b\<lparr>request := (if sz \<le> bsize peer_b then sz else bsize peer_b)\<rparr>\<rparr>))
                     else let sz = (if len peer_b < sz then len peer_b else sz)
                          in case read_loop sz peer_b [] of
                               None \<Rightarrow> (0, [], bio, None)
                             | Some (out, peer_b) \<Rightarrow> (int sz, out, bio, Some (peer_bio\<lparr>bptr := peer_b\<rparr>)))"

partial_function (option) write_loop :: "nat \<Rightarrow> bio_bio \<Rightarrow> byte list \<Rightarrow> bio_bio option" where
  "write_loop rest b bs =
     (let write_offset = size_add (offset b) (len b);
          write_offset = (if write_offset \<ge> bsize b then write_offset - bsize b else write_offset);
          chunk = (if size_add write_offset rest \<le> bsize b then rest else bsize b - write_offset);
          b = b\<lparr>ring := Some (take write_offset (the (ring b)) @ take chunk bs @ drop (write_offset + chunk) (the (ring b))),
                len := len b + chunk\<rparr>
      in if rest - chunk \<noteq> 0 then write_loop (rest - chunk) b (drop chunk bs) else Some b)"

definition bio_write :: "byte list \<Rightarrow> pair_bio \<Rightarrow> pair_bio option \<Rightarrow> int \<times> pair_bio \<times> pair_bio option" where
  "bio_write bs bio e =
     (let bio = BIO_clear_retry_flags bio; n = length bs
      in if \<not> init bio \<or> n = 0 then (0, bio, e)
         else let b = (bptr bio)\<lparr>request := 0\<rparr>; bio = bio\<lparr>bptr := b\<rparr>
              in if closed b then (- 1, bio, e)
                 else if len b = bsize b then (- 1, BIO_set_retry_write bio, e)
                 else let n = (if n > bsize b - len b then bsize b - len b else n)
                      in case write_loop n b bs of
                           None \<Rightarrow> (0, bio, None)
                         | Some b \<Rightarrow> (int n, bio\<lparr>bptr := b\<rparr>, e))"

text \<open>The bytes a fresh block holds are not specified; they are zeros here, and never read.\<close>

definition alloc_ring :: "bio_bio \<Rightarrow> nat \<Rightarrow> heap \<Rightarrow> bool \<times> bio_bio \<times> heap" where
  "alloc_ring b writebuf_len h =
     (if ring b = None
      then let b = (if writebuf_len \<noteq> 0 then b\<lparr>bsize := writebuf_len\<rparr> else b)
           in case heap_alloc h of
                (False, h) \<Rightarrow> (False, b, h)
              | (True, h) \<Rightarrow> (True, b\<lparr>ring := Some (replicate (bsize b) 0), len := 0, offset := 0\<rparr>, h)
      else (True, b, h))"

definition bio_make_pair :: "pair_bio \<Rightarrow> pair_bio \<Rightarrow> nat \<Rightarrow> nat \<Rightarrow> heap \<Rightarrow> bool \<times> pair_bio \<times> pair_bio \<times> heap" where
  "bio_make_pair bio1 bio2 writebuf1_len writebuf2_len h =
     (if peer (bptr bio1) \<or> peer (bptr bio2) then (False, bio1, bio2, h)
      else case alloc_ring (bptr bio1) writebuf1_len h of
             (False, b1, h) \<Rightarrow> (False, bio1\<lparr>bptr := b1\<rparr>, bio2, h)
           | (True, b1, h) \<Rightarrow>
               (case alloc_ring (bptr bio2) writebuf2_len h of
                  (False, b2, h) \<Rightarrow> (False, bio1\<lparr>bptr := b1\<rparr>, bio2\<lparr>bptr := b2\<rparr>, h)
                | (True, b2, h) \<Rightarrow>
                    (True,
                     bio1\<lparr>bptr := b1\<lparr>peer := True, closed := False, request := 0\<rparr>, init := True\<rparr>,
                     bio2\<lparr>bptr := b2\<lparr>peer := True, closed := False, request := 0\<rparr>, init := True\<rparr>, h)))"

text \<open>The argument \<open>ptr\<close> of \<open>BIO_CTRL_EOF\<close> is a BIO of a pair.\<close>

definition bio_ctrl ::
  "int \<Rightarrow> int \<Rightarrow> pair_bio option \<Rightarrow> pair_bio \<Rightarrow> pair_bio option \<Rightarrow> int \<times> pair_bio \<times> pair_bio option" where
  "bio_ctrl cmd larg p bio e =
     (let b = bptr bio
      in if cmd = BIO_C_GET_WRITE_BUF_SIZE then (int (bsize b), bio, e)
         else if cmd = BIO_C_GET_WRITE_GUARANTEE
         then (if \<not> peer b \<or> closed b then 0 else int (bsize b) - int (len b), bio, e)
         else if cmd = BIO_C_GET_READ_REQUEST then (int (request b), bio, e)
         else if cmd = BIO_C_RESET_READ_REQUEST then (1, bio\<lparr>bptr := b\<lparr>request := 0\<rparr>\<rparr>, e)
         else if cmd = BIO_C_SHUTDOWN_WR then (1, bio\<lparr>bptr := b\<lparr>closed := True\<rparr>\<rparr>, e)
         else if cmd = BIO_CTRL_GET_CLOSE then (shutdown bio, bio, e)
         else if cmd = BIO_CTRL_SET_CLOSE then (1, bio\<lparr>shutdown := sint (word_of_int larg :: u32)\<rparr>, e)
         else if cmd = BIO_CTRL_PENDING
         then (if peer b then (case e of None \<Rightarrow> 0 | Some peer_bio \<Rightarrow> int (len (bptr peer_bio))) else 0, bio, e)
         else if cmd = BIO_CTRL_WPENDING then (if ring b \<noteq> None then int (len b) else 0, bio, e)
         else if cmd = BIO_CTRL_FLUSH then (1, bio, e)
         else if cmd = BIO_CTRL_EOF
         then (case p of
                 None \<Rightarrow> 1
               | Some other \<Rightarrow> (if len (bptr other) = 0 \<and> closed (bptr other) then 1 else 0), bio, e)
         else (0, bio, e))"

definition methods_biop :: "(pair_bio, pair_bio option, pair_bio) bio_method" where
  "methods_biop = \<lparr>bwrite = Some bio_write, bread = Some bio_read, bgets = None, ctrl = Some bio_ctrl\<rparr>"

definition no_bio_bio :: bio_bio where
  "no_bio_bio = \<lparr>peer = False, closed = False, len = 0, offset = 0, bsize = 0, ring = None, request = 0\<rparr>"

definition BIO_new_bio_pair :: "nat \<Rightarrow> nat \<Rightarrow> heap \<Rightarrow> (pair_bio \<times> pair_bio) option \<times> heap" where
  "BIO_new_bio_pair writebuf1_len writebuf2_len h =
     (let (bio1, h) = BIO_new (Some bio_new) \<lparr>bptr = no_bio_bio\<rparr> h;
          (bio2, h) = BIO_new (Some bio_new) \<lparr>bptr = no_bio_bio\<rparr> h
      in case (bio1, bio2) of
           (Some bio1, Some bio2) \<Rightarrow>
             (case bio_make_pair bio1 bio2 writebuf1_len writebuf2_len h of
                (ok, bio1, bio2, h) \<Rightarrow> (if ok then Some (bio1, bio2) else None, h))
         | _ \<Rightarrow> (None, h))"

definition BIO_ctrl_get_read_request :: "pair_bio \<Rightarrow> pair_bio option \<Rightarrow> nat" where
  "BIO_ctrl_get_read_request bio e = nat (fst (BIO_ctrl methods_biop BIO_C_GET_READ_REQUEST 0 None bio e))"

definition BIO_ctrl_get_write_guarantee :: "pair_bio \<Rightarrow> pair_bio option \<Rightarrow> nat" where
  "BIO_ctrl_get_write_guarantee bio e = nat (fst (BIO_ctrl methods_biop BIO_C_GET_WRITE_GUARANTEE 0 None bio e))"

definition BIO_shutdown_wr :: "pair_bio \<Rightarrow> pair_bio option \<Rightarrow> int \<times> pair_bio \<times> pair_bio option" where
  "BIO_shutdown_wr bio e = BIO_ctrl methods_biop BIO_C_SHUTDOWN_WR 0 None bio e"

section \<open>The ring\<close>

definition ring_bytes :: "bio_bio \<Rightarrow> byte list" where
  "ring_bytes b = map (\<lambda>i. the (ring b) ! ((offset b + i) mod bsize b)) [0..<len b]"

definition ring_inv :: "bio_bio \<Rightarrow> bool" where
  "ring_inv b \<longleftrightarrow> (\<exists>buf. ring b = Some buf \<and> length buf = bsize b) \<and> 0 < bsize b \<and> bsize b < 2 ^ 63 \<and>
     len b \<le> bsize b \<and> offset b < bsize b \<and> (len b = 0 \<longrightarrow> offset b = 0)"

lemma length_ring_bytes [simp]: "length (ring_bytes b) = len b"
  by (simp add: ring_bytes_def)

lemma nth_ring_bytes: "i < len b \<Longrightarrow> ring_bytes b ! i = the (ring b) ! ((offset b + i) mod bsize b)"
  by (simp add: ring_bytes_def)

lemma ring_bytes_request [simp]:
  "ring_bytes (b\<lparr>request := r\<rparr>) = ring_bytes b" "ring_bytes (b\<lparr>closed := c\<rparr>) = ring_bytes b"
  "ring_inv (b\<lparr>request := r\<rparr>) = ring_inv b" "ring_inv (b\<lparr>closed := c\<rparr>) = ring_inv b"
  by (simp_all add: ring_bytes_def ring_inv_def)

text \<open>Taking a chunk that does not reach round the end.\<close>

lemma take_chunk:
  assumes "ring_inv b" and "chunk \<le> len b" and "offset b + chunk \<le> bsize b"
  shows "take chunk (drop (offset b) (the (ring b))) = take chunk (ring_bytes b)"
proof (rule nth_equalityI)
  show l: "length (take chunk (drop (offset b) (the (ring b)))) = length (take chunk (ring_bytes b))"
    using assms by (auto simp: ring_inv_def)
  fix i assume "i < length (take chunk (drop (offset b) (the (ring b))))"
  then show "take chunk (drop (offset b) (the (ring b))) ! i = take chunk (ring_bytes b) ! i"
    using assms by (auto simp: ring_inv_def nth_ring_bytes)
qed

lemma drop_chunk:
  assumes "ring_inv b" and "chunk \<le> len b" and "offset b + chunk \<le> bsize b"
    and "b' = b\<lparr>len := len b - chunk,
      offset := (if len b - chunk \<noteq> 0 then if offset b + chunk = bsize b then 0 else offset b + chunk else 0)\<rparr>"
  shows "ring_inv b'" and "ring_bytes b' = drop chunk (ring_bytes b)"
proof -
  show "ring_inv b'" using assms by (auto simp: ring_inv_def)
  show "ring_bytes b' = drop chunk (ring_bytes b)"
  proof (rule nth_equalityI)
    show "length (ring_bytes b') = length (drop chunk (ring_bytes b))" using assms by simp
    fix i assume "i < length (ring_bytes b')"
    then have i: "i < len b - chunk" using assms(4) by simp
    have "offset b' = (offset b + chunk) mod bsize b"
      using assms i by (auto simp: ring_inv_def)
    then have "(offset b' + i) mod bsize b = (offset b + (chunk + i)) mod bsize b"
      by (simp add: mod_add_left_eq add.assoc)
    then show "ring_bytes b' ! i = drop chunk (ring_bytes b) ! i"
      using i assms(2,4) by (simp add: nth_ring_bytes)
  qed
qed

text \<open>The copying loop of a read ends and takes the next bytes of the ring.\<close>

lemma read_loop_eq:
  assumes "ring_inv b" and "0 < rest" and "rest \<le> len b"
  shows "\<exists>b'. read_loop rest b out = Some (out @ take rest (ring_bytes b), b') \<and> ring_inv b' \<and>
    ring_bytes b' = drop rest (ring_bytes b) \<and> closed b' = closed b \<and> bsize b' = bsize b \<and> request b' = request b \<and>
    peer b' = peer b"
  using assms
proof (induction rest arbitrary: b out rule: less_induct)
  case (less rest)
  define chunk where "chunk = (if offset b + rest \<le> bsize b then rest else bsize b - offset b)"
  have I: "len b \<le> bsize b" "offset b < bsize b" "bsize b < 2 ^ 63" using less.prems(1) by (auto simp: ring_inv_def)
  then have "size_add (offset b) rest = offset b + rest" using less.prems(3) by simp
  then have c: "(if size_add (offset b) rest \<le> bsize b then rest else bsize b - offset b) = chunk"
    by (simp add: chunk_def)
  have chunk: "0 < chunk" "chunk \<le> rest" "offset b + chunk \<le> bsize b" "chunk \<le> len b"
    using less.prems I by (auto simp: chunk_def)
  define b1 where "b1 = b\<lparr>len := len b - chunk,
      offset := (if len b - chunk \<noteq> 0 then if offset b + chunk = bsize b then 0 else offset b + chunk else 0)\<rparr>"
  note D = drop_chunk [OF less.prems(1) chunk(4,3) b1_def]
  note T = take_chunk [OF less.prems(1) chunk(4,3)]
  have e: "read_loop rest b out = (if rest - chunk \<noteq> 0 then read_loop (rest - chunk) b1 (out @ take chunk (ring_bytes b))
      else Some (out @ take chunk (ring_bytes b), b1))"
    by (subst read_loop.simps) (simp only: Let_def c T b1_def)
  have same: "closed b1 = closed b" "bsize b1 = bsize b" "request b1 = request b" "peer b1 = peer b" "len b1 = len b - chunk"
    by (simp_all add: b1_def)
  show ?case
  proof (cases "rest - chunk = 0")
    case True
    then have "chunk = rest" using chunk(2) by simp
    then show ?thesis using e D same True by simp
  next
    case False
    obtain b' where b': "read_loop (rest - chunk) b1 (out @ take chunk (ring_bytes b)) =
        Some ((out @ take chunk (ring_bytes b)) @ take (rest - chunk) (ring_bytes b1), b')" "ring_inv b'"
      "ring_bytes b' = drop (rest - chunk) (ring_bytes b1)" "closed b' = closed b1" "bsize b' = bsize b1" "request b' = request b1"
      "peer b' = peer b1"
      using less.IH [of "rest - chunk" b1 "out @ take chunk (ring_bytes b)"] D(1) False chunk less.prems same
      by force
    have "take chunk xs @ take (rest - chunk) (drop chunk xs) = take rest xs" for xs :: "byte list"
      using chunk(2) take_add [of chunk "rest - chunk" xs] by simp
    then show ?thesis using e b' D(2) same False chunk(2) by (simp add: add.commute)
  qed
qed


text \<open>Positions less than a turn apart are different places of the ring.\<close>

lemma mod_diff_less: "(a + x) mod n = (a + y) mod n \<Longrightarrow> x < y \<Longrightarrow> y - x < n \<Longrightarrow> False" for a x y n :: nat
proof -
  assume "(a + x) mod n = (a + y) mod n" and l: "x < y" "y - x < n"
  then have "n dvd (a + y) - (a + x)" using mod_eq_dvd_iff_nat [of "a + x" "a + y" n] by simp
  then have "n dvd y - x" by simp
  with l show False using nat_dvd_not_less by auto
qed

lemma put_chunk:
  assumes "ring_inv b" and "chunk \<le> length bs" and "len b + chunk \<le> bsize b"
    and "w = (if offset b + len b \<ge> bsize b then offset b + len b - bsize b else offset b + len b)" and "w + chunk \<le> bsize b"
    and "b' = b\<lparr>ring := Some (take w (the (ring b)) @ take chunk bs @ drop (w + chunk) (the (ring b))), len := len b + chunk\<rparr>"
    and "0 < chunk"
  shows "ring_inv b'" and "ring_bytes b' = ring_bytes b @ take chunk bs"
proof -
  obtain buf where buf: "ring b = Some buf" "length buf = bsize b" using assms(1) by (auto simp: ring_inv_def)
  let ?buf = "take w buf @ take chunk bs @ drop (w + chunk) buf"
  have b': "ring b' = Some ?buf" "offset b' = offset b" "bsize b' = bsize b" "len b' = len b + chunk"
    using assms(6) buf by simp_all
  have l: "length ?buf = bsize b" using assms(2,5) buf by simp
  show "ring_inv b'" using assms(1,3) b' l \<open>0 < chunk\<close> by (auto simp: ring_inv_def)
  have off: "offset b < bsize b" "len b \<le> bsize b" using assms(1) by (auto simp: ring_inv_def)
  have w: "w = (offset b + len b) mod bsize b"
    using assms(4) off by (auto simp: le_mod_geq)
  have nth: "?buf ! i = (if w \<le> i \<and> i < w + chunk then bs ! (i - w) else buf ! i)" if "i < bsize b" for i
  proof -
    have wl: "length (take w buf) = w" "length (take chunk bs) = chunk" "min (length bs) chunk = chunk"
      using assms(2,5) buf by auto
    consider "i < w" | "w \<le> i" "i - w < chunk" "i < w + chunk" | "w + chunk \<le> i" "\<not> i - w < chunk" "\<not> i < w"
      by linarith
    then show ?thesis
      using that buf assms(2,5) by cases (auto simp: nth_append wl)
  qed
  show "ring_bytes b' = ring_bytes b @ take chunk bs"
  proof (rule nth_equalityI)
    show "length (ring_bytes b') = length (ring_bytes b @ take chunk bs)" using b' assms(2) by simp
    fix i assume "i < length (ring_bytes b')"
    then have i: "i < len b + chunk" using b' by simp
    define j where "j = (offset b + i) mod bsize b"
    have j: "j < bsize b" using off by (simp add: j_def)
    have lhs: "ring_bytes b' ! i = ?buf ! j" using i b' by (simp add: nth_ring_bytes j_def)
    show "ring_bytes b' ! i = (ring_bytes b @ take chunk bs) ! i"
    proof (cases "i < len b")
      case True
      have "\<not> (w \<le> j \<and> j < w + chunk)"
      proof
        assume a: "w \<le> j \<and> j < w + chunk"
        define k where "k = j - w"
        have k: "k < chunk" "j = w + k" using a by (auto simp: k_def)
        have "(offset b + (len b + k)) mod bsize b = (w + k) mod bsize b"
          unfolding w by (simp add: mod_add_left_eq add.assoc)
        also have "\<dots> = w + k" using k(1) assms(5) by simp
        finally have "(offset b + i) mod bsize b = (offset b + (len b + k)) mod bsize b"
          using k(2) by (simp add: j_def)
        moreover have "i < len b + k" "len b + k - i < bsize b" using True k(1) assms(3) by linarith+
        ultimately show False by (rule mod_diff_less)
      qed
      then have "?buf ! j = buf ! j" unfolding nth [OF j] by (rule if_not_P)
      with lhs True show ?thesis using buf by (simp add: nth_append nth_ring_bytes j_def)
    next
      case False
      define k where "k = i - len b"
      have k: "k < chunk" "i = len b + k" using i False by (auto simp: k_def)
      have "j = (w + k) mod bsize b"
        unfolding j_def k(2) w by (simp add: mod_add_left_eq add.assoc)
      then have "j = w + k" using k(1) assms(5) by simp
      then have "?buf ! j = bs ! k" using nth [OF j] k(1) by simp
      with lhs k show ?thesis by (simp add: nth_append)
    qed
  qed
qed

lemma write_loop_eq:
  assumes "ring_inv b" and "0 < rest" and "len b + rest \<le> bsize b" and "rest \<le> length bs"
  shows "\<exists>b'. write_loop rest b bs = Some b' \<and> ring_inv b' \<and> ring_bytes b' = ring_bytes b @ take rest bs \<and>
    closed b' = closed b \<and> bsize b' = bsize b \<and> request b' = request b \<and> peer b' = peer b"
  using assms
proof (induction rest arbitrary: b bs rule: less_induct)
  case (less rest)
  have I: "len b \<le> bsize b" "offset b < bsize b" "bsize b < 2 ^ 63" "0 < bsize b" using less.prems(1) by (auto simp: ring_inv_def)
  define w where "w = (if offset b + len b \<ge> bsize b then offset b + len b - bsize b else offset b + len b)"
  define chunk where "chunk = (if w + rest \<le> bsize b then rest else bsize b - w)"
  have w: "w < bsize b" using I by (auto simp: w_def)
  have s: "size_add (offset b) (len b) = offset b + len b" "size_add w rest = w + rest" using I w less.prems(3) by simp_all
  have chunk: "0 < chunk" "chunk \<le> rest" "w + chunk \<le> bsize b"
    using less.prems(2) w by (auto simp: chunk_def)
  define b1 where "b1 = b\<lparr>ring := Some (take w (the (ring b)) @ take chunk bs @ drop (w + chunk) (the (ring b))), len := len b + chunk\<rparr>"
  have "chunk \<le> length bs" "len b + chunk \<le> bsize b" using chunk less.prems(3,4) by simp_all
  note P = put_chunk [OF less.prems(1) this w_def chunk(3) b1_def chunk(1)]
  have e: "write_loop rest b bs = (if rest - chunk \<noteq> 0 then write_loop (rest - chunk) b1 (drop chunk bs) else Some b1)"
    by (subst write_loop.simps) (simp only: Let_def s w_def [symmetric] chunk_def [symmetric] b1_def)
  have same: "closed b1 = closed b" "bsize b1 = bsize b" "request b1 = request b" "peer b1 = peer b" "len b1 = len b + chunk"
    by (simp_all add: b1_def)
  show ?case
  proof (cases "rest - chunk = 0")
    case True
    then have "chunk = rest" using chunk(2) by simp
    then show ?thesis using e P same True by simp
  next
    case False
    obtain b' where b': "write_loop (rest - chunk) b1 (drop chunk bs) = Some b'" "ring_inv b'"
      "ring_bytes b' = ring_bytes b1 @ take (rest - chunk) (drop chunk bs)" "closed b' = closed b1" "bsize b' = bsize b1"
      "request b' = request b1" "peer b' = peer b1"
      using less.IH [of "rest - chunk" b1 "drop chunk bs"] P(1) False chunk less.prems same by force
    have "take chunk bs @ take (rest - chunk) (drop chunk bs) = take rest bs"
      using chunk(2) take_add [of chunk "rest - chunk" bs] by simp
    then show ?thesis using e b' P(2) same False by simp
  qed
qed


section \<open>What each call does\<close>

definition pair_inv :: "pair_bio \<Rightarrow> bool" where
  "pair_inv bio \<longleftrightarrow> init bio \<and> peer (bptr bio) \<and> ring_inv (bptr bio) \<and>
     request (bptr bio) \<le> bsize (bptr bio) - len (bptr bio) \<and> (len (bptr bio) \<noteq> 0 \<longrightarrow> request (bptr bio) = 0)"

lemma pair_clear_fields [simp]:
  "bptr (BIO_clear_retry_flags bio) = bptr bio" "init (BIO_clear_retry_flags bio) = init bio"
  "bptr (BIO_set_retry_read bio) = bptr bio" "init (BIO_set_retry_read bio) = init bio"
  "bptr (BIO_set_retry_write bio) = bptr bio" "init (BIO_set_retry_write bio) = init bio"
  by (simp_all add: BIO_clear_retry_flags_def BIO_set_retry_read_def BIO_set_retry_write_def)

lemma pair_inv_update [simp]:
  "pair_inv (BIO_clear_retry_flags bio) = pair_inv bio" "pair_inv (BIO_set_retry_read bio) = pair_inv bio"
  "pair_inv (BIO_set_retry_write bio) = pair_inv bio" "pair_inv (bio\<lparr>num_read := k\<rparr>) = pair_inv bio"
  "pair_inv (bio\<lparr>num_write := k\<rparr>) = pair_inv bio"
  by (simp_all add: pair_inv_def)

lemma retry_bptr_update [simp]:
  "BIO_should_retry (bio\<lparr>bptr := b\<rparr>) = BIO_should_retry bio" "BIO_should_read (bio\<lparr>bptr := b\<rparr>) = BIO_should_read bio"
  "BIO_should_write (bio\<lparr>bptr := b\<rparr>) = BIO_should_write bio"
  by (simp_all add: BIO_should_retry_def BIO_should_read_def BIO_should_write_def BIO_test_flags_def)

text \<open>A read returns, and takes what there is of what it asks for.\<close>

lemma bio_read_eq:
  assumes "pair_inv p" and "init bio" and "0 < n"
  defines "q \<equiv> ring_bytes (bptr p)"
  shows "\<exists>ret bio' p'. bio_read n bio (Some p) = (ret, take (nat n) q, bio', Some p') \<and> pair_inv p' \<and>
    ret = (if q \<noteq> [] then int (min (nat n) (length q)) else if closed (bptr p) then 0 else - 1) \<and>
    ring_bytes (bptr p') = drop (nat n) q \<and> bptr bio' = bptr bio \<and> init bio' \<and>
    closed (bptr p') = closed (bptr p) \<and> bsize (bptr p') = bsize (bptr p) \<and>
    (BIO_should_retry bio' \<noteq> 0 \<longleftrightarrow> q = [] \<and> \<not> closed (bptr p)) \<and> BIO_should_write bio' = 0 \<and>
    request (bptr p') = (if q = [] \<and> \<not> closed (bptr p) then min (nat n) (bsize (bptr p)) else 0)"
proof -
  define b where "b = (bptr p)\<lparr>request := 0\<rparr>"
  have b: "ring_inv b" "ring_bytes b = q" "len b = length q" "closed b = closed (bptr p)" "bsize b = bsize (bptr p)"
    "request b = 0" "peer b"
    using assms(1) by (auto simp: b_def q_def pair_inv_def)
  have n0: "nat n \<noteq> 0" using assms(3) by simp
  have q0: "q = [] \<longleftrightarrow> len b = 0" by (simp add: b(3))
  have sw: "BIO_should_write (BIO_set_retry_read (BIO_clear_retry_flags bio)) = 0"
    by (simp add: BIO_should_write_def BIO_test_flags_def BIO_set_retry_read_def BIO_clear_retry_flags_def bio_flag_defs
        bit.conj_disj_distrib2 and.assoc)
  consider (eof) "q = []" "closed b" | (empty) "q = []" "\<not> closed b" | (some) "q \<noteq> []" by blast
  then show ?thesis
  proof cases
    case eof
    have "bio_read n bio (Some p) = (0, [], BIO_clear_retry_flags bio, Some (p\<lparr>bptr := b\<rparr>))"
      using eof assms(2) n0 q0 by (simp add: bio_read_def Let_def flip: b_def)
    with eof b assms(1,2) show ?thesis by (auto simp: pair_inv_def)
  next
    case empty
    let ?r = "if nat n \<le> bsize b then nat n else bsize b"
    have l0: "len b = 0" using empty(1) b(3) by simp
    define r where "r = (if nat n \<le> bsize b then nat n else bsize b)"
    define p' where "p' = p\<lparr>bptr := b\<lparr>request := r\<rparr>\<rparr>"
    define bio' where "bio' = BIO_set_retry_read (BIO_clear_retry_flags bio)"
    have "bio_read n bio (Some p) = (- 1, take (nat n) q, bio', Some p')"
      using empty assms(2) n0 l0 by (simp add: bio_read_def Let_def bio'_def p'_def r_def flip: b_def)
    moreover have "pair_inv p'" using b(1,5-7) l0 assms(1) by (simp add: pair_inv_def p'_def r_def)
    moreover have "ring_bytes (bptr p') = drop (nat n) q" "closed (bptr p') = closed (bptr p)" "bsize (bptr p') = bsize (bptr p)"
      "request (bptr p') = min (nat n) (bsize (bptr p))"
      using empty(1) b(2,4,5) by (simp_all add: p'_def r_def min_def)
    moreover have "bptr bio' = bptr bio" "init bio'" "BIO_should_retry bio' \<noteq> 0" "BIO_should_write bio' = 0"
      using assms(2) sw by (simp_all add: bio'_def)
    ultimately show ?thesis using empty b(4) by (intro exI conjI) simp_all
  next
    case some
    define m where "m = (if len b < nat n then len b else nat n)"
    have m: "0 < m" "m \<le> len b" "m = min (nat n) (length q)" using some n0 b(3) by (auto simp: m_def)
    obtain b' where L: "read_loop m b [] = Some ([] @ take m (ring_bytes b), b')" "ring_inv b'"
      "ring_bytes b' = drop m (ring_bytes b)" "closed b' = closed b" "bsize b' = bsize b" "request b' = request b" "peer b' = peer b"
      using read_loop_eq [OF b(1) m(1,2)] by blast
    have "bio_read n bio (Some p) = (int m, take m q, BIO_clear_retry_flags bio, Some (p\<lparr>bptr := b'\<rparr>))"
      using some assms(2) n0 q0 L(1) b(2) by (simp add: bio_read_def Let_def flip: b_def m_def)
    moreover have "take m q = take (nat n) q" "drop m q = drop (nat n) q" by (auto simp: m(3) min_def)
    ultimately show ?thesis
      using some b assms(1,2) L(2-) m(3) by (auto simp: pair_inv_def)
  qed
qed

text \<open>A write returns, and takes what the ring has room for.\<close>

lemma bio_write_eq:
  assumes "pair_inv bio" and "bs \<noteq> []"
  defines "q \<equiv> ring_bytes (bptr bio)" and "room \<equiv> bsize (bptr bio) - len (bptr bio)"
  shows "\<exists>ret bio'. bio_write bs bio e = (ret, bio', e) \<and> pair_inv bio' \<and>
    ret = (if closed (bptr bio) \<or> room = 0 then - 1 else int (min (length bs) room)) \<and>
    ring_bytes (bptr bio') = q @ take (nat ret) bs \<and> closed (bptr bio') = closed (bptr bio) \<and>
    bsize (bptr bio') = bsize (bptr bio) \<and> request (bptr bio') = 0 \<and>
    (BIO_should_retry bio' \<noteq> 0 \<longleftrightarrow> \<not> closed (bptr bio) \<and> room = 0) \<and> BIO_should_read bio' = 0"
proof -
  define b where "b = (bptr bio)\<lparr>request := 0\<rparr>"
  have b: "ring_inv b" "ring_bytes b = q" "closed b = closed (bptr bio)" "bsize b = bsize (bptr bio)" "len b = len (bptr bio)"
    "request b = 0" "peer b"
    using assms(1) by (auto simp: b_def q_def pair_inv_def)
  have i: "init bio" using assms(1) by (simp add: pair_inv_def)
  have le: "len b \<le> bsize b" using b(1) by (simp add: ring_inv_def)
  have full: "room = 0 \<longleftrightarrow> len b = bsize b" using le b(4,5) by (auto simp: room_def)
  define c where "c = (BIO_clear_retry_flags bio)\<lparr>bptr := b\<rparr>"
  have c: "pair_inv c" "bptr c = b" using b i by (simp_all add: c_def pair_inv_def)
  have sr: "BIO_should_read (BIO_set_retry_write c) = 0"
    by (simp add: c_def BIO_should_read_def BIO_test_flags_def BIO_set_retry_write_def BIO_clear_retry_flags_def bio_flag_defs
        bit.conj_disj_distrib2 and.assoc)
  consider (shut) "closed b" | (packed) "\<not> closed b" "len b = bsize b" | (space) "\<not> closed b" "len b \<noteq> bsize b" by blast
  then show ?thesis
  proof cases
    case shut
    have "bio_write bs bio e = (- 1, c, e)"
      using shut assms(2) i by (simp add: bio_write_def Let_def c_def flip: b_def)
    then show ?thesis using shut b c by (auto simp: c_def)
  next
    case packed
    have "bio_write bs bio e = (- 1, BIO_set_retry_write c, e)"
      using packed assms(2) i by (simp add: bio_write_def Let_def c_def flip: b_def)
    then show ?thesis using packed b c sr full by (auto simp: c_def)
  next
    case space
    define m where "m = (if length bs > bsize b - len b then bsize b - len b else length bs)"
    have m: "0 < m" "len b + m \<le> bsize b" "m \<le> length bs" "m = min (length bs) (bsize b - len b)"
      using space le assms(2) by (auto simp: m_def)
    obtain b' where L: "write_loop m b bs = Some b'" "ring_inv b'" "ring_bytes b' = ring_bytes b @ take m bs"
      "closed b' = closed b" "bsize b' = bsize b" "request b' = request b" "peer b' = peer b"
      using write_loop_eq [OF b(1) m(1-3)] by blast
    have "bio_write bs bio e = (int m, (BIO_clear_retry_flags bio)\<lparr>bptr := b'\<rparr>, e)"
      using space assms(2) i L(1) by (simp add: bio_write_def Let_def flip: b_def m_def)
    moreover have "m = min (length bs) (bsize (bptr bio) - len (bptr bio))" using m(4) b(4,5) by simp
    ultimately show ?thesis
      using space b L(2-) i full by (auto simp: pair_inv_def room_def)
  qed
qed


section \<open>Runs\<close>

datatype side = Side_One | Side_Two

datatype pair_cmd = Pair_Write "byte list" | Pair_Read u32 | Pair_Shutdown | Pair_Reset_Request

fun pair_cmd_run :: "pair_cmd \<Rightarrow> pair_bio \<Rightarrow> pair_bio \<Rightarrow> int \<times> byte list \<times> pair_bio \<times> pair_bio option" where
  "pair_cmd_run (Pair_Write bs) bio p = (case BIO_write methods_biop bs bio (Some p) of (ret, bio, e) \<Rightarrow> (ret, [], bio, e))"
| "pair_cmd_run (Pair_Read n) bio p = BIO_read methods_biop (sint n) bio (Some p)"
| "pair_cmd_run Pair_Shutdown bio p = (case BIO_shutdown_wr bio (Some p) of (ret, bio, e) \<Rightarrow> (ret, [], bio, e))"
| "pair_cmd_run Pair_Reset_Request bio p =
    (case BIO_ctrl methods_biop BIO_C_RESET_READ_REQUEST 0 None bio (Some p) of (ret, bio, e) \<Rightarrow> (ret, [], bio, e))"

text \<open>A call on one side of a pair; the state is \<open>None\<close> after a call that does not return.\<close>

fun pair_call :: "side \<times> pair_cmd \<Rightarrow> pair_bio \<times> pair_bio \<Rightarrow> int \<times> byte list \<times> (pair_bio \<times> pair_bio) option" where
  "pair_call (Side_One, c) (b1, b2) =
    (case pair_cmd_run c b1 b2 of (ret, out, b1, e) \<Rightarrow> (ret, out, map_option (\<lambda>b2. (b1, b2)) e))"
| "pair_call (Side_Two, c) (b1, b2) =
    (case pair_cmd_run c b2 b1 of (ret, out, b2, e) \<Rightarrow> (ret, out, map_option (\<lambda>b1. (b1, b2)) e))"

definition pair_exec :: "side \<times> pair_cmd \<Rightarrow> (pair_bio \<times> pair_bio) option \<Rightarrow> (pair_bio \<times> pair_bio) option" where
  "pair_exec p s = (case s of None \<Rightarrow> None | Some bb \<Rightarrow> snd (snd (pair_call p bb)))"

text \<open>The bytes that a call gets into the ring of a side, or that the other side gets out of it.\<close>

fun pair_accepted :: "side \<Rightarrow> side \<times> pair_cmd \<Rightarrow> (pair_bio \<times> pair_bio) option \<Rightarrow> byte list" where
  "pair_accepted sd (sd', Pair_Write bs) (Some bb) =
    (if sd' = sd then take (nat (fst (pair_call (sd', Pair_Write bs) bb))) bs else [])"
| "pair_accepted sd _ _ = []"

fun pair_delivered :: "side \<Rightarrow> side \<times> pair_cmd \<Rightarrow> (pair_bio \<times> pair_bio) option \<Rightarrow> byte list" where
  "pair_delivered sd (sd', Pair_Read n) (Some bb) =
    (if sd' \<noteq> sd then case pair_call (sd', Pair_Read n) bb of (ret, out, _) \<Rightarrow> take (nat ret) out else [])"
| "pair_delivered sd _ _ = []"

definition pair_ok :: "(pair_bio \<times> pair_bio) option \<Rightarrow> bool" where
  "pair_ok s = (case s of None \<Rightarrow> False | Some (b1, b2) \<Rightarrow> pair_inv b1 \<and> pair_inv b2)"

fun in_transit :: "side \<Rightarrow> (pair_bio \<times> pair_bio) option \<Rightarrow> byte list" where
  "in_transit Side_One (Some (b1, b2)) = ring_bytes (bptr b1)"
| "in_transit Side_Two (Some (b1, b2)) = ring_bytes (bptr b2)"
| "in_transit _ None = []"

lemma BIO_write_pair:
  assumes "pair_inv bio"
  shows "\<exists>ret bio'. BIO_write methods_biop bs bio e = (ret, bio', e) \<and> pair_inv bio' \<and>
    ret = (if bs = [] then 0 else if closed (bptr bio) \<or> len (bptr bio) = bsize (bptr bio) then - 1
           else int (min (length bs) (bsize (bptr bio) - len (bptr bio)))) \<and>
    ring_bytes (bptr bio') = ring_bytes (bptr bio) @ take (nat ret) bs \<and> closed (bptr bio') = closed (bptr bio) \<and>
    bsize (bptr bio') = bsize (bptr bio)"
proof (cases "bs = []")
  case True
  with assms show ?thesis by (simp add: BIO_write_def methods_biop_def pair_inv_def)
next
  case False
  obtain ret bio' where W: "bio_write bs bio e = (ret, bio', e)" "pair_inv bio'"
    "ret = (if closed (bptr bio) \<or> bsize (bptr bio) - len (bptr bio) = 0 then - 1
      else int (min (length bs) (bsize (bptr bio) - len (bptr bio))))"
    "ring_bytes (bptr bio') = ring_bytes (bptr bio) @ take (nat ret) bs" "closed (bptr bio') = closed (bptr bio)"
    "bsize (bptr bio') = bsize (bptr bio)"
    using bio_write_eq [OF assms False, of e] by blast
  have "init bio" "len (bptr bio) \<le> bsize (bptr bio)" using assms by (auto simp: pair_inv_def ring_inv_def)
  then show ?thesis
    using W(2-) False by (simp add: BIO_write_def methods_biop_def W(1))
qed

lemma BIO_read_pair:
  assumes "pair_inv p" and "pair_inv bio" and "0 < n"
  shows "\<exists>ret bio' p'. BIO_read methods_biop n bio (Some p) = (ret, take (nat n) (ring_bytes (bptr p)), bio', Some p') \<and>
    pair_inv p' \<and> pair_inv bio' \<and> bptr bio' = bptr bio \<and>
    ret = (if ring_bytes (bptr p) \<noteq> [] then int (min (nat n) (length (ring_bytes (bptr p)))) else if closed (bptr p) then 0 else - 1) \<and>
    ring_bytes (bptr p') = drop (nat n) (ring_bytes (bptr p)) \<and>
    closed (bptr p') = closed (bptr p) \<and> bsize (bptr p') = bsize (bptr p) \<and>
    (BIO_should_retry bio' \<noteq> 0 \<longleftrightarrow> ring_bytes (bptr p) = [] \<and> \<not> closed (bptr p)) \<and>
    request (bptr p') = (if ring_bytes (bptr p) = [] \<and> \<not> closed (bptr p) then min (nat n) (bsize (bptr p)) else 0)"
proof -
  have i: "init bio" using assms(2) by (simp add: pair_inv_def)
  obtain ret bio' p' where R: "bio_read n bio (Some p) = (ret, take (nat n) (ring_bytes (bptr p)), bio', Some p')" "pair_inv p'"
    "ret = (if ring_bytes (bptr p) \<noteq> [] then int (min (nat n) (length (ring_bytes (bptr p)))) else if closed (bptr p) then 0 else - 1)"
    "ring_bytes (bptr p') = drop (nat n) (ring_bytes (bptr p))" "bptr bio' = bptr bio" "init bio'"
    "closed (bptr p') = closed (bptr p)" "bsize (bptr p') = bsize (bptr p)"
    "BIO_should_retry bio' \<noteq> 0 \<longleftrightarrow> ring_bytes (bptr p) = [] \<and> \<not> closed (bptr p)"
    "request (bptr p') = (if ring_bytes (bptr p) = [] \<and> \<not> closed (bptr p) then min (nat n) (bsize (bptr p)) else 0)"
    using bio_read_eq [OF assms(1) i assms(3)] by blast
  have p: "pair_inv bio'" using assms(2) R(5,6) by (simp add: pair_inv_def)
  define bio'' where "bio'' = (if ret > 0 then bio'\<lparr>num_read := size_add (num_read bio') (nat ret)\<rparr> else bio')"
  have b'': "pair_inv bio''" "bptr bio'' = bptr bio'" "BIO_should_retry bio'' = BIO_should_retry bio'"
    using p by (simp_all add: bio''_def BIO_should_retry_def BIO_test_flags_def)
  have "BIO_read methods_biop n bio (Some p) = (ret, take (nat n) (ring_bytes (bptr p)), bio'', Some p')"
    using assms(3) i by (simp add: BIO_read_def methods_biop_def R(1) bio''_def)
  then show ?thesis
    by (intro exI [of _ ret] exI [of _ bio''] exI [of _ p'] conjI)
      (assumption | rule R(2) R(3) R(4) R(7) R(8) R(10) b''(1) | simp only: b'' R(5,9))+
qed


lemma pair_inv_ctrl [simp]:
  "pair_inv (bio\<lparr>bptr := (bptr bio)\<lparr>closed := c\<rparr>\<rparr>) = pair_inv bio"
  "pair_inv bio \<Longrightarrow> pair_inv (bio\<lparr>bptr := (bptr bio)\<lparr>request := 0\<rparr>\<rparr>)"
  by (auto simp: pair_inv_def)

text \<open>One call: it returns, keeps both sides well formed, and moves bytes through the right ring.\<close>

lemma pair_cmd_law:
  assumes "pair_inv bio" and "pair_inv p"
  shows "\<exists>ret out bio' p'. pair_cmd_run c bio p = (ret, out, bio', Some p') \<and> pair_inv bio' \<and> pair_inv p' \<and>
    ring_bytes (bptr bio') = ring_bytes (bptr bio) @ (case c of Pair_Write bs \<Rightarrow> take (nat ret) bs | _ \<Rightarrow> []) \<and>
    ring_bytes (bptr p) = (case c of Pair_Read n \<Rightarrow> take (nat ret) out | _ \<Rightarrow> []) @ ring_bytes (bptr p') \<and>
    bsize (bptr bio') = bsize (bptr bio) \<and> bsize (bptr p') = bsize (bptr p)"
proof (cases c)
  case (Pair_Write bs)
  then show ?thesis using BIO_write_pair [OF assms(1), of bs "Some p"] assms(2) by auto
next
  case (Pair_Read n)
  show ?thesis
  proof (cases "0 < sint n")
    case False
    then show ?thesis using assms by (simp add: Pair_Read BIO_read_def methods_biop_def pair_inv_def)
  next
    case True
    obtain ret bio' p' where R:
      "BIO_read methods_biop (sint n) bio (Some p) = (ret, take (nat (sint n)) (ring_bytes (bptr p)), bio', Some p')"
      "pair_inv p'" "pair_inv bio'" "bptr bio' = bptr bio"
      "ret = (if ring_bytes (bptr p) \<noteq> [] then int (min (nat (sint n)) (length (ring_bytes (bptr p))))
        else if closed (bptr p) then 0 else - 1)"
      "ring_bytes (bptr p') = drop (nat (sint n)) (ring_bytes (bptr p))" "bsize (bptr p') = bsize (bptr p)"
      using BIO_read_pair [OF assms(2,1) True] by (elim exE conjE)
    have "take (nat ret) (take (nat (sint n)) (ring_bytes (bptr p))) = take (nat (sint n)) (ring_bytes (bptr p))"
      by (auto simp: R(5) min_def)
    then show ?thesis by (simp add: Pair_Read R(1-4,6,7))
  qed
next
  case Pair_Shutdown
  then show ?thesis
    using assms by (simp add: BIO_shutdown_wr_def BIO_ctrl_def methods_biop_def bio_ctrl_def bio_ctrl_defs Let_def)
next
  case Pair_Reset_Request
  then show ?thesis
    using assms by (simp add: BIO_ctrl_def methods_biop_def bio_ctrl_def bio_ctrl_defs Let_def)
qed

lemma pair_exec_law:
  assumes "pair_ok s"
  shows "pair_ok (pair_exec p s) \<and> in_transit sd s @ pair_accepted sd p s = pair_delivered sd p s @ in_transit sd (pair_exec p s)"
proof -
  obtain b1 b2 where s: "s = Some (b1, b2)" "pair_inv b1" "pair_inv b2"
    using assms by (auto simp: pair_ok_def split: option.splits)
  obtain sd' c where p: "p = (sd', c)" by (cases p)
  show ?thesis
  proof (cases sd')
    case Side_One
    show ?thesis
      using pair_cmd_law [OF s(2,3), of c]
      by (cases c; cases sd) (auto simp: p s(1) Side_One pair_exec_def pair_ok_def)
  next
    case Side_Two
    show ?thesis
      using pair_cmd_law [OF s(3,2), of c]
      by (cases c; cases sd) (auto simp: p s(1) Side_Two pair_exec_def pair_ok_def)
  qed
qed

interpretation one_to_two: byte_stream pair_ok "in_transit Side_One" pair_exec "pair_accepted Side_One" "pair_delivered Side_One"
  by unfold_locales (use pair_exec_law in auto)

interpretation two_to_one: byte_stream pair_ok "in_transit Side_Two" pair_exec "pair_accepted Side_Two" "pair_delivered Side_Two"
  by unfold_locales (use pair_exec_law in auto)


text \<open>The capacity of the two rings.\<close>

definition pair_sizes :: "(pair_bio \<times> pair_bio) option \<Rightarrow> nat \<times> nat" where
  "pair_sizes s = (case s of None \<Rightarrow> (0, 0) | Some (b1, b2) \<Rightarrow> (bsize (bptr b1), bsize (bptr b2)))"

lemma pair_exec_sizes:
  assumes "pair_ok s"
  shows "pair_sizes (pair_exec p s) = pair_sizes s"
proof -
  obtain b1 b2 where s: "s = Some (b1, b2)" "pair_inv b1" "pair_inv b2"
    using assms by (auto simp: pair_ok_def split: option.splits)
  obtain sd' c where p: "p = (sd', c)" by (cases p)
  show ?thesis
  proof (cases sd')
    case Side_One
    show ?thesis
      using pair_cmd_law [OF s(2,3), of c] by (auto simp: p s(1) Side_One pair_exec_def pair_sizes_def)
  next
    case Side_Two
    show ?thesis
      using pair_cmd_law [OF s(3,2), of c] by (auto simp: p s(1) Side_Two pair_exec_def pair_sizes_def)
  qed
qed

lemma pair_run_sizes: "pair_ok s \<Longrightarrow> pair_sizes (fold pair_exec ops s) = pair_sizes s"
  by (induction ops arbitrary: s) (simp_all add: pair_exec_sizes pair_exec_law)

lemma BIO_new_bio_pair_ok:
  assumes "BIO_new_bio_pair n1 n2 h = (Some (b1, b2), h')" and "n1 < 2 ^ 63" and "n2 < 2 ^ 63"
  shows "pair_ok (Some (b1, b2))" and "in_transit sd (Some (b1, b2)) = []"
    and "pair_sizes (Some (b1, b2)) = (if n1 = 0 then 17 * 1024 else n1, if n2 = 0 then 17 * 1024 else n2)"
proof -
  define z where "z = \<lparr>peer = True, closed = False, len = 0, offset = 0, bsize = 17 * 1024, ring = None, request = 0\<rparr>"
  define f where "f n = z\<lparr>bsize := (if n = 0 then 17 * 1024 else n), ring := Some (replicate (if n = 0 then 17 * 1024 else n) 0)\<rparr>" for n
  have "init b1 \<and> init b2 \<and> bptr b1 = f n1 \<and> bptr b2 = f n2"
    using assms(1)
    by (auto simp: BIO_new_bio_pair_def BIO_new_def bio_new_def bio.defs bio_make_pair_def alloc_ring_def Let_def z_def f_def
        split: prod.splits bool.splits option.splits if_splits)
  then have b: "init b1" "init b2" "bptr b1 = f n1" "bptr b2 = f n2" by simp_all
  have "pair_inv b1" "pair_inv b2"
    using assms(2,3) b by (auto simp: pair_inv_def ring_inv_def f_def z_def)
  then show "pair_ok (Some (b1, b2))" by (simp add: pair_ok_def)
  show "in_transit sd (Some (b1, b2)) = []" using b by (cases sd) (simp_all add: ring_bytes_def f_def z_def)
  show "pair_sizes (Some (b1, b2)) = (if n1 = 0 then 17 * 1024 else n1, if n2 = 0 then 17 * 1024 else n2)"
    using b by (simp add: pair_sizes_def f_def)
qed

lemma pair_side_facts:
  assumes "pair_inv b" and "pair_inv p"
  shows "len (bptr b) \<le> bsize (bptr b) \<and>
    offset (bptr b) < bsize (bptr b) \<and> (len (bptr b) = 0 \<longrightarrow> offset (bptr b) = 0) \<and>
    BIO_ctrl_get_read_request b (Some p) \<le> bsize (bptr b) - len (bptr b) \<and>
    (BIO_ctrl_get_read_request b (Some p) \<noteq> 0 \<longrightarrow> BIO_wpending methods_biop b (Some p) = 0) \<and>
    BIO_wpending methods_biop b (Some p) = BIO_pending methods_biop p (Some b) \<and>
    BIO_ctrl_get_write_guarantee b (Some p) + (if closed (bptr b) then bsize (bptr b)
      else BIO_pending methods_biop p (Some b)) = bsize (bptr b)"
proof -
  have R: "ring_inv (bptr b)" "peer (bptr b)" "peer (bptr p)" "request (bptr b) \<le> bsize (bptr b) - len (bptr b)"
    "len (bptr b) \<noteq> 0 \<longrightarrow> request (bptr b) = 0"
    using assms by (auto simp: pair_inv_def)
  obtain buf where buf: "ring (bptr b) = Some buf" using R(1) by (auto simp: ring_inv_def)
  have c: "BIO_ctrl_get_read_request b (Some p) = request (bptr b)" "BIO_wpending methods_biop b (Some p) = len (bptr b)"
    "BIO_pending methods_biop p (Some b) = len (bptr b)"
    "BIO_ctrl_get_write_guarantee b (Some p) = (if closed (bptr b) then 0 else bsize (bptr b) - len (bptr b))"
    using R(2,3) buf
    by (simp_all add: BIO_ctrl_get_read_request_def BIO_wpending_def BIO_pending_def BIO_ctrl_get_write_guarantee_def BIO_ctrl_def
        methods_biop_def bio_ctrl_def bio_ctrl_defs Let_def nat_diff_distrib')
  show ?thesis unfolding c using R by (auto simp: ring_inv_def)
qed

section \<open>Properties\<close>

text \<open>C6: a BIO pair is two independent byte streams. However the calls on its two sides interleave, every
  call returns, and for each direction the bytes accepted by the writes on one side are the bytes
  the reads on the other side have delivered, in order and without loss, followed by those still
  in the ring.\<close>

theorem bio_pair_streams:
  assumes "BIO_new_bio_pair n1 n2 h = (Some (b1, b2), h')" and "n1 < 2 ^ 63" and "n2 < 2 ^ 63"
  shows "\<exists>b1' b2'. fold pair_exec ops (Some (b1, b2)) = Some (b1', b2') \<and>
    along pair_exec (pair_accepted Side_One) ops (Some (b1, b2)) =
      along pair_exec (pair_delivered Side_One) ops (Some (b1, b2)) @ ring_bytes (bptr b1') \<and>
    along pair_exec (pair_accepted Side_Two) ops (Some (b1, b2)) =
      along pair_exec (pair_delivered Side_Two) ops (Some (b1, b2)) @ ring_bytes (bptr b2')"
proof -
  note I = BIO_new_bio_pair_ok [OF assms]
  have "pair_ok (fold pair_exec ops (Some (b1, b2)))" by (rule one_to_two.run_inv [OF I(1)])
  then obtain b1' b2' where r: "fold pair_exec ops (Some (b1, b2)) = Some (b1', b2')"
    by (auto simp: pair_ok_def split: option.splits)
  show ?thesis
    using one_to_two.run_law [OF I(1), of ops] two_to_one.run_law [OF I(1), of ops] I(2) r by simp
qed

theorem bio_pair_streams_witness:
  "\<exists>b1 b2 h' b1' b2'. BIO_new_bio_pair 3 0 [] = (Some (b1, b2), h') \<and>
    fold pair_exec [(Side_One, Pair_Write [1, 2]), (Side_Two, Pair_Read 1), (Side_One, Pair_Write [3, 4, 5])] (Some (b1, b2)) =
      Some (b1', b2') \<and>
    along pair_exec (pair_accepted Side_One)
      [(Side_One, Pair_Write [1, 2]), (Side_Two, Pair_Read 1), (Side_One, Pair_Write [3, 4, 5])] (Some (b1, b2)) =
    along pair_exec (pair_delivered Side_One)
      [(Side_One, Pair_Write [1, 2]), (Side_Two, Pair_Read 1), (Side_One, Pair_Write [3, 4, 5])] (Some (b1, b2)) @
      ring_bytes (bptr b1')"
proof -
  obtain b1 b2 h' where n: "BIO_new_bio_pair 3 0 [] = (Some (b1, b2), h')"
    by (simp add: BIO_new_bio_pair_def BIO_new_def bio_new_def bio.defs bio_make_pair_def alloc_ring_def no_bio_bio_def Let_def)
  show ?thesis
    using n bio_pair_streams [OF n, of "[(Side_One, Pair_Write [1, 2]), (Side_Two, Pair_Read 1), (Side_One, Pair_Write [3, 4, 5])]"]
    by (simp del: fold_simps along.simps) blast
qed

text \<open>C26: after any calls on the two sides of a pair, each ring keeps its capacity and holds no more
  than that, its bookkeeping stays in range, a read request is never more than the writer has room
  for and only set while the ring is empty, and what a side is told it may write, together with what
  the other side is told is pending, is exactly the capacity as long as the side is not shut down.\<close>

theorem bio_pair_invariant:
  assumes "BIO_new_bio_pair n1 n2 h = (Some (b1, b2), h')" and "n1 < 2 ^ 63" and "n2 < 2 ^ 63"
    and "fold pair_exec ops (Some (b1, b2)) = Some (b1', b2')" and "(b, p, n) \<in> {(b1', b2', n1), (b2', b1', n2)}"
  shows "bsize (bptr b) = (if n = 0 then 17 * 1024 else n) \<and> len (bptr b) \<le> bsize (bptr b) \<and>
    offset (bptr b) < bsize (bptr b) \<and> (len (bptr b) = 0 \<longrightarrow> offset (bptr b) = 0) \<and>
    BIO_ctrl_get_read_request b (Some p) \<le> bsize (bptr b) - len (bptr b) \<and>
    (BIO_ctrl_get_read_request b (Some p) \<noteq> 0 \<longrightarrow> BIO_wpending methods_biop b (Some p) = 0) \<and>
    BIO_wpending methods_biop b (Some p) = BIO_pending methods_biop p (Some b) \<and>
    BIO_ctrl_get_write_guarantee b (Some p) + (if closed (bptr b) then bsize (bptr b)
      else BIO_pending methods_biop p (Some b)) = bsize (bptr b)"
proof -
  note I = BIO_new_bio_pair_ok [OF assms(1-3)]
  have "pair_ok (Some (b1', b2'))" using one_to_two.run_inv [OF I(1), of ops] by (simp add: assms(4))
  then have ok: "pair_inv b1'" "pair_inv b2'" by (simp_all add: pair_ok_def)
  have "pair_sizes (Some (b1', b2')) = (if n1 = 0 then 17 * 1024 else n1, if n2 = 0 then 17 * 1024 else n2)"
    using pair_run_sizes [OF I(1), of ops] I(3) assms(4) by simp
  then have sz: "bsize (bptr b1') = (if n1 = 0 then 17 * 1024 else n1)" "bsize (bptr b2') = (if n2 = 0 then 17 * 1024 else n2)"
    by (simp_all add: pair_sizes_def)
  consider "b = b1'" "p = b2'" "n = n1" | "b = b2'" "p = b1'" "n = n2" using assms(5) by auto
  then show ?thesis
  proof cases
    case 1
    show ?thesis unfolding 1 by (rule conjI [OF sz(1) pair_side_facts [OF ok]])
  next
    case 2
    show ?thesis unfolding 2 by (rule conjI [OF sz(2) pair_side_facts [OF ok(2,1)]])
  qed
qed

theorem bio_pair_invariant_witness:
  "\<exists>b1 b2 h' b1' b2'. BIO_new_bio_pair 3 0 [] = (Some (b1, b2), h') \<and>
    fold pair_exec [(Side_Two, Pair_Read 9)] (Some (b1, b2)) = Some (b1', b2') \<and>
    BIO_ctrl_get_write_guarantee b1' (Some b2') + (if closed (bptr b1') then bsize (bptr b1')
      else BIO_pending methods_biop b2' (Some b1')) = bsize (bptr b1')"
proof -
  obtain b1 b2 h' where n: "BIO_new_bio_pair 3 0 [] = (Some (b1, b2), h')"
    by (simp add: BIO_new_bio_pair_def BIO_new_def bio_new_def bio.defs bio_make_pair_def alloc_ring_def no_bio_bio_def Let_def)
  have s: "(3 :: nat) < 2 ^ 63" "(0 :: nat) < 2 ^ 63" by simp_all
  obtain b1' b2' where r: "fold pair_exec [(Side_Two, Pair_Read 9)] (Some (b1, b2)) = Some (b1', b2')"
    using one_to_two.run_inv [OF BIO_new_bio_pair_ok(1) [OF n s], of "[(Side_Two, Pair_Read 9)]"]
    by (auto simp: pair_ok_def split: option.splits)
  have m: "(b1', b2', 3) \<in> {(b1', b2', 3), (b2', b1', 0 :: nat)}" by simp
  show ?thesis using n r bio_pair_invariant [OF n s r m] by blast
qed

text \<open>C22: a reader that found nothing is served by the retry protocol. After a read for \<open>n\<close> bytes
  returned -1 the BIO asks for a retry of reading, the other side sees a request for between one and
  \<open>n\<close> bytes, a write of exactly that many bytes is taken in full, and the same read then returns
  exactly them.\<close>

theorem bio_pair_retry_progress:
  assumes "BIO_new_bio_pair n1 n2 h = (Some (b1, b2), h')" and "n1 < 2 ^ 63" and "n2 < 2 ^ 63"
    and "fold pair_exec ops (Some (b1, b2)) = Some (r, w)" and "0 < n"
    and "BIO_read methods_biop n r (Some w) = (- 1, out, r1, Some w1)"
    and "length bs = BIO_ctrl_get_read_request w1 (Some r1)"
  shows "out = [] \<and> BIO_should_retry r1 \<noteq> 0 \<and> 0 < length bs \<and> length bs \<le> nat n \<and>
    (\<exists>w2 r2 w3. BIO_write methods_biop bs w1 (Some r1) = (int (length bs), w2, Some r1) \<and>
      BIO_read methods_biop n r1 (Some w2) = (int (length bs), bs, r2, Some w3))"
proof -
  note I = BIO_new_bio_pair_ok [OF assms(1-3)]
  have ok: "pair_inv r" "pair_inv w"
    using one_to_two.run_inv [OF I(1), of ops] by (auto simp: assms(4) pair_ok_def)
  let ?q = "ring_bytes (bptr w)"
  have R: "out = take (nat n) ?q" "pair_inv w1" "pair_inv r1"
    "- 1 = (if ?q \<noteq> [] then int (min (nat n) (length ?q)) else if closed (bptr w) then 0 else - 1)"
    "ring_bytes (bptr w1) = drop (nat n) ?q" "closed (bptr w1) = closed (bptr w)" "bsize (bptr w1) = bsize (bptr w)"
    "BIO_should_retry r1 \<noteq> 0 \<longleftrightarrow> ?q = [] \<and> \<not> closed (bptr w)"
    "request (bptr w1) = (if ?q = [] \<and> \<not> closed (bptr w) then min (nat n) (bsize (bptr w)) else 0)"
    using BIO_read_pair [OF ok(2,1) assms(5)] assms(6) by auto
  have q: "?q = []" "\<not> closed (bptr w)" using R(4) by (auto split: if_splits)
  have b0: "0 < bsize (bptr w1)" using R(2) by (auto simp: pair_inv_def ring_inv_def)
  have len: "length bs = min (nat n) (bsize (bptr w1))"
    using assms(7) R(7,9) q
    by (simp add: BIO_ctrl_get_read_request_def BIO_ctrl_def methods_biop_def bio_ctrl_def bio_ctrl_defs Let_def)
  have "ring_bytes (bptr w1) = []" using R(5) q by simp
  then have l0: "len (bptr w1) = 0" by (metis length_ring_bytes list.size(3))
  have pos: "0 < length bs" "length bs \<le> nat n" "length bs \<le> bsize (bptr w1)" using len assms(5) b0 by auto
  then have ne: "bs \<noteq> []" by auto
  have c1: "\<not> closed (bptr w1)" using R(6) q(2) by simp
  obtain ret w2 where W: "BIO_write methods_biop bs w1 (Some r1) = (ret, w2, Some r1)" "pair_inv w2"
    "ret = (if bs = [] then 0 else if closed (bptr w1) \<or> len (bptr w1) = bsize (bptr w1) then - 1
           else int (min (length bs) (bsize (bptr w1) - len (bptr w1))))"
    "ring_bytes (bptr w2) = ring_bytes (bptr w1) @ take (nat ret) bs"
    using BIO_write_pair [OF R(2), of bs "Some r1"] by blast
  have ret: "ret = int (length bs)" using W(3) ne c1 l0 b0 pos(3) by (simp add: min_def)
  have w2: "ring_bytes (bptr w2) = bs" using W(4) \<open>ring_bytes (bptr w1) = []\<close> ret by simp
  obtain ret2 r2 w3 where S: "BIO_read methods_biop n r1 (Some w2) = (ret2, take (nat n) (ring_bytes (bptr w2)), r2, Some w3)"
    "ret2 = (if ring_bytes (bptr w2) \<noteq> [] then int (min (nat n) (length (ring_bytes (bptr w2)))) else if closed (bptr w2) then 0 else - 1)"
    using BIO_read_pair [OF W(2) R(3) assms(5)] by blast
  have "ret2 = int (length bs)" "take (nat n) (ring_bytes (bptr w2)) = bs"
    using S(2) ne pos(2) by (simp_all add: w2 min_def)
  then show ?thesis
    using R(1,8) q pos W(1) S(1) ret by auto
qed

theorem bio_pair_retry_progress_witness:
  "\<exists>b1 b2 h' out r1 w1 w2 r2 w3. BIO_new_bio_pair 3 0 [] = (Some (b1, b2), h') \<and>
    BIO_read methods_biop 2 b1 (Some b2) = (- 1, out, r1, Some w1) \<and>
    BIO_write methods_biop [7, 8] w1 (Some r1) = (2, w2, Some r1) \<and>
    BIO_read methods_biop 2 r1 (Some w2) = (2, [7, 8], r2, Some w3)"
proof -
  obtain b1 b2 h' where n: "BIO_new_bio_pair 3 0 [] = (Some (b1, b2), h')"
    by (simp add: BIO_new_bio_pair_def BIO_new_def bio_new_def bio.defs bio_make_pair_def alloc_ring_def no_bio_bio_def Let_def)
  have s: "(3 :: nat) < 2 ^ 63" "(0 :: nat) < 2 ^ 63" "0 < (2 :: int)" by simp_all
  note I = BIO_new_bio_pair_ok [OF n s(1,2)]
  have ok: "pair_inv b1" "pair_inv b2" using I(1) by (simp_all add: pair_ok_def)
  have q: "ring_bytes (bptr b2) = []" using I(2) [of Side_Two] by simp
  have sz: "bsize (bptr b2) = 17408" using I(3) by (simp add: pair_sizes_def)
  have c: "\<not> closed (bptr b2)"
    using n by (simp add: BIO_new_bio_pair_def BIO_new_def bio_new_def bio.defs bio_make_pair_def alloc_ring_def no_bio_bio_def Let_def)
      auto
  obtain out r1 w1 where R: "BIO_read methods_biop 2 b1 (Some b2) = (- 1, out, r1, Some w1)"
    and q1: "request (bptr w1) = 2"
    using BIO_read_pair [OF ok(2,1) s(3)] q c sz by auto
  have len: "length [7, 8 :: byte] = BIO_ctrl_get_read_request w1 (Some r1)"
    using q1 by (simp add: BIO_ctrl_get_read_request_def BIO_ctrl_def methods_biop_def bio_ctrl_def bio_ctrl_defs Let_def)
  have f: "fold pair_exec [] (Some (b1, b2)) = Some (b1, b2)" by simp
  show ?thesis
    using n R bio_pair_retry_progress [OF n s(1,2) f s(3) R len] by auto
qed

end
