(* ===== verification/Ber.thy ===== *)
theory Ber
  imports CBB_Prog "HOL-Library.Monad_Syntax"
begin

text \<open>
  The conversion from BER to DER of \<open>crypto/bytestring/ber.c\<close>.

  \<open>cbs_convert_ber\<close> reads its input and writes to a \<open>CBB\<close> handle as it goes, and calls itself on
  what an inner call has left of the input; it is a partial function, \<open>None\<close> where it would not
  return.  A loop round is the function called again with the same arguments, which repeats the
  test of the depth without effect.
\<close>

section \<open>Operations\<close>

definition kMaxDepth :: nat where
  "kMaxDepth = 2048"

definition string_tags :: "u32 list" where
  "string_tags = [0x4, 0xc, 0x12, 0x13, 0x14, 0x15, 0x16, 0x19, 0x1a, 0x1b, 0x1c, 0x1e]"

definition is_string_type :: "u32 \<Rightarrow> bool" where
  "is_string_type tag = (tag AND NOT CBS_ASN1_CONSTRUCTED \<in> set string_tags)"

text \<open>The element reader moves forward, so the walk ends.\<close>

lemma ber_element_shorter:
  assumes "CBS_get_any_ber_asn1_element cbs = (Some (out, tag, hl, ber), rest)"
  shows "length rest < length cbs" and "CBS_skip hl out = (Some (), body) \<Longrightarrow> length body < length cbs"
proof -
  obtain lenbytes data where e: "out = der_tag tag @ lenbytes @ data" "cbs = out @ rest"
    "hl = length (der_tag tag) + length lenbytes" "lenbytes \<noteq> []"
    using assms unfolding CBS_get_any_ber_asn1_element_def by (rule cbs_get_any_asn1_element_Some)
  then show "length rest < length cbs" by simp
  show "length body < length cbs" if "CBS_skip hl out = (Some (), body)"
    using that e by (auto simp: CBS_skip_eq split: if_splits)
qed

text \<open>The return value and \<open>*ber_found\<close>; the argument \<open>found\<close> is the value it has when the loop test is made.\<close>

function cbs_find_ber :: "nat \<Rightarrow> bool \<Rightarrow> cbs \<Rightarrow> bool \<times> bool" where
  "cbs_find_ber depth found inp =
     (if depth > kMaxDepth then (False, found)
      else if CBS_len inp = 0 then (True, found)
      else case CBS_get_any_ber_asn1_element inp of
             (None, _) \<Rightarrow> (False, False)
           | (Some (element, tag, header_len, ber_found), rest) \<Rightarrow>
               if ber_found then (True, True)
               else if tag AND CBS_ASN1_CONSTRUCTED \<noteq> 0
               then if is_string_type tag then (True, True)
                    else case CBS_skip header_len element of
                           (None, _) \<Rightarrow> (False, False)
                         | (Some _, body) \<Rightarrow>
                             (case cbs_find_ber (depth + 1) False body of
                                (False, found) \<Rightarrow> (False, found)
                              | (True, found) \<Rightarrow> cbs_find_ber depth found rest)
               else cbs_find_ber depth False rest)"
  by pat_completeness auto
termination
  by (relation "measure (\<lambda>(_, _, inp). length inp)") (auto intro: ber_element_shorter(1) [OF sym] ber_element_shorter(2) [OF sym sym])

declare cbs_find_ber.simps [simp del]

definition is_eoc :: "nat \<Rightarrow> cbs \<Rightarrow> bool" where
  "is_eoc header_len element = (header_len = 2 \<and> CBS_len element = 2 \<and> memcmp (CBS_data element) [0, 0] = 0)"

partial_function (option) cbs_convert_ber ::
  "nat \<Rightarrow> u32 \<Rightarrow> bool \<Rightarrow> nat \<Rightarrow> cbs \<Rightarrow> cbb \<Rightarrow> (bool \<times> cbs \<times> cbb) option" where
  "cbs_convert_ber d string_tag looking_for_eoc depth inp cbb =
     (if depth > kMaxDepth then Some (False, inp, cbb)
      else if CBS_len inp = 0 then Some (\<not> looking_for_eoc, inp, cbb)
      else case CBS_get_any_ber_asn1_element inp of
             (None, inp) \<Rightarrow> Some (False, inp, cbb)
           | (Some (element, tag, header_len, _), inp) \<Rightarrow>
               if is_eoc header_len element then Some (looking_for_eoc, inp, cbb)
               else if string_tag \<noteq> 0 \<and> tag AND NOT CBS_ASN1_CONSTRUCTED \<noteq> string_tag then Some (False, inp, cbb)
               else
                 let joins = (tag AND CBS_ASN1_CONSTRUCTED \<noteq> 0 \<and> is_string_type tag);
                     out_tag = (if joins then tag AND NOT CBS_ASN1_CONSTRUCTED else tag);
                     child_string_tag = (if string_tag \<noteq> 0 then string_tag else if joins then out_tag else 0);
                     (ok, cbb) = (if string_tag \<noteq> 0 then (True, cbb) else CBB_add_asn1 d out_tag cbb);
                     out_contents = (if string_tag \<noteq> 0 then d else Suc d)
                 in if \<not> ok then Some (False, inp, cbb)
                    else if CBS_len element = header_len \<and> header_len > 0 \<and> CBS_data element ! (header_len - 1) = 0x80
                    then do {
                      (ok, inp, cbb) \<leftarrow> cbs_convert_ber out_contents child_string_tag True (depth + 1) inp cbb;
                      let (ok, cbb) = (if ok then CBB_flush d cbb else (False, cbb));
                      if \<not> ok then Some (False, inp, cbb)
                      else cbs_convert_ber d string_tag looking_for_eoc depth inp cbb
                    }
                    else case CBS_skip header_len element of
                           (None, _) \<Rightarrow> Some (False, inp, cbb)
                         | (Some _, body) \<Rightarrow> do {
                             (ok, cbb) \<leftarrow>
                               (if tag AND CBS_ASN1_CONSTRUCTED \<noteq> 0
                                then do {
                                  (ok, _, cbb) \<leftarrow> cbs_convert_ber out_contents child_string_tag False (depth + 1) body cbb;
                                  Some (ok, cbb)
                                }
                                else Some (CBB_add_bytes out_contents body cbb));
                             let (ok, cbb) = (if ok then CBB_flush d cbb else (False, cbb));
                             if \<not> ok then Some (False, inp, cbb)
                             else cbs_convert_ber d string_tag looking_for_eoc depth inp cbb
                           })"

text \<open>
  On success the converted bytes, \<open>*out_storage\<close> (the same bytes, or NULL when the input itself is
  the result) and what is left of the input.
\<close>

definition CBS_asn1_ber_to_der :: "cbs \<Rightarrow> heap \<Rightarrow> ((byte list \<times> byte list option) option \<times> cbs) option" where
  "CBS_asn1_ber_to_der inp h =
     (case cbs_find_ber 0 False inp of
        (False, _) \<Rightarrow> Some (None, inp)
      | (True, False) \<Rightarrow>
          (case CBS_get_any_asn1_element inp of
             (None, inp) \<Rightarrow> Some (None, inp)
           | (Some (out, _, _), inp) \<Rightarrow> Some (Some (out, None), inp))
      | (True, True) \<Rightarrow>
          (case CBB_init (CBS_len inp) h of
             (False, _) \<Rightarrow> Some (None, inp)
           | (True, cbb) \<Rightarrow> do {
               (ok, inp, cbb) \<leftarrow> cbs_convert_ber 0 0 False 0 inp cbb;
               if \<not> ok then Some (None, inp)
               else case CBB_finish 0 True cbb of
                      (None, _) \<Rightarrow> Some (None, inp)
                    | (Some data, _) \<Rightarrow> Some (Some (CBS_init data, Some data), inp)
             }))"

lemma CBS_get_asn1_shorter: "CBS_get_asn1 tag cbs = (Some out, rest) \<Longrightarrow> length rest < length cbs"
  by (auto simp: CBS_get_asn1_iff)

text \<open>The loop that concatenates the chunks of a constructed string.\<close>

function implicit_chunks :: "u32 \<Rightarrow> cbs \<Rightarrow> cbb \<Rightarrow> bool \<times> cbb" where
  "implicit_chunks inner_tag child result =
     (if CBS_len child > 0
      then case CBS_get_asn1 inner_tag child of
             (None, _) \<Rightarrow> (False, result)
           | (Some chunk, child) \<Rightarrow>
               (case CBB_add_bytes 0 (CBS_data chunk) result of
                  (False, result) \<Rightarrow> (False, result)
                | (True, result) \<Rightarrow> implicit_chunks inner_tag child result)
      else (True, result))"
  by pat_completeness auto
termination
  by (relation "measure (\<lambda>(_, child, _). length child)") (auto intro: CBS_get_asn1_shorter [OF sym])

declare implicit_chunks.simps [simp del]

definition CBS_get_asn1_implicit_string ::
  "cbs \<Rightarrow> u32 \<Rightarrow> u32 \<Rightarrow> heap \<Rightarrow> (byte list \<times> byte list option) option \<times> cbs" where
  "CBS_get_asn1_implicit_string inp outer_tag inner_tag h =
     (if CBS_peek_asn1_tag inp outer_tag
      then case CBS_get_asn1 outer_tag inp of
             (None, inp) \<Rightarrow> (None, inp)
           | (Some out, inp) \<Rightarrow> (Some (out, None), inp)
      else case CBB_init (CBS_len inp) h of
             (False, _) \<Rightarrow> (None, inp)
           | (True, result) \<Rightarrow>
               (case CBS_get_asn1 (outer_tag OR CBS_ASN1_CONSTRUCTED) inp of
                  (None, inp) \<Rightarrow> (None, inp)
                | (Some child, inp) \<Rightarrow>
                    (case implicit_chunks inner_tag child result of
                       (False, _) \<Rightarrow> (None, inp)
                     | (True, result) \<Rightarrow>
                         (case CBB_finish 0 True result of
                            (None, _) \<Rightarrow> (None, inp)
                          | (Some data, _) \<Rightarrow> (Some (CBS_init data, Some data), inp)))))"

end
