(* ===== verification/Ber_Spec.thy ===== *)
theory Ber_Spec
  imports Ber
begin

text \<open>
  Correctness of the conversion from BER to DER: trees of BER elements with every choice of length
  form, their distinguished meaning, and what the two passes of \<open>crypto/bytestring/ber.c\<close> make of
  them.
\<close>

section \<open>BER trees\<close>

text \<open>
  A BER element with the choices the sender has: how many length octets follow the first one (0 for
  the short form), and for a constructed element an indefinite length (\<open>None\<close>).
\<close>

datatype ber = Prim u32 nat "byte list" | Constr u32 "nat option" "ber list"

definition ber_len :: "nat \<Rightarrow> nat \<Rightarrow> byte list" where
  "ber_len k n = (if k = 0 then [of_nat n] else of_nat (128 + k) # be_bytes k n)"

definition len_form_ok :: "nat \<Rightarrow> nat \<Rightarrow> bool" where
  "len_form_ok k n = (if k = 0 then n < 128 else k \<le> 4 \<and> n < 256 ^ k)"

definition minimal_len :: "nat \<Rightarrow> nat \<Rightarrow> bool" where
  "minimal_len k n = (k = 0 \<or> 128 \<le> n \<and> 256 ^ (k - 1) \<le> n)"

fun ber_enc :: "ber \<Rightarrow> byte list" and ber_encs :: "ber list \<Rightarrow> byte list" where
  "ber_enc (Prim tag k bs) = der_tag tag @ ber_len k (length bs) @ bs"
| "ber_enc (Constr tag (Some k) ts) = der_tag tag @ ber_len k (length (ber_encs ts)) @ ber_encs ts"
| "ber_enc (Constr tag None ts) = der_tag tag @ 0x80 # ber_encs ts @ [0, 0]"
| "ber_encs [] = []"
| "ber_encs (t # ts) = ber_enc t @ ber_encs ts"

text \<open>
  Inside a constructed string all elements have the string's tag (\<open>s\<close>; 0 outside), up to the
  constructed bit.
\<close>

definition primitive_tag :: "u32 \<Rightarrow> u32" where
  "primitive_tag tag = tag AND NOT CBS_ASN1_CONSTRUCTED"

definition inner_tag :: "u32 \<Rightarrow> u32 \<Rightarrow> u32" where
  "inner_tag s tag = (if s \<noteq> 0 then s else if is_string_type tag then primitive_tag tag else 0)"

definition result_tag :: "u32 \<Rightarrow> u32" where
  "result_tag tag = (if is_string_type tag then primitive_tag tag else tag)"

fun ber_ok :: "u32 \<Rightarrow> ber \<Rightarrow> bool" and ber_oks :: "u32 \<Rightarrow> ber list \<Rightarrow> bool" where
  "ber_ok s (Prim tag k bs) =
    (tag AND CBS_ASN1_CONSTRUCTED = 0 \<and> (s \<noteq> 0 \<longrightarrow> primitive_tag tag = s) \<and> len_form_ok k (length bs) \<and>
     (tag, k, bs) \<noteq> (0, 0, []))"
| "ber_ok s (Constr tag form ts) =
    (tag AND CBS_ASN1_CONSTRUCTED \<noteq> 0 \<and> (s \<noteq> 0 \<longrightarrow> primitive_tag tag = s) \<and> ber_oks (inner_tag s tag) ts \<and>
     (case form of None \<Rightarrow> True | Some k \<Rightarrow> len_form_ok k (length (ber_encs ts))))"
| "ber_oks s [] = True"
| "ber_oks s (t # ts) = (ber_ok s t \<and> ber_oks s ts)"

fun ber_height :: "ber \<Rightarrow> nat" and ber_heights :: "ber list \<Rightarrow> nat" where
  "ber_height (Prim tag k bs) = 0"
| "ber_height (Constr tag form ts) = Suc (ber_heights ts)"
| "ber_heights [] = 0"
| "ber_heights (t # ts) = max (ber_height t) (ber_heights ts)"

text \<open>The DER meaning of a tree: definite minimal lengths, and strings in one piece.\<close>

fun der_of :: "u32 \<Rightarrow> ber \<Rightarrow> byte list" and ders_of :: "u32 \<Rightarrow> ber list \<Rightarrow> byte list" where
  "der_of s (Prim tag k bs) = (if s \<noteq> 0 then bs else der tag bs)"
| "der_of s (Constr tag form ts) =
    (if s \<noteq> 0 then ders_of s ts else der (result_tag tag) (ders_of (inner_tag s tag) ts))"
| "ders_of s [] = []"
| "ders_of s (t # ts) = der_of s t @ ders_of s ts"

fun der_fits :: "u32 \<Rightarrow> ber \<Rightarrow> bool" and ders_fit :: "u32 \<Rightarrow> ber list \<Rightarrow> bool" where
  "der_fits s (Prim tag k bs) = (s \<noteq> 0 \<or> length bs \<le> 0xfffffffe)"
| "der_fits s (Constr tag form ts) =
    (ders_fit (inner_tag s tag) ts \<and> (s \<noteq> 0 \<or> length (ders_of (inner_tag s tag) ts) \<le> 0xfffffffe))"
| "ders_fit s [] = True"
| "ders_fit s (t # ts) = (der_fits s t \<and> ders_fit s ts)"

text \<open>
  What the first walk reports for a list of elements: an element in a form only BER has ends it; the
  report of a walk into a constructed element stands only until the next element is read.
\<close>

fun reports_ber :: "ber \<Rightarrow> bool" and walk_reports :: "bool \<Rightarrow> ber list \<Rightarrow> bool" where
  "reports_ber (Prim tag k bs) = False"
| "reports_ber (Constr tag form ts) = walk_reports False ts"
| "walk_reports found [] = found"
| "walk_reports found (t # ts) =
    (case t of
       Prim tag k bs \<Rightarrow> (\<not> minimal_len k (length bs) \<or> walk_reports False ts)
     | Constr tag None us \<Rightarrow> True
     | Constr tag (Some k) us \<Rightarrow>
         (\<not> minimal_len k (length (ber_encs us)) \<or> is_string_type tag \<or> walk_reports (reports_ber t) ts))"

lemmas ber_eval_simps = len_form_ok_def minimal_len_def primitive_tag_def inner_tag_def result_tag_def is_string_type_def
  string_tags_def

section \<open>Reading an element of a tree\<close>

lemma ber_element_definite:
  assumes "len_form_ok k (length bs)"
  shows "CBS_get_any_ber_asn1_element (der_tag tag @ ber_len k (length bs) @ bs @ rest) =
    (Some (der_tag tag @ ber_len k (length bs) @ bs, tag, length (der_tag tag) + length (ber_len k (length bs)),
       \<not> minimal_len k (length bs)), rest)"
proof -
  let ?n = "length bs"
  let ?h = "Suc (length (der_tag tag))"
  show ?thesis
  proof (cases "k = 0")
    case True
    then have n: "?n < 128" using assms by (simp add: len_form_ok_def)
    have b: "unat (of_nat ?n :: byte) = ?n" "(of_nat ?n :: byte) AND 0x80 = 0"
      using n by (simp_all add: unat_of_nat byte_high_bit)
    have "size_add ?n ?h = ?n + ?h"
      using n der_tag_length [of tag] by (intro size_add_exact) simp
    then show ?thesis
      using True b
      by (simp add: CBS_get_any_ber_asn1_element_def cbs_get_any_asn1_element_def ber_len_def parse_der_tag cbs_simps Let_def
          CBS_len_def asn1_take_element_def CBS_get_bytes_eq minimal_len_def)
  next
    case False
    then have k: "1 \<le> k" "k \<le> 4" "?n < 256 ^ k" using assms by (simp_all add: len_form_ok_def)
    have b: "(of_nat (128 + k) :: byte) AND 0x80 \<noteq> 0" "unat ((of_nat (128 + k) :: byte) AND 0x7f) = k"
      using k(1,2) by (auto simp: byte_high_bit unat_byte_low7 unat_of_nat_byte simp del: of_nat_add)
    have v: "be_val (be_bytes k ?n) = ?n" using k(3) by (simp add: be_simps)
    have h: "?h < 2 ^ 63" using der_tag_length [of tag] by simp
    have l: "asn1_long_length True k ?h (be_bytes k ?n @ bs @ rest) = Some (?n + ?h + k, ?h + k, \<not> minimal_len k ?n)"
      using asn1_long_length_eq [OF k(1,2) length_be_bytes h, of True] v False by (simp add: minimal_len_def)
    show ?thesis
      using False b l
      by (simp add: CBS_get_any_ber_asn1_element_def cbs_get_any_asn1_element_def ber_len_def parse_der_tag cbs_simps Let_def
          CBS_len_def asn1_take_element_def CBS_get_bytes_eq del: of_nat_add)
  qed
qed

lemma ber_element_indefinite:
  assumes "tag AND CBS_ASN1_CONSTRUCTED \<noteq> 0"
  shows "CBS_get_any_ber_asn1_element (der_tag tag @ 0x80 # rest) =
    (Some (der_tag tag @ [0x80], tag, Suc (length (der_tag tag)), True), rest)"
proof -
  have "unat ((0x80 :: byte) AND 0x7f) = 0" "(0x80 :: byte) AND 0x80 \<noteq> 0" by simp_all
  then show ?thesis
    using assms
    by (simp add: CBS_get_any_ber_asn1_element_def cbs_get_any_asn1_element_def parse_der_tag cbs_simps Let_def
        CBS_len_def asn1_take_element_def CBS_get_bytes_eq)
qed

lemma der_tag_0 [simp]: "der_tag 0 = [0]"
  by (simp add: der_tag_def)

lemma der_tag_inject: "der_tag t = der_tag u \<Longrightarrow> t = u"
  using parse_der_tag [of t "[]"] parse_der_tag [of u "[]"] by simp

lemma ber_element_eoc: "CBS_get_any_ber_asn1_element (0 # 0 # rest) = (Some ([0, 0], 0, 2, False), rest)"
  using ber_element_definite [of 0 "[]" 0 rest] by (simp add: len_form_ok_def ber_len_def minimal_len_def numeral_2_eq_2)

lemma ber_len_nonempty: "0 < length (ber_len k n)" "0 < length (der_tag t)"
  by (simp_all add: ber_len_def der_tag_def Let_def)

lemma not_eoc:
  assumes "(tag, k, bs) \<noteq> (0, 0, [])" and "len_form_ok k (length bs)"
  shows "\<not> is_eoc (length (der_tag tag) + length (ber_len k (length bs))) (der_tag tag @ ber_len k (length bs) @ bs)"
proof
  assume e: "is_eoc (length (der_tag tag) + length (ber_len k (length bs))) (der_tag tag @ ber_len k (length bs) @ bs)"
  let ?x = "der_tag tag @ ber_len k (length bs) @ bs"
  have "length (der_tag tag) + length (ber_len k (length bs)) = 2" "length bs = 0"
    using e unfolding is_eoc_def CBS_len_def length_append by linarith+
  then have l: "length (der_tag tag) + length (ber_len k 0) = 2" and bs: "bs = []" by simp_all
  have one: "length (der_tag tag) = 1" "length (ber_len k 0) = 1"
    using l ber_len_nonempty(1) [of k 0] ber_len_nonempty(2) [of tag] by linarith+
  have "?x = [0, 0]"
    using e memcmp_eq_0 [of ?x "[0, 0]"] by (simp add: is_eoc_def CBS_data_def CBS_len_def)
  then have "der_tag tag @ ber_len k 0 = [0] @ [0]" by (simp add: bs)
  then have "der_tag tag = [0]" using one(1) by (cases "der_tag tag") auto
  then have "tag = 0" using der_tag_inject [of tag 0] by simp
  moreover have "k = 0" using one(2) by (simp add: ber_len_def split: if_splits)
  ultimately show False using assms(1) bs by simp
qed

lemma ber_enc_nonempty [simp]: "ber_enc t \<noteq> []"
proof (cases t)
  case (Constr tag form ts)
  then show ?thesis using ber_len_nonempty(2) by (cases form) auto
qed (use ber_len_nonempty(2) in auto)

section \<open>The walk\<close>

lemma find_ber_trees:
  "ber_ok s t \<Longrightarrow> depth + ber_height t \<le> kMaxDepth \<Longrightarrow>
     (case t of
        Prim tag k bs \<Rightarrow> cbs_find_ber depth found (ber_enc t @ rest) =
          (if minimal_len k (length bs) then cbs_find_ber depth False rest else (True, True))
      | Constr tag form us \<Rightarrow> cbs_find_ber depth found (ber_enc t @ rest) =
          (if form = None \<or> \<not> minimal_len (the form) (length (ber_encs us)) \<or> is_string_type tag then (True, True)
           else cbs_find_ber depth (reports_ber t) rest))"
  "ber_oks s ts \<Longrightarrow> depth + ber_heights ts \<le> kMaxDepth \<Longrightarrow>
     cbs_find_ber depth found (ber_encs ts) = (True, walk_reports found ts)"
proof (induction t and ts arbitrary: s depth found rest and s depth found rule: ber_enc_ber_encs.induct)
  case (1 tag k bs)
  have e: "CBS_get_any_ber_asn1_element (ber_enc (Prim tag k bs) @ rest) =
      (Some (der_tag tag @ ber_len k (length bs) @ bs, tag, length (der_tag tag) + length (ber_len k (length bs)),
         \<not> minimal_len k (length bs)), rest)"
    using 1 ber_element_definite [of k bs tag rest] by simp
  then show ?case
    using 1 by (subst cbs_find_ber.simps) (simp add: CBS_len_def del: ber_enc.simps)
next
  case (2 tag k ts)
  let ?body = "ber_encs ts"
  have e: "CBS_get_any_ber_asn1_element (ber_enc (Constr tag (Some k) ts) @ rest) =
      (Some (der_tag tag @ ber_len k (length ?body) @ ?body, tag, length (der_tag tag) + length (ber_len k (length ?body)),
         \<not> minimal_len k (length ?body)), rest)"
    using 2 ber_element_definite [of k ?body tag rest] by simp
  have skip: "CBS_skip (length (der_tag tag) + length (ber_len k (length ?body))) (der_tag tag @ ber_len k (length ?body) @ ?body) =
      (Some (), ?body)"
    by (simp add: CBS_skip_eq)
  show ?case
  proof (cases "minimal_len k (length ?body) \<and> \<not> is_string_type tag")
    case True
    have "cbs_find_ber (depth + 1) False ?body = (True, walk_reports False ts)"
      using 2 by auto
    then show ?thesis
      using 2(3,4) True e skip by (subst cbs_find_ber.simps) (simp add: CBS_len_def del: ber_enc.simps)
  next
    case False
    then show ?thesis
      using 2(3,4) e by (subst cbs_find_ber.simps) (auto simp add: CBS_len_def simp del: ber_enc.simps)
  qed
next
  case (3 tag ts)
  have e: "CBS_get_any_ber_asn1_element (ber_enc (Constr tag None ts) @ rest) =
      (Some (der_tag tag @ [0x80], tag, Suc (length (der_tag tag)), True), ber_encs ts @ 0 # 0 # rest)"
    using 3 ber_element_indefinite [of tag "ber_encs ts @ 0 # 0 # rest"] by simp
  then show ?case
    using 3(2,3) by (subst cbs_find_ber.simps) (simp add: CBS_len_def del: ber_enc.simps)
next
  case 4
  then show ?case by (subst cbs_find_ber.simps) (simp add: CBS_len_def)
next
  case (5 t ts)
  have t: "ber_ok s t" "depth + ber_height t \<le> kMaxDepth" and ts: "ber_oks s ts" "depth + ber_heights ts \<le> kMaxDepth"
    using 5(3,4) by auto
  note IH1 = 5(1) [OF t, of found "ber_encs ts"]
  note IH2 = 5(2) [OF ts]
  show ?case
    using IH1 IH2 by (cases t) (auto split: option.splits)
qed


section \<open>The conversion\<close>

text \<open>What the conversion of a tree writes, call by call.\<close>

fun ber_step :: "nat \<Rightarrow> u32 \<Rightarrow> ber \<Rightarrow> cbb step" and ber_steps :: "nat \<Rightarrow> u32 \<Rightarrow> ber list \<Rightarrow> cbb step" where
  "ber_step d s (Prim tag k bs) =
    and_then (if s \<noteq> 0 then CBB_add_bytes d bs else and_then (CBB_add_asn1 d tag) (CBB_add_bytes (Suc d) bs)) (CBB_flush d)"
| "ber_step d s (Constr tag form ts) =
    and_then (if s \<noteq> 0 then ber_steps d s ts
              else and_then (CBB_add_asn1 d (result_tag tag)) (ber_steps (Suc d) (inner_tag s tag) ts)) (CBB_flush d)"
| "ber_steps d s [] = succeed"
| "ber_steps d s (t # ts) = and_then (ber_step d s t) (ber_steps d s ts)"

lemma emits_ber_step:
  "emits d (ber_step d s t) (der_of s t) (der_fits s t)"
  "emits d (ber_steps d s ts) (ders_of s ts) (ders_fit s ts)"
proof (induction d s t and d s ts rule: ber_step_ber_steps.induct)
  case (1 d s tag k bs)
  have "emits d (if s \<noteq> 0 then CBB_add_bytes d bs else and_then (CBB_add_asn1 d tag) (CBB_add_bytes (Suc d) bs))
      (if s \<noteq> 0 then bs else der tag bs) (s \<noteq> 0 \<or> length bs \<le> 0xfffffffe)"
    using emits_add_bytes [of d bs] emits_asn1 [OF emits_add_bytes [of "Suc d" bs], of tag] by simp
  then show ?case using emits_and_then [OF _ emits_flush [of d]] by fastforce
next
  case (2 d s tag form ts)
  have "emits d (if s \<noteq> 0 then ber_steps d s ts
        else and_then (CBB_add_asn1 d (result_tag tag)) (ber_steps (Suc d) (inner_tag s tag) ts))
      (der_of s (Constr tag form ts)) (der_fits s (Constr tag form ts))"
  proof (cases "s = 0")
    case True
    then show ?thesis using emits_asn1 [OF 2(2), of "result_tag tag"] by simp
  next
    case False
    then have "inner_tag s tag = s" by (simp add: inner_tag_def)
    then show ?thesis using 2(1) False by simp
  qed
  then show ?case using emits_and_then [OF _ emits_flush [of d]] by fastforce
next
  case (3 d s)
  then show ?case by (simp add: emits_succeed)
next
  case (4 d s t ts)
  then show ?case using emits_and_then by simp
qed

lemma and_then_True: "and_then f g c = (True, c') \<longleftrightarrow> (\<exists>c1. f c = (True, c1) \<and> g c1 = (True, c'))"
  by (auto simp: and_then_def split: prod.splits if_splits)

text \<open>The test for an indefinite length does not take a definite one for it.\<close>

lemma definite_length_octet:
  fixes tag :: u32
  assumes "len_form_ok k (length bs)"
  defines "hl \<equiv> length (der_tag tag) + length (ber_len k (length bs))"
  shows "\<not> (CBS_len (der_tag tag @ ber_len k (length bs) @ bs) = hl \<and> 0 < hl \<and>
    CBS_data (der_tag tag @ ber_len k (length bs) @ bs) ! (hl - 1) = 0x80)"
proof
  assume a: "CBS_len (der_tag tag @ ber_len k (length bs) @ bs) = hl \<and> 0 < hl \<and>
    CBS_data (der_tag tag @ ber_len k (length bs) @ bs) ! (hl - 1) = 0x80"
  then have "length bs = 0" unfolding CBS_len_def length_append hl_def by linarith
  then have bs: "bs = []" by simp
  have "last (der_tag tag @ ber_len k 0) = 0x80"
    using a by (simp add: CBS_data_def hl_def bs last_conv_nth ber_len_nonempty(2) [unfolded length_greater_0_conv])
  moreover have "last (ber_len k 0) = 0" by (cases k) (auto simp: ber_len_def)
  ultimately show False using ber_len_nonempty(1) [of k 0] by simp
qed

lemma convert_definite:
  assumes "len_form_ok k (length bs)" and "(tag, k, bs) \<noteq> (0, 0, [])" and "s \<noteq> 0 \<longrightarrow> primitive_tag tag = s"
    and "depth \<le> kMaxDepth"
    and "(if s \<noteq> 0 then (True, cbb)
      else CBB_add_asn1 d (if tag AND CBS_ASN1_CONSTRUCTED \<noteq> 0 then result_tag tag else tag) cbb) = (True, c0)"
    and "(if tag AND CBS_ASN1_CONSTRUCTED \<noteq> 0
      then (\<exists>x. cbs_convert_ber (if s \<noteq> 0 then d else Suc d) (inner_tag s tag) False (depth + 1) bs c0 = Some (True, x, c1))
      else CBB_add_bytes (if s \<noteq> 0 then d else Suc d) bs c0 = (True, c1))"
    and "CBB_flush d c1 = (True, c2)"
  shows "cbs_convert_ber d s look depth (der_tag tag @ ber_len k (length bs) @ bs @ rest) cbb =
    cbs_convert_ber d s look depth rest c2"
proof -
  note e = ber_element_definite [OF assms(1), of tag rest]
  note no = not_eoc [OF assms(2,1)]
  note n80 = definite_length_octet [OF assms(1), of tag]
  have skip: "CBS_skip (length (der_tag tag) + length (ber_len k (length bs))) (der_tag tag @ ber_len k (length bs) @ bs) =
      (Some (), bs)"
    by (simp add: CBS_skip_eq)
  have ne: "CBS_len (der_tag tag @ ber_len k (length bs) @ bs @ rest) \<noteq> 0"
    using ber_len_nonempty(2) [of tag] by (simp add: CBS_len_def)
  have st: "\<not> (s \<noteq> 0 \<and> tag AND NOT CBS_ASN1_CONSTRUCTED \<noteq> s)" using assms(3) by (auto simp: primitive_tag_def)
  have d: "\<not> kMaxDepth < depth" using assms(4) by simp
  show ?thesis
  proof (cases "tag AND CBS_ASN1_CONSTRUCTED = 0")
    case True
    have t: "(tag AND CBS_ASN1_CONSTRUCTED \<noteq> 0 \<and> is_string_type tag) = False" using True by simp
    have a5: "(if s \<noteq> 0 then (True, cbb) else CBB_add_asn1 d tag cbb) = (True, c0)" using assms(5) True by (auto split: if_splits)
    have a6: "CBB_add_bytes (if s \<noteq> 0 then d else Suc d) bs c0 = (True, c1)" using assms(6) True by (auto split: if_splits)
    show ?thesis
      apply (subst cbs_convert_ber.simps)
      using a5 a6
      apply (simp only: d ne e no n80 st skip if_False if_True option.case prod.case Let_def t
         True not_True_eq_False not_False_eq_True simp_thms bind.bind_lunit assms(7))
      done
  next
    case False
    have t: "(tag AND CBS_ASN1_CONSTRUCTED \<noteq> 0 \<and> is_string_type tag) = is_string_type tag" using False by simp
    have r: "(if is_string_type tag then tag AND NOT CBS_ASN1_CONSTRUCTED else tag) = result_tag tag"
      "(if s \<noteq> 0 then s else if is_string_type tag then result_tag tag else 0) = inner_tag s tag"
      by (simp_all add: result_tag_def primitive_tag_def inner_tag_def)
    have a5: "(if s \<noteq> 0 then (True, cbb) else CBB_add_asn1 d (result_tag tag) cbb) = (True, c0)"
      using assms(5) False by (auto split: if_splits)
    obtain x where a6: "cbs_convert_ber (if s \<noteq> 0 then d else Suc d) (inner_tag s tag) False (depth + 1) bs c0 = Some (True, x, c1)"
      using assms(6) False by auto
    show ?thesis
      apply (subst cbs_convert_ber.simps)
      using a5 a6 False
      by (simp only: d ne e no n80 st skip if_False if_True option.case prod.case Let_def t r
         not_True_eq_False not_False_eq_True simp_thms bind.bind_lunit assms(7))
  qed
qed

lemma convert_indefinite:
  assumes "tag AND CBS_ASN1_CONSTRUCTED \<noteq> 0" and "s \<noteq> 0 \<longrightarrow> primitive_tag tag = s" and "depth \<le> kMaxDepth"
    and "(if s \<noteq> 0 then (True, cbb) else CBB_add_asn1 d (result_tag tag) cbb) = (True, c0)"
    and "cbs_convert_ber (if s \<noteq> 0 then d else Suc d) (inner_tag s tag) True (depth + 1) inp c0 = Some (True, rest, c1)"
    and "CBB_flush d c1 = (True, c2)"
  shows "cbs_convert_ber d s look depth (der_tag tag @ 0x80 # inp) cbb = cbs_convert_ber d s look depth rest c2"
proof -
  note e = ber_element_indefinite [OF assms(1), of inp]
  let ?el = "der_tag tag @ [0x80]" and ?hl = "Suc (length (der_tag tag))"
  have no: "\<not> is_eoc ?hl ?el"
  proof
    assume i: "is_eoc ?hl ?el"
    then have "length ?el = length [0, 0 :: byte]" by (simp add: is_eoc_def CBS_len_def)
    moreover have "memcmp ?el [0, 0] = 0" using i by (simp add: is_eoc_def CBS_data_def)
    ultimately have "?el = [0, 0]" using memcmp_eq_0 by blast
    then show False by (simp add: append_eq_Cons_conv)
  qed
  have i80: "CBS_len ?el = ?hl \<and> 0 < ?hl \<and> CBS_data ?el ! (?hl - 1) = 0x80"
    by (simp add: CBS_len_def CBS_data_def)
  have ne: "CBS_len (der_tag tag @ 0x80 # inp) \<noteq> 0" by (simp add: CBS_len_def)
  have st: "\<not> (s \<noteq> 0 \<and> tag AND NOT CBS_ASN1_CONSTRUCTED \<noteq> s)" using assms(2) by (auto simp: primitive_tag_def)
  have d: "\<not> kMaxDepth < depth" using assms(3) by simp
  have t: "(tag AND CBS_ASN1_CONSTRUCTED \<noteq> 0 \<and> is_string_type tag) = is_string_type tag" using assms(1) by simp
  have r: "(if is_string_type tag then tag AND NOT CBS_ASN1_CONSTRUCTED else tag) = result_tag tag"
    "(if s \<noteq> 0 then s else if is_string_type tag then result_tag tag else 0) = inner_tag s tag"
    by (simp_all add: result_tag_def primitive_tag_def inner_tag_def)
  show ?thesis
    apply (subst cbs_convert_ber.simps)
    using assms(4,5)
    by (simp only: d ne e no i80 st if_False if_True option.case prod.case Let_def t r
       not_True_eq_False not_False_eq_True simp_thms bind.bind_lunit assms(6))
qed

lemma convert_end:
  assumes "depth \<le> kMaxDepth"
  shows "cbs_convert_ber d s False depth [] cbb = Some (True, [], cbb)"
    and "cbs_convert_ber d s True depth (0 # 0 # rest) cbb = Some (True, rest, cbb)"
  using assms ber_element_eoc [of rest]
  by (subst cbs_convert_ber.simps; simp add: CBS_len_def CBS_data_def is_eoc_def)+

text \<open>Where the calls succeed the conversion of a tree is those calls.\<close>

lemma convert_trees:
  "ber_ok s t \<Longrightarrow> depth + ber_height t \<le> kMaxDepth \<Longrightarrow> ber_step d s t cbb = (True, cbb') \<Longrightarrow>
     cbs_convert_ber d s look depth (ber_enc t @ rest) cbb = cbs_convert_ber d s look depth rest cbb'"
  "ber_oks s ts \<Longrightarrow> depth + ber_heights ts \<le> kMaxDepth \<Longrightarrow> ber_steps d s ts cbb = (True, cbb') \<Longrightarrow>
     cbs_convert_ber d s look depth (ber_encs ts @ rest) cbb = cbs_convert_ber d s look depth rest cbb'"
proof (induction d s t and d s ts arbitrary: depth cbb cbb' look rest and depth cbb cbb' look rest
    rule: ber_step_ber_steps.induct)
  case (1 d s tag k bs)
  obtain c1 where f: "CBB_flush d c1 = (True, cbb')"
    and a: "(if s \<noteq> 0 then CBB_add_bytes d bs else and_then (CBB_add_asn1 d tag) (CBB_add_bytes (Suc d) bs)) cbb = (True, c1)"
    using 1(3) by (auto simp: and_then_True)
  then obtain c0 where c0: "(if s \<noteq> 0 then (True, cbb) else CBB_add_asn1 d tag cbb) = (True, c0)"
    "CBB_add_bytes (if s \<noteq> 0 then d else Suc d) bs c0 = (True, c1)"
    by (auto simp: and_then_True split: if_splits)
  show ?case
    using convert_definite [of k bs tag s depth cbb d c0 c1 cbb' look rest] 1(1,2) c0 f by (simp split: if_splits)
next
  case (2 d s tag form ts)
  let ?d = "if s \<noteq> 0 then d else Suc d"
  obtain c1 where f: "CBB_flush d c1 = (True, cbb')"
    and a: "(if s \<noteq> 0 then ber_steps d s ts
        else and_then (CBB_add_asn1 d (result_tag tag)) (ber_steps (Suc d) (inner_tag s tag) ts)) cbb = (True, c1)"
    using 2(5) by (auto simp: and_then_True)
  have ist: "s \<noteq> 0 \<Longrightarrow> inner_tag s tag = s" by (simp add: inner_tag_def)
  obtain c0 where c0: "(if s \<noteq> 0 then (True, cbb) else CBB_add_asn1 d (result_tag tag) cbb) = (True, c0)"
    "ber_steps ?d (inner_tag s tag) ts c0 = (True, c1)"
    using a ist by (auto simp: and_then_True split: if_splits)
  have ok: "tag AND CBS_ASN1_CONSTRUCTED \<noteq> 0" "s \<noteq> 0 \<longrightarrow> primitive_tag tag = s" "ber_oks (inner_tag s tag) ts"
    "depth + 1 + ber_heights ts \<le> kMaxDepth" "depth \<le> kMaxDepth" "depth + 1 \<le> kMaxDepth"
    using 2(3,4) by auto
  have IH: "cbs_convert_ber ?d (inner_tag s tag) lk (depth + 1) (ber_encs ts @ r) c0 =
      cbs_convert_ber ?d (inner_tag s tag) lk (depth + 1) r c1" for lk r
  proof (cases "s = 0")
    case True
    then have z: "\<not> s \<noteq> 0" by simp
    show ?thesis using 2(2) [OF z, of "depth + 1" c0 c1 lk r] True ok(3,4) c0(2) by simp
  next
    case False
    then show ?thesis using 2(1) [OF False, of "depth + 1" c0 c1 lk r] ok(3,4) c0(2) ist by simp
  qed
  show ?case
  proof (cases form)
    case None
    have inner: "cbs_convert_ber ?d (inner_tag s tag) True (depth + 1) (ber_encs ts @ 0 # 0 # rest) c0 = Some (True, rest, c1)"
      unfolding IH by (rule convert_end(2) [OF ok(6)])
    from convert_indefinite [OF ok(1,2,5) c0(1) inner f, of look] show ?thesis by (simp add: None)
  next
    case (Some k)
    have "cbs_convert_ber ?d (inner_tag s tag) False (depth + 1) (ber_encs ts) c0 = Some (True, [], c1)"
      using IH [of False "[]"] convert_end(1) [OF ok(6)] by simp
    then have a6: "if tag AND CBS_ASN1_CONSTRUCTED \<noteq> 0
        then (\<exists>x. cbs_convert_ber ?d (inner_tag s tag) False (depth + 1) (ber_encs ts) c0 = Some (True, x, c1))
        else CBB_add_bytes ?d (ber_encs ts) c0 = (True, c1)"
      using ok(1) by auto
    have a5: "(if s \<noteq> 0 then (True, cbb)
        else CBB_add_asn1 d (if tag AND CBS_ASN1_CONSTRUCTED \<noteq> 0 then result_tag tag else tag) cbb) = (True, c0)"
      using c0(1) ok(1) by (auto split: if_splits)
    have "len_form_ok k (length (ber_encs ts))" "(tag, k, ber_encs ts) \<noteq> (0, 0, [])"
      using 2(3) ok(1) by (auto simp: Some)
    from convert_definite [OF this ok(2,5) a5 a6 f, of look rest] show ?thesis by (simp add: Some)
  qed
next
  case (3 d s)
  then show ?case by (simp add: succeed_def)
next
  case (4 d s t ts)
  obtain c1 where c1: "ber_step d s t cbb = (True, c1)" "ber_steps d s ts c1 = (True, cbb')"
    using 4(5) by (auto simp: and_then_True)
  show ?case
    using 4(1) [OF _ _ c1(1), of depth look "ber_encs ts @ rest"] 4(2) [OF _ _ c1(2), of depth look rest] 4(3,4) by simp
qed


text \<open>The conversion returns on every input, with no more of the input than it was given.\<close>

definition returns_within :: "nat \<Rightarrow> (bool \<times> cbs \<times> cbb) option \<Rightarrow> bool" where
  "returns_within n r \<longleftrightarrow> (\<exists>ok inp cbb. r = Some (ok, inp, cbb) \<and> length inp \<le> n)"

lemma returns_Some: "length inp \<le> n \<Longrightarrow> returns_within n (Some (ok, inp, cbb))"
  by (simp add: returns_within_def)

lemma returns_if: "(c \<Longrightarrow> returns_within n a) \<Longrightarrow> (\<not> c \<Longrightarrow> returns_within n b) \<Longrightarrow> returns_within n (if c then a else b)"
  by simp

lemma returns_prod: "(\<And>a b. x = (a, b) \<Longrightarrow> returns_within n (f a b)) \<Longrightarrow> returns_within n (case x of (a, b) \<Rightarrow> f a b)"
  by (cases x) simp

lemma returns_bind:
  "returns_within m x \<Longrightarrow> (\<And>ok inp cbb. length inp \<le> m \<Longrightarrow> returns_within n (f (ok, inp, cbb))) \<Longrightarrow>
   returns_within n (Option.bind x f)"
  by (auto simp: returns_within_def)

lemma returns_option:
  "(x = None \<Longrightarrow> returns_within n a) \<Longrightarrow> (\<And>y. x = Some y \<Longrightarrow> returns_within n (f y)) \<Longrightarrow>
   returns_within n (case x of None \<Rightarrow> a | Some y \<Rightarrow> f y)"
  by (cases x) simp_all

lemma returns_bind_pair:
  "\<exists>ok cbb. x = Some (ok, cbb) \<Longrightarrow> (\<And>ok cbb. returns_within n (f (ok, cbb))) \<Longrightarrow> returns_within n (Option.bind x f)"
  by auto

lemma convert_returns: "returns_within (length inp) (cbs_convert_ber d s look depth inp cbb)"
proof (induction inp arbitrary: d s look depth cbb rule: length_induct)
  case (1 inp)
  obtain el rest where g: "CBS_get_any_ber_asn1_element inp = (el, rest)" by (cases "CBS_get_any_ber_asn1_element inp")
  show ?case
  proof (cases el)
    case None
    then have "rest = inp"
      using g by (auto simp: CBS_get_any_ber_asn1_element_def dest: cbs_get_any_asn1_element_None)
    then show ?thesis using g None by (subst cbs_convert_ber.simps) (simp add: returns_Some)
  next
    case (Some e)
    obtain out tag hl ber where e: "e = (out, tag, hl, ber)" by (cases e)
    note g' = g [unfolded Some e]
    have sh: "length rest < length inp" "\<And>body. CBS_skip hl out = (Some (), body) \<Longrightarrow> length body < length inp"
      using ber_element_shorter [OF g'] by blast+
    have rec: "returns_within (length x) (cbs_convert_ber d s look depth x cbb)" if "length x < length inp" for d s look depth x cbb
      using "1.IH" that by blast
    have rec': "returns_within (length inp) (cbs_convert_ber d s look depth x cbb)" if "length x < length inp" for d s look depth x cbb
      using rec [OF that, of d s look depth cbb] that by (auto simp: returns_within_def)
    have tail: "returns_within (length inp) (case (if ok1 then CBB_flush d c1 else (False, c1)) of (ok, cbb) \<Rightarrow>
        if \<not> ok then Some (False, x, cbb) else cbs_convert_ber d s look depth x cbb)" if "length x < length inp" for ok1 c1 x d s look depth
      using that by (intro returns_prod returns_if returns_Some rec') simp_all
    have conv_some: "\<exists>ok cbb'. (if c then Option.bind (cbs_convert_ber d s look depth x cbb) (\<lambda>(ok, _, cbb). Some (ok, cbb))
        else Some (r :: bool \<times> cbb)) = Some (ok, cbb')" if "length x < length inp" for c d s look depth x cbb r
      using rec [OF that, of d s look depth cbb] by (cases r) (auto simp: returns_within_def)
    have skip_shorter: "length x < length inp" if "CBS_skip hl out = (Some u, x)" for u x
      using sh(2) that by simp
    show ?thesis
      apply (subst cbs_convert_ber.simps)
      apply (simp only: g' option.case prod.case Let_def)
      apply (intro returns_if returns_prod returns_option)
             apply (simp_all only: returns_Some sh(1) less_imp_le order_refl)
       prefer 2
       apply (rule returns_bind_pair)
        apply (rule conv_some)
        apply (drule skip_shorter, assumption)
       apply (simp only: prod.case)
       apply (rule tail [OF sh(1)])
      apply (rule returns_bind [OF rec [OF sh(1)]])
      apply (simp only: prod.case)
      apply (rule tail)
      apply (erule le_less_trans [OF _ sh(1)])
      done
  qed
qed


lemma implicit_chunks_emits:
  assumes "list_all (\<lambda>x. length x < 2 ^ 32) xs"
  shows "emits 0 (implicit_chunks t (concat (map (der t) xs))) (concat xs) True"
  using assms
proof (induction xs)
  case Nil
  have "implicit_chunks t [] = succeed"
    by (rule ext, subst implicit_chunks.simps) (simp add: CBS_len_def succeed_def)
  then show ?case by (simp add: emits_succeed)
next
  case (Cons x xs)
  have "implicit_chunks t (concat (map (der t) (x # xs))) =
      and_then (CBB_add_bytes 0 x) (implicit_chunks t (concat (map (der t) xs)))"
  proof
    fix c
    have "CBS_get_asn1 t (concat (map (der t) (x # xs))) = (Some x, concat (map (der t) xs))"
      using Cons.prems by (auto simp: CBS_get_asn1_iff)
    moreover have "0 < CBS_len (concat (map (der t) (x # xs)))" by (simp add: CBS_len_def)
    ultimately show "implicit_chunks t (concat (map (der t) (x # xs))) c =
        and_then (CBB_add_bytes 0 x) (implicit_chunks t (concat (map (der t) xs))) c"
      by (subst implicit_chunks.simps) (simp add: CBS_data_def and_then_def split: prod.splits bool.splits)
  qed
  moreover have "emits 0 (implicit_chunks t (concat (map (der t) xs))) (concat xs) True"
    using Cons by simp
  ultimately show ?case
    using emits_and_then [OF emits_add_bytes [of 0 x], of "implicit_chunks t (concat (map (der t) xs))" "concat xs" True] by simp
qed

text \<open>A string in chunks behind its outer tag is put together.\<close>

lemma implicit_string_constructed:
  assumes "list_all (\<lambda>x. length x < 2 ^ 32) xs" and "length (concat (map (der t) xs)) < 2 ^ 32" and "length (concat xs) < 2 ^ 62"
    and "ot \<noteq> ot OR CBS_ASN1_CONSTRUCTED" and "False \<notin> set h" and "length rest < 2 ^ 63"
  shows "CBS_get_asn1_implicit_string (der (ot OR CBS_ASN1_CONSTRUCTED) (concat (map (der t) xs)) @ rest) ot t h =
    (Some (concat xs, Some (concat xs)), rest)"
proof -
  let ?in = "der (ot OR CBS_ASN1_CONSTRUCTED) (concat (map (der t) xs)) @ rest"
  have "parse_asn1_tag ?in = (Some (ot OR CBS_ASN1_CONSTRUCTED), der_len (length (concat (map (der t) xs))) @ concat (map (der t) xs) @ rest)"
    by (simp add: der_def parse_der_tag)
  then have peek: "\<not> CBS_peek_asn1_tag ?in ot" using assms(4) by (simp add: CBS_peek_asn1_tag_def)
  have get: "CBS_get_asn1 (ot OR CBS_ASN1_CONSTRUCTED) ?in = (Some (concat (map (der t) xs)), rest)"
    using assms(2) by (simp add: CBS_get_asn1_iff)
  have len: "CBS_len ?in < 2 ^ 64"
    using assms(2,6) der_tag_length [of "ot OR CBS_ASN1_CONSTRUCTED"] der_len_length(2) [of "length (concat (map (der t) xs))"]
    by (simp add: CBS_len_def der_def)
  obtain ok c where c: "CBB_init (CBS_len ?in) h = (ok, c)" by (cases "CBB_init (CBS_len ?in) h")
  obtain ok1 c1 where c1: "implicit_chunks t (concat (map (der t) xs)) c = (ok1, c1)"
    by (cases "implicit_chunks t (concat (map (der t) xs)) c")
  obtain out c2 where c2: "CBB_finish 0 True c1 = (out, c2)" by (cases "CBB_finish 0 True c1")
  have "ok \<and> ok1 \<and> out = Some (concat xs)"
    using emits_run(2) [OF implicit_chunks_emits [OF assms(1)] c len _ c1 c2 assms(5) TrueI TrueI assms(3)] assms(3) by simp
  then show ?thesis
    using peek get c c1 c2 by (simp add: CBS_get_asn1_implicit_string_def CBS_init_def)
qed

text \<open>What the conversion returns once the walk has reported BER.\<close>

lemma ber_reported:
  assumes "ber_oks 0 ts" and "ber_heights ts \<le> 2048" and "ders_fit 0 ts"
    and "length (ders_of 0 ts) < 2 ^ 62" and "length (ber_encs ts) < 2 ^ 64" and "False \<notin> set h" and "walk_reports False ts"
  shows "CBS_asn1_ber_to_der (ber_encs ts) h = Some (Some (ders_of 0 ts, Some (ders_of 0 ts)), [])"
proof -
  let ?in = "ber_encs ts"
  have h: "0 + ber_heights ts \<le> kMaxDepth" using assms(2) by (simp add: kMaxDepth_def)
  have f: "cbs_find_ber 0 False ?in = (True, True)" using find_ber_trees(2) [OF assms(1) h] assms(7) by simp
  obtain ok c where c: "CBB_init (length ?in) h = (ok, c)" by (cases "CBB_init (length ?in) h")
  obtain ok1 c1 where c1: "ber_steps 0 0 ts c = (ok1, c1)" by (cases "ber_steps 0 0 ts c")
  obtain out c2 where c2: "CBB_finish 0 True c1 = (out, c2)" by (cases "CBB_finish 0 True c1")
  have l: "length (ders_of 0 ts) < 2 ^ 64" using assms(4) by simp
  have R: "ok \<and> ok1 \<and> out = Some (ders_of 0 ts)"
    by (rule emits_run(2) [OF emits_ber_step(2) c assms(5) l c1 c2 assms(6,3) TrueI assms(4)])
  have "cbs_convert_ber 0 0 False 0 (?in @ []) c = cbs_convert_ber 0 0 False 0 [] c1"
    using R c1 by (intro convert_trees(2) [OF assms(1) h]) simp
  also have "\<dots> = Some (True, [], c1)" by (rule convert_end(1)) simp
  finally have "cbs_convert_ber 0 0 False 0 ?in c = Some (True, [], c1)" by simp
  then show ?thesis
    using f c c2 R unfolding CBS_asn1_ber_to_der_def CBS_len_def by (simp add: CBS_init_def)
qed

lemma ber_unreported:
  assumes "ber_oks 0 (t # ts)" and "ber_heights (t # ts) \<le> 2048" and rep: "\<not> walk_reports False (t # ts)"
  shows "CBS_asn1_ber_to_der (ber_encs (t # ts)) h = Some (Some (ber_enc t, None), ber_encs ts)"
proof -
  let ?in = "ber_encs (t # ts)"
  have h: "0 + ber_heights (t # ts) \<le> kMaxDepth" using assms(2) by (simp add: kMaxDepth_def)
  have f: "cbs_find_ber 0 False ?in = (True, False)" using find_ber_trees(2) [OF assms(1) h] rep by simp
  have "\<exists>tag hl. CBS_get_any_ber_asn1_element (ber_enc t @ ber_encs ts) = (Some (ber_enc t, tag, hl, False), ber_encs ts)"
  proof (cases t)
    case (Prim tag k bs)
    then show ?thesis
      using rep assms(1) ber_element_definite [of k bs tag "ber_encs ts"] by auto
  next
    case (Constr tag form us)
    then show ?thesis
      using rep assms(1) ber_element_definite [of "the form" "ber_encs us" tag "ber_encs ts"] by (cases form) auto
  qed
  then obtain tag hl where "CBS_get_any_asn1_element ?in = (Some (ber_enc t, tag, hl), ber_encs ts)"
    unfolding ber_encs.simps CBS_get_any_ber_asn1_element_def cbs_get_any_asn1_element_no_ber CBS_get_any_asn1_element_iff by blast
  then show ?thesis
    using f unfolding CBS_asn1_ber_to_der_def by (simp del: ber_encs.simps)
qed

section \<open>Properties\<close>



text \<open>C23: on every input whatever, malformed or hostile, and however the allocator answers, the conversion
  returns, and what it leaves of the input is no longer than the input.\<close>

theorem ber_to_der_returns:
  "\<exists>result rest. CBS_asn1_ber_to_der inp h = Some (result, rest) \<and> length rest \<le> length inp"
proof -
  obtain ok found where f: "cbs_find_ber 0 False inp = (ok, found)" by (cases "cbs_find_ber 0 False inp")
  obtain el rest where g: "CBS_get_any_asn1_element inp = (el, rest)" by (cases "CBS_get_any_asn1_element inp")
  have "length rest \<le> length inp"
    using g CBS_get_any_asn1_element_None [of inp rest] by (cases el) (auto simp: CBS_get_any_asn1_element_iff)
  obtain ok1 c where c: "CBB_init (CBS_len inp) h = (ok1, c)" by (cases "CBB_init (CBS_len inp) h")
  obtain ok2 rest2 c2 where v: "cbs_convert_ber 0 0 False 0 inp c = Some (ok2, rest2, c2)" "length rest2 \<le> length inp"
    using convert_returns [of inp 0 0 False 0 c] by (auto simp: returns_within_def)
  show ?thesis
    using \<open>length rest \<le> length inp\<close> v g c f
    by (cases ok; cases found; cases el; cases ok1)
      (auto simp: CBS_asn1_ber_to_der_def split: prod.splits option.splits)
qed


end
