(* ===== verification/Asn1_String.thy ===== *)
theory Asn1_String
  imports Unicode
begin

text \<open>
  The string type of \<open>crypto/asn1\<close>: \<open>ASN1_STRING\<close> (\<open>asn1_lib.c\<close>), the conversion between character
  sets with the choice of the smallest string type (\<open>ASN1_mbstring_ncopy\<close> of \<open>a_mbstr.c\<close>) and
  \<open>ASN1_STRING_to_UTF8\<close> of \<open>a_strex.c\<close>, over the readers and writers of \<open>Unicode\<close>.

  A string is its type and the bytes it points to, \<open>None\<close> for a null pointer; its \<open>length\<close> field is
  their number.  The type codes and formats are the numbers of \<open>asn1.h\<close>.
\<close>

section \<open>Strings\<close>

record asn1_string =
  atype :: int
  adata :: "byte list option"

definition alen :: "asn1_string \<Rightarrow> nat" where
  "alen s = (case adata s of None \<Rightarrow> 0 | Some bs \<Rightarrow> length bs)"

definition strlen :: "byte list \<Rightarrow> nat" where
  "strlen s = length (takeWhile (\<lambda>c. c \<noteq> 0) s)"

definition ASN1_STRING_type_new :: "int \<Rightarrow> heap \<Rightarrow> asn1_string option \<times> heap" where
  "ASN1_STRING_type_new type h =
     (case heap_alloc h of
        (False, h) \<Rightarrow> (None, h)
      | (True, h) \<Rightarrow> (Some \<lparr>atype = type, adata = None\<rparr>, h))"

definition ASN1_STRING_set :: "asn1_string \<Rightarrow> byte list \<Rightarrow> int \<Rightarrow> heap \<Rightarrow> bool \<times> asn1_string \<times> heap" where
  "ASN1_STRING_set str bytes len h =
     (let len = (if len < 0 then strlen bytes else nat len);
          (ok, h) = (if alen str \<le> len \<or> adata str = None then heap_alloc h else (True, h))
      in if \<not> ok then (False, str, h) else (True, str\<lparr>adata := Some (take len bytes)\<rparr>, h))"

definition V_ASN1_UTF8STRING :: int where "V_ASN1_UTF8STRING = 12"
definition V_ASN1_PRINTABLESTRING :: int where "V_ASN1_PRINTABLESTRING = 19"
definition V_ASN1_T61STRING :: int where "V_ASN1_T61STRING = 20"
definition V_ASN1_IA5STRING :: int where "V_ASN1_IA5STRING = 22"
definition V_ASN1_UNIVERSALSTRING :: int where "V_ASN1_UNIVERSALSTRING = 28"
definition V_ASN1_BMPSTRING :: int where "V_ASN1_BMPSTRING = 30"

definition B_ASN1_PRINTABLESTRING :: u64 where "B_ASN1_PRINTABLESTRING = 0x2"
definition B_ASN1_T61STRING :: u64 where "B_ASN1_T61STRING = 0x4"
definition B_ASN1_IA5STRING :: u64 where "B_ASN1_IA5STRING = 0x10"
definition B_ASN1_UNIVERSALSTRING :: u64 where "B_ASN1_UNIVERSALSTRING = 0x100"
definition B_ASN1_BMPSTRING :: u64 where "B_ASN1_BMPSTRING = 0x800"
definition B_ASN1_UTF8STRING :: u64 where "B_ASN1_UTF8STRING = 0x2000"

definition DIRSTRING_TYPE :: u64 where
  "DIRSTRING_TYPE = B_ASN1_PRINTABLESTRING OR B_ASN1_T61STRING OR B_ASN1_BMPSTRING OR B_ASN1_UTF8STRING"

definition MBSTRING_FLAG :: int where "MBSTRING_FLAG = 0x1000"
definition MBSTRING_UTF8 :: int where "MBSTRING_UTF8 = 0x1000"
definition MBSTRING_ASC :: int where "MBSTRING_ASC = 0x1001"
definition MBSTRING_BMP :: int where "MBSTRING_BMP = 0x1002"
definition MBSTRING_UNIV :: int where "MBSTRING_UNIV = 0x1004"

lemmas mb_consts = V_ASN1_UTF8STRING_def V_ASN1_PRINTABLESTRING_def V_ASN1_T61STRING_def V_ASN1_IA5STRING_def
  V_ASN1_UNIVERSALSTRING_def V_ASN1_BMPSTRING_def MBSTRING_FLAG_def MBSTRING_UTF8_def MBSTRING_ASC_def
  MBSTRING_BMP_def MBSTRING_UNIV_def

lemmas mb_bits = B_ASN1_PRINTABLESTRING_def B_ASN1_T61STRING_def B_ASN1_IA5STRING_def
  B_ASN1_UNIVERSALSTRING_def B_ASN1_BMPSTRING_def B_ASN1_UTF8STRING_def

section \<open>The conversion\<close>

definition asn1_is_printable :: "u32 \<Rightarrow> bool" where
  "asn1_is_printable v =
     (if v > 0x7f then False
      else 97 \<le> v \<and> v \<le> 122 \<or> 65 \<le> v \<and> v \<le> 90 \<or> 48 \<le> v \<and> v \<le> 57 \<or>
           v \<in> set [32, 39, 40, 41, 43, 44, 45, 46, 47, 58, 61, 63])"

definition mb_decode :: "int \<Rightarrow> u32 reader option" where
  "mb_decode inform =
     (if inform = MBSTRING_BMP then Some cbs_get_ucs2_be
      else if inform = MBSTRING_UNIV then Some cbs_get_utf32_be
      else if inform = MBSTRING_UTF8 then Some cbs_get_utf8
      else if inform = MBSTRING_ASC then Some cbs_get_latin1
      else None)"

text \<open>Which output formats are still possible after the character \<open>c\<close>.\<close>

definition mb_narrow :: "u32 \<Rightarrow> u64 \<Rightarrow> u64" where
  "mb_narrow c msk =
     (let msk = (if msk AND B_ASN1_PRINTABLESTRING \<noteq> 0 \<and> \<not> asn1_is_printable c
                  then msk AND NOT B_ASN1_PRINTABLESTRING else msk);
          msk = (if msk AND B_ASN1_IA5STRING \<noteq> 0 \<and> c > 127 then msk AND NOT B_ASN1_IA5STRING else msk);
          msk = (if msk AND B_ASN1_T61STRING \<noteq> 0 \<and> c > 0xff then msk AND NOT B_ASN1_T61STRING else msk)
      in if msk AND B_ASN1_BMPSTRING \<noteq> 0 \<and> c > 0xffff then msk AND NOT B_ASN1_BMPSTRING else msk)"

text \<open>
  The first loop: the number of characters, the formats left and the length in UTF-8.  Every
  read takes a byte at least, so the number of bytes is fuel enough.
\<close>

fun mb_scan :: "nat \<Rightarrow> u32 reader \<Rightarrow> int \<Rightarrow> cbs \<Rightarrow> nat \<Rightarrow> u64 \<Rightarrow> nat \<Rightarrow> (nat \<times> u64 \<times> nat) option" where
  "mb_scan fuel decode_func inform [] nchar msk utf8_len = Some (nchar, msk, utf8_len)"
| "mb_scan 0 decode_func inform (b # cbs) nchar msk utf8_len = None"
| "mb_scan (Suc fuel) decode_func inform (b # cbs) nchar msk utf8_len =
     (case decode_func (b # cbs) of
        (None, _) \<Rightarrow> None
      | (Some c, rest) \<Rightarrow>
          if nchar = 0 \<and> (inform = MBSTRING_BMP \<or> inform = MBSTRING_UNIV) \<and> c = 0xfeff then None
          else let msk = mb_narrow c msk
               in if msk = 0 then None
                  else mb_scan fuel decode_func inform rest (nchar + 1) msk (utf8_len + cbb_get_utf8_len c))"

text \<open>The type of the output, its format, the writer and the estimated size.\<close>

definition mb_output :: "u64 \<Rightarrow> nat \<Rightarrow> nat \<Rightarrow> (int \<times> int \<times> (u32 \<Rightarrow> cbb step) \<times> nat) option" where
  "mb_output msk nchar utf8_len =
     (if msk AND B_ASN1_PRINTABLESTRING \<noteq> 0 then Some (V_ASN1_PRINTABLESTRING, MBSTRING_ASC, cbb_add_latin1 0, nchar)
      else if msk AND B_ASN1_IA5STRING \<noteq> 0 then Some (V_ASN1_IA5STRING, MBSTRING_ASC, cbb_add_latin1 0, nchar)
      else if msk AND B_ASN1_T61STRING \<noteq> 0 then Some (V_ASN1_T61STRING, MBSTRING_ASC, cbb_add_latin1 0, nchar)
      else if msk AND B_ASN1_BMPSTRING \<noteq> 0 then Some (V_ASN1_BMPSTRING, MBSTRING_BMP, cbb_add_ucs2_be 0, 2 * nchar)
      else if msk AND B_ASN1_UNIVERSALSTRING \<noteq> 0 then Some (V_ASN1_UNIVERSALSTRING, MBSTRING_UNIV, cbb_add_utf32_be 0, 4 * nchar)
      else if msk AND B_ASN1_UTF8STRING \<noteq> 0 then Some (V_ASN1_UTF8STRING, MBSTRING_UTF8, cbb_add_utf8 0, utf8_len)
      else None)"

text \<open>The second loop.\<close>

fun mb_convert :: "nat \<Rightarrow> u32 reader \<Rightarrow> (u32 \<Rightarrow> cbb step) \<Rightarrow> cbs \<Rightarrow> cbb step" where
  "mb_convert fuel decode_func encode_func [] = succeed"
| "mb_convert 0 decode_func encode_func (b # cbs) = fail"
| "mb_convert (Suc fuel) decode_func encode_func (b # cbs) =
     (case decode_func (b # cbs) of
        (None, _) \<Rightarrow> fail
      | (Some c, rest) \<Rightarrow> and_then (encode_func c) (mb_convert fuel decode_func encode_func rest))"

text \<open>
  What the parameter \<open>out\<close> is: a null pointer, or it points to a null pointer, to a string, or to
  memory that has been released.
\<close>

datatype mb_out = No_out | Out_null | Out_string asn1_string | Out_dangling

text \<open>The string to fill: the given one, emptied, or a new one.\<close>

definition mb_dest :: "mb_out \<Rightarrow> int \<Rightarrow> heap \<Rightarrow> asn1_string option \<times> heap" where
  "mb_dest out str_type h =
     (case out of
        Out_string dest \<Rightarrow> (Some \<lparr>atype = str_type, adata = None\<rparr>, h)
      | _ \<Rightarrow> ASN1_STRING_type_new str_type h)"

text \<open>From the chosen type on.\<close>

definition mb_fill ::
  "mb_out \<Rightarrow> byte list \<Rightarrow> nat \<Rightarrow> int \<Rightarrow> u32 reader \<Rightarrow> int \<Rightarrow> int \<Rightarrow> (u32 \<Rightarrow> cbb step) \<Rightarrow> nat \<Rightarrow> heap \<Rightarrow> int \<times> mb_out" where
  "mb_fill out inp len inform decode_func str_type outform encode_func size_estimate h =
     (if out = No_out then (str_type, out)
      else case mb_dest out str_type h of
             (None, h) \<Rightarrow> (- 1, out)
           | (Some dest, h) \<Rightarrow>
               if inform = outform
               then (case ASN1_STRING_set dest inp (int len) h of
                       (ok, dest, h) \<Rightarrow> (if ok then str_type else - 1, Out_string dest))
               else let err = (- 1, if out = Out_null then Out_dangling else Out_string dest);
                        cbs = CBS_init (take len inp)
                    in case CBB_init (size_estimate + 1) h of
                         (False, cbb) \<Rightarrow> err
                       | (True, cbb) \<Rightarrow>
                           (case and_then (mb_convert (CBS_len cbs) decode_func encode_func cbs) (CBB_add_u8 0 0) cbb of
                              (False, cbb) \<Rightarrow> err
                            | (True, cbb) \<Rightarrow>
                                (case CBB_finish 0 True cbb of
                                   (None, _) \<Rightarrow> err
                                 | (Some bytes, _) \<Rightarrow>
                                     if length bytes < 1 \<or> length bytes > INT_MAX then err
                                     else (str_type, Out_string (dest\<lparr>adata := Some (take (length bytes - 1) bytes)\<rparr>)))))"

definition ASN1_mbstring_ncopy ::
  "mb_out \<Rightarrow> byte list \<Rightarrow> int \<Rightarrow> int \<Rightarrow> u64 \<Rightarrow> int \<Rightarrow> int \<Rightarrow> heap \<Rightarrow> int \<times> mb_out" where
  "ASN1_mbstring_ncopy out inp len inform msk minsize maxsize h =
     (let len = (if len = - 1 then strlen inp else nat len);
          msk = (if msk = 0 then DIRSTRING_TYPE else msk)
      in case mb_decode inform of
           None \<Rightarrow> (- 1, out)
         | Some decode_func \<Rightarrow>
             let cbs = CBS_init (take len inp)
             in case mb_scan (CBS_len cbs) decode_func inform cbs 0 msk 0 of
                  None \<Rightarrow> (- 1, out)
                | Some (nchar, msk, utf8_len) \<Rightarrow>
                    if minsize > 0 \<and> nchar < nat minsize then (- 1, out)
                    else if maxsize > 0 \<and> nchar > nat maxsize then (- 1, out)
                    else case mb_output msk nchar utf8_len of
                           None \<Rightarrow> (- 1, out)
                         | Some (str_type, outform, encode_func, size_estimate) \<Rightarrow>
                             mb_fill out inp len inform decode_func str_type outform encode_func size_estimate h)"

definition ASN1_mbstring_copy :: "mb_out \<Rightarrow> byte list \<Rightarrow> int \<Rightarrow> int \<Rightarrow> u64 \<Rightarrow> heap \<Rightarrow> int \<times> mb_out" where
  "ASN1_mbstring_copy out inp len inform msk h = ASN1_mbstring_ncopy out inp len inform msk 0 0 h"

definition tag2nbyte :: "int list" where
  "tag2nbyte = [- 1, - 1, - 1, - 1, - 1, - 1, - 1, - 1, - 1, - 1, - 1, - 1, 0, - 1, - 1, - 1, - 1, - 1,
     1, 1, 1, - 1, 1, 1, 1, - 1, 1, - 1, 4, - 1, 2]"

text \<open>The return value and the bytes \<open>*out\<close> points to, when it has been set.\<close>

definition ASN1_STRING_to_UTF8 :: "asn1_string option \<Rightarrow> heap \<Rightarrow> int \<times> byte list option" where
  "ASN1_STRING_to_UTF8 inp h =
     (case inp of
        None \<Rightarrow> (- 1, None)
      | Some inp \<Rightarrow>
          if atype inp < 0 \<or> atype inp > 30 then (- 1, None)
          else let mbflag = tag2nbyte ! nat (atype inp)
               in if mbflag = - 1 then (- 1, None)
                  else let mbflag = or mbflag MBSTRING_FLAG;
                           bytes = (case adata inp of None \<Rightarrow> [] | Some bs \<Rightarrow> bs)
                       in case ASN1_mbstring_copy (Out_string \<lparr>atype = 0, adata = None\<rparr>) bytes (int (alen inp)) mbflag B_ASN1_UTF8STRING h of
                            (ret, stmp) \<Rightarrow>
                              if ret < 0 then (ret, None)
                              else case stmp of
                                     Out_string s \<Rightarrow> (int (alen s), adata s)
                                   | _ \<Rightarrow> (- 1, None))"

section \<open>What the conversion should do\<close>

text \<open>The characters of a byte string in a format.\<close>

definition mb_chars :: "int \<Rightarrow> byte list \<Rightarrow> u32 list option" where
  "mb_chars form bs = (case mb_decode form of None \<Rightarrow> None | Some get \<Rightarrow> read_all (length bs) get bs)"

text \<open>The first type in the order of preference that is allowed and can hold the characters.\<close>

definition mb_best :: "u64 \<Rightarrow> u32 list \<Rightarrow> int option" where
  "mb_best msk cs =
     (if bit msk 1 \<and> list_all asn1_is_printable cs then Some V_ASN1_PRINTABLESTRING
      else if bit msk 4 \<and> list_all (\<lambda>c. c \<le> 0x7f) cs then Some V_ASN1_IA5STRING
      else if bit msk 2 \<and> list_all (\<lambda>c. c \<le> 0xff) cs then Some V_ASN1_T61STRING
      else if bit msk 11 \<and> list_all (\<lambda>c. c \<le> 0xffff) cs then Some V_ASN1_BMPSTRING
      else if bit msk 8 then Some V_ASN1_UNIVERSALSTRING
      else if bit msk 13 then Some V_ASN1_UTF8STRING
      else None)"

text \<open>The format a type is written in.\<close>

definition mb_form :: "int \<Rightarrow> int" where
  "mb_form t = (if t = V_ASN1_BMPSTRING then MBSTRING_BMP else if t = V_ASN1_UNIVERSALSTRING then MBSTRING_UNIV
     else if t = V_ASN1_UTF8STRING then MBSTRING_UTF8 else MBSTRING_ASC)"

definition mb_spec :: "int \<Rightarrow> byte list \<Rightarrow> u64 \<Rightarrow> int \<Rightarrow> int \<Rightarrow> int option" where
  "mb_spec inform bs msk minsize maxsize =
     (case mb_chars inform bs of
        None \<Rightarrow> None
      | Some cs \<Rightarrow>
          if inform \<in> {MBSTRING_BMP, MBSTRING_UNIV} \<and> cs \<noteq> [] \<and> hd cs = 0xfeff then None
          else if 0 < minsize \<and> int (length cs) < minsize \<or> 0 < maxsize \<and> maxsize < int (length cs) then None
          else mb_best (if msk = 0 then DIRSTRING_TYPE else msk) cs)"

section \<open>The formats as codecs\<close>

interpretation latin1_codec: nonempty_codec "\<lambda>v. [ucast v]" cbs_get_latin1 "\<lambda>v. unat v < 256"
  by unfold_locales (simp_all add: cbs_get_latin1_iff)

interpretation ucs2_chars: nonempty_codec "\<lambda>v. be_bytes 2 (unat v)" cbs_get_ucs2_be
    "\<lambda>v. is_valid_code_point v \<and> unat v < 2 ^ 16"
  by unfold_locales (simp add: numeral_2_eq_2)

interpretation utf32_chars: nonempty_codec "\<lambda>v. be_bytes 4 (unat v)" cbs_get_utf32_be is_valid_code_point
  by unfold_locales (metis length_be_bytes list.size(3) zero_neq_numeral)

definition mb_put :: "int \<Rightarrow> u32 \<Rightarrow> byte list" where
  "mb_put form v = (if form = MBSTRING_BMP then be_bytes 2 (unat v) else if form = MBSTRING_UNIV then be_bytes 4 (unat v)
     else if form = MBSTRING_UTF8 then utf8 (unat v) else [ucast v])"

definition mb_ok :: "int \<Rightarrow> u32 \<Rightarrow> bool" where
  "mb_ok form v \<longleftrightarrow> is_valid_code_point v \<and>
     (if form = MBSTRING_BMP then unat v < 2 ^ 16 else if form = MBSTRING_UNIV \<or> form = MBSTRING_UTF8 then True
      else unat v < 256)"

lemma small_valid: "unat (v :: u32) < 256 \<Longrightarrow> is_valid_code_point v"
proof -
  assume "unat v < 256"
  then have "unat (ucast v :: byte) = unat v" by (simp add: unsigned_ucast_eq take_bit_eq_mod)
  then have "unat (ucast (ucast v :: byte) :: u32) = unat v" by simp
  then have "v = ucast (ucast v :: byte)" by (simp only: word_unat_eq_iff)
  then show ?thesis by (metis byte_valid)
qed

lemma mb_codec: "mb_decode form = Some get \<Longrightarrow> nonempty_codec (mb_put form) get (mb_ok form)"
proof -
  assume "mb_decode form = Some get"
  then consider "form = MBSTRING_BMP" "get = cbs_get_ucs2_be" | "form = MBSTRING_UNIV" "get = cbs_get_utf32_be"
    | "form = MBSTRING_UTF8" "get = cbs_get_utf8" | "form = MBSTRING_ASC" "get = cbs_get_latin1"
    by (auto simp: mb_decode_def split: if_splits)
  then show ?thesis
  proof cases
    case 1
    then have "mb_put form = (\<lambda>v. be_bytes 2 (unat v))" "mb_ok form = (\<lambda>v. is_valid_code_point v \<and> unat v < 2 ^ 16)"
      by (auto simp: mb_put_def mb_ok_def fun_eq_iff)
    with 1 ucs2_chars.nonempty_codec_axioms show ?thesis by simp
  next
    case 2
    then have "mb_put form = (\<lambda>v. be_bytes 4 (unat v))" "mb_ok form = is_valid_code_point"
      by (auto simp: mb_put_def mb_ok_def mb_consts fun_eq_iff)
    with 2 utf32_chars.nonempty_codec_axioms show ?thesis by simp
  next
    case 3
    then have "mb_put form = (\<lambda>v. utf8 (unat v))" "mb_ok form = is_valid_code_point"
      by (auto simp: mb_put_def mb_ok_def mb_consts fun_eq_iff)
    with 3 utf8_codec.nonempty_codec_axioms show ?thesis by simp
  next
    case 4
    then have "mb_put form = (\<lambda>v. [ucast v])" "mb_ok form = (\<lambda>v. unat v < 256)"
      by (auto simp: mb_put_def mb_ok_def mb_consts fun_eq_iff small_valid)
    with 4 latin1_codec.nonempty_codec_axioms show ?thesis by simp
  qed
qed

lemma mb_chars_iff:
  "mb_decode form = Some get \<Longrightarrow>
    mb_chars form bs = Some cs \<longleftrightarrow> list_all (mb_ok form) cs \<and> bs = concat (map (mb_put form) cs)"
  using nonempty_codec.read_all_complete [OF mb_codec] by (simp add: mb_chars_def)

section \<open>The loops\<close>

lemma bit_test: "m AND B_ASN1_PRINTABLESTRING \<noteq> 0 \<longleftrightarrow> bit m 1" "m AND B_ASN1_T61STRING \<noteq> 0 \<longleftrightarrow> bit m 2"
    "m AND B_ASN1_IA5STRING \<noteq> 0 \<longleftrightarrow> bit m 4" "m AND B_ASN1_UNIVERSALSTRING \<noteq> 0 \<longleftrightarrow> bit m 8"
    "m AND B_ASN1_BMPSTRING \<noteq> 0 \<longleftrightarrow> bit m 11" "m AND B_ASN1_UTF8STRING \<noteq> 0 \<longleftrightarrow> bit m 13"
  using and_exp_eq_0_iff_not_bit [of m 1] and_exp_eq_0_iff_not_bit [of m 2] and_exp_eq_0_iff_not_bit [of m 4]
    and_exp_eq_0_iff_not_bit [of m 8] and_exp_eq_0_iff_not_bit [of m 11] and_exp_eq_0_iff_not_bit [of m 13]
  by (simp_all add: mb_bits)

lemma mb_bit_eqs: "B_ASN1_PRINTABLESTRING = push_bit 1 1" "B_ASN1_T61STRING = push_bit 2 1" "B_ASN1_IA5STRING = push_bit 4 1"
    "B_ASN1_UNIVERSALSTRING = push_bit 8 1" "B_ASN1_BMPSTRING = push_bit 11 1" "B_ASN1_UTF8STRING = push_bit 13 1"
  by (simp_all add: mb_bits)

lemma bit_drop:
  fixes m :: u64
  assumes "B = push_bit k 1" and "\<And>m :: u64. m AND B \<noteq> 0 \<longleftrightarrow> bit m k" and "n < 64"
  shows "bit (if m AND B \<noteq> 0 \<and> P then m AND NOT B else m) n \<longleftrightarrow> bit m n \<and> (n = k \<longrightarrow> \<not> P)"
  unfolding assms(2) unfolding assms(1) using assms(3) by (auto simp: bit_simps)

lemma bit_narrow:
  "n < 64 \<Longrightarrow> bit (mb_narrow c m) n \<longleftrightarrow> bit m n \<and> (n = 1 \<longrightarrow> asn1_is_printable c) \<and> (n = 4 \<longrightarrow> c \<le> 0x7f) \<and>
    (n = 2 \<longrightarrow> c \<le> 0xff) \<and> (n = 11 \<longrightarrow> c \<le> 0xffff)"
  unfolding mb_narrow_def Let_def
  by (simp only: bit_drop [OF mb_bit_eqs(1) bit_test(1)] bit_drop [OF mb_bit_eqs(2) bit_test(2)]
    bit_drop [OF mb_bit_eqs(3) bit_test(3)] bit_drop [OF mb_bit_eqs(5) bit_test(5)]) (auto simp: not_less)

lemma mb_narrow_0 [simp]: "mb_narrow c 0 = 0"
  by (simp add: mb_narrow_def)

lemma fold_narrow_0: "fold mb_narrow cs 0 = 0"
  by (induction cs) simp_all

lemma bit_fold_narrow:
  "n < 64 \<Longrightarrow> bit (fold mb_narrow cs m) n \<longleftrightarrow> bit m n \<and> (n = 1 \<longrightarrow> list_all asn1_is_printable cs) \<and>
    (n = 4 \<longrightarrow> list_all (\<lambda>c. c \<le> 0x7f) cs) \<and> (n = 2 \<longrightarrow> list_all (\<lambda>c. c \<le> 0xff) cs) \<and>
    (n = 11 \<longrightarrow> list_all (\<lambda>c. c \<le> 0xffff) cs)"
  by (induction cs arbitrary: m) (auto simp: bit_narrow)

lemma mb_scan_eq:
  "mb_scan fuel get inform cbs n m ul =
    (case read_all fuel get cbs of
       None \<Rightarrow> None
     | Some cs \<Rightarrow>
         if n = 0 \<and> inform \<in> {MBSTRING_BMP, MBSTRING_UNIV} \<and> cs \<noteq> [] \<and> hd cs = 0xfeff \<or> cs \<noteq> [] \<and> fold mb_narrow cs m = 0
         then None
         else Some (n + length cs, fold mb_narrow cs m, ul + sum_list (map cbb_get_utf8_len cs)))"
proof (induction fuel arbitrary: cbs n m ul)
  case 0
  then show ?case by (cases cbs) simp_all
next
  case (Suc fuel)
  show ?case
  proof (cases cbs)
    case (Cons b bs)
    obtain c rest where g: "get (b # bs) = (c, rest)" by (cases "get (b # bs)")
    show ?thesis
    proof (cases c)
      case None
      with Cons g show ?thesis by simp
    next
      case (Some c')
      show ?thesis
      proof (cases "read_all fuel get rest")
        case None
        with Cons g Some show ?thesis by (simp add: Suc.IH Let_def)
      next
        case (Some cs)
        with Cons g \<open>c = Some c'\<close> show ?thesis
          by (cases "mb_narrow c' m = 0") (auto simp: Suc.IH Let_def fold_narrow_0)
      qed
    qed
  qed simp
qed

definition mb_enc :: "int \<Rightarrow> u32 \<Rightarrow> cbb step" where
  "mb_enc form = (if form = MBSTRING_BMP then cbb_add_ucs2_be 0 else if form = MBSTRING_UNIV then cbb_add_utf32_be 0
     else if form = MBSTRING_UTF8 then cbb_add_utf8 0 else cbb_add_latin1 0)"

lemma emits_enc: "emits 0 (mb_enc form v) (mb_put form v) (mb_ok form v)"
proof -
  have l: "emits 0 (cbb_add_latin1 0 v) [ucast v] (is_valid_code_point v \<and> unat v < 256)"
    by (rule emits_mono [OF emits_add_latin1]) simp
  have b: "emits 0 (cbb_add_ucs2_be 0 v) (be_bytes 2 (unat v)) (is_valid_code_point v \<and> unat v < 2 ^ 16)"
    by (rule emits_mono [OF emits_add_ucs2]) simp
  consider "form = MBSTRING_BMP" | "form = MBSTRING_UNIV" | "form = MBSTRING_UTF8"
    | "form \<noteq> MBSTRING_BMP" "form \<noteq> MBSTRING_UNIV" "form \<noteq> MBSTRING_UTF8" by blast
  then show ?thesis
    using l b emits_add_utf8 [of 0 v] emits_add_utf32 [of 0 v]
    by cases (simp_all add: mb_enc_def mb_put_def mb_ok_def mb_consts)
qed

lemma emits_convert:
  assumes "read_all fuel get cbs = Some cs"
  shows "emits 0 (mb_convert fuel get (mb_enc form) cbs) (concat (map (mb_put form) cs)) (list_all (mb_ok form) cs)"
  using assms
proof (induction fuel arbitrary: cbs cs)
  case 0
  then show ?case by (cases cbs) (simp_all add: emits_succeed)
next
  case (Suc fuel)
  show ?case
  proof (cases cbs)
    case Nil
    with Suc.prems show ?thesis by (simp add: emits_succeed)
  next
    case (Cons b bs)
    with Suc.prems obtain c rest cs' where g: "get (b # bs) = (Some c, rest)" "read_all fuel get rest = Some cs'" "cs = c # cs'"
      by (auto split: prod.splits option.splits)
    show ?thesis
      using emits_and_then [OF emits_enc Suc.IH [OF g(2)], of form c] Cons g by simp
  qed
qed

lemma mb_output_best:
  "mb_output (fold mb_narrow cs m) n ul =
    (case mb_best m cs of
       None \<Rightarrow> None
     | Some t \<Rightarrow> Some (t, mb_form t, mb_enc (mb_form t),
         if t = V_ASN1_BMPSTRING then 2 * n else if t = V_ASN1_UNIVERSALSTRING then 4 * n
         else if t = V_ASN1_UTF8STRING then ul else n))"
  unfolding mb_output_def bit_test mb_best_def
  by (simp add: bit_fold_narrow mb_form_def mb_enc_def mb_consts)

lemma mb_best_holds:
  assumes "mb_best m cs = Some t" and "list_all is_valid_code_point cs"
  shows "list_all (mb_ok (mb_form t)) cs \<and> mb_decode (mb_form t) \<noteq> None \<and> t \<noteq> - 1"
proof -
  have p: "asn1_is_printable c \<Longrightarrow> unat c < 256" for c
    by (auto simp: asn1_is_printable_def word_le_nat_alt word_less_nat_alt split: if_splits)
  show ?thesis
    using assms
    by (auto simp: mb_best_def list_all_iff mb_ok_def mb_form_def mb_decode_def mb_consts word_le_nat_alt dest: p
      split: if_splits)
qed

lemma mb_best_0: "mb_best 0 cs = None"
  by (simp add: mb_best_def)

lemma fold_narrow_best: "fold mb_narrow cs m = 0 \<Longrightarrow> mb_best m cs = None"
  using mb_output_best [of cs m 0 0] by (auto simp: mb_output_def split: option.splits)

lemma mb_put_length: "length (mb_put form v) \<le> 4"
  by (simp add: mb_put_def utf8_def utf8_extra_def)

lemma length_concat_puts: "length (concat (map (mb_put form) cs)) \<le> 4 * length cs"
  by (induction cs) (use mb_put_length [of form] in \<open>auto intro: add_mono\<close>)

section \<open>Correctness\<close>

lemma chars_valid:
  assumes "mb_chars form bs = Some cs"
  shows "list_all is_valid_code_point cs" and "length cs \<le> length bs"
proof -
  obtain get where g: "mb_decode form = Some get" using assms by (auto simp: mb_chars_def split: option.splits)
  then have c: "list_all (mb_ok form) cs" "bs = concat (map (mb_put form) cs)"
    using mb_chars_iff assms by blast+
  show "list_all is_valid_code_point cs" using c(1) by (auto simp: list_all_iff mb_ok_def)
  have "1 \<le> length (mb_put form v)" if "v \<in> set cs" for v
    using nonempty_codec.put_nonempty [OF mb_codec [OF g], of v] c(1) that by (cases "mb_put form v") (auto simp: list_all_iff)
  then have "length cs \<le> length (concat (map (mb_put form) cs))"
    by (induction cs) (fastforce intro: add_mono [of "Suc 0", simplified])+
  with c(2) show "length cs \<le> length bs" by simp
qed

lemma convert_run:
  assumes "read_all fuel get cbs = Some cs" and "CBB_init (n + 1) h = (ok, c)" and "n + 1 < 2 ^ 64" and "length cs < 2 ^ 29"
    and "and_then (mb_convert fuel get (mb_enc form) cbs) (CBB_add_u8 0 0) c = (ok1, c1)" and "CBB_finish 0 True c1 = (out, c2)"
  shows "ok \<Longrightarrow> ok1 \<Longrightarrow> out = Some data \<Longrightarrow> data = concat (map (mb_put form) cs) @ [0]"
    and "False \<notin> set h \<Longrightarrow> list_all (mb_ok form) cs \<Longrightarrow> ok \<and> ok1 \<and> out = Some (concat (map (mb_put form) cs) @ [0])"
proof -
  note E = emits_and_then [OF emits_convert [OF assms(1), of form] emits_add_u8 [of 0 0]]
  have l: "length (concat (map (mb_put form) cs) @ [0 :: byte]) < 2 ^ 62"
    using length_concat_puts [of form cs] assms(4) by simp
  then have l': "length (concat (map (mb_put form) cs) @ [0 :: byte]) < 2 ^ 64" by simp
  note R = emits_run [OF E assms(2,3) l' assms(5,6)]
  show "data = concat (map (mb_put form) cs) @ [0]" if ok ok1 "out = Some data" using R(1) that by blast
  show "ok \<and> ok1 \<and> out = Some (concat (map (mb_put form) cs) @ [0])" if "False \<notin> set h" "list_all (mb_ok form) cs"
    using R(2) that l by simp
qed

lemma utf8_lens: "sum_list (map cbb_get_utf8_len cs) \<le> 4 * length cs"
  by (induction cs) (auto simp: cbb_get_utf8_len_def)

text \<open>The choice of the type, and then the filling.\<close>

lemma ncopy_eq:
  assumes "length bs < 2 ^ 29"
  shows "\<exists>est < 2 ^ 32. ASN1_mbstring_ncopy out bs (int (length bs)) inform msk minsize maxsize h =
    (case mb_spec inform bs msk minsize maxsize of
       None \<Rightarrow> (- 1, out)
     | Some t \<Rightarrow> mb_fill out bs (length bs) inform (the (mb_decode inform)) t (mb_form t) (mb_enc (mb_form t)) est h)"
proof (cases "mb_decode inform")
  case None
  then show ?thesis by (intro exI [of _ 0]) (simp add: ASN1_mbstring_ncopy_def mb_spec_def mb_chars_def)
next
  case (Some get)
  let ?m = "if msk = 0 then DIRSTRING_TYPE else msk"
  show ?thesis
  proof (cases "read_all (length bs) get bs")
    case None
    with Some show ?thesis
      by (intro exI [of _ 0])
        (simp add: ASN1_mbstring_ncopy_def CBS_init_def CBS_len_def mb_scan_eq mb_spec_def mb_chars_def Let_def)
  next
    case (Some cs)
    with \<open>mb_decode inform = Some get\<close> have c: "mb_chars inform bs = Some cs" by (simp add: mb_chars_def)
    let ?ul = "sum_list (map cbb_get_utf8_len cs)"
    let ?est = "\<lambda>t. if t = V_ASN1_BMPSTRING then 2 * length cs else if t = V_ASN1_UNIVERSALSTRING then 4 * length cs
         else if t = V_ASN1_UTF8STRING then ?ul else length cs"
    have scan: "mb_scan (length bs) get inform bs 0 ?m 0 =
      (if inform \<in> {MBSTRING_BMP, MBSTRING_UNIV} \<and> cs \<noteq> [] \<and> hd cs = 0xfeff \<or> cs \<noteq> [] \<and> fold mb_narrow cs ?m = 0 then None
       else Some (length cs, fold mb_narrow cs ?m, ?ul))"
      using Some by (simp add: mb_scan_eq)
    have sizes: "minsize > 0 \<and> length cs < nat minsize \<longleftrightarrow> 0 < minsize \<and> int (length cs) < minsize"
      "maxsize > 0 \<and> length cs > nat maxsize \<longleftrightarrow> 0 < maxsize \<and> maxsize < int (length cs)" by auto
    have small: "?est t < 2 ^ 32" for t
      using chars_valid(2) [OF c] utf8_lens [of cs] assms by auto
    have eq: "ASN1_mbstring_ncopy out bs (int (length bs)) inform msk minsize maxsize h =
      (case mb_spec inform bs msk minsize maxsize of
         None \<Rightarrow> (- 1, out)
       | Some t \<Rightarrow> mb_fill out bs (length bs) inform get t (mb_form t) (mb_enc (mb_form t)) (?est t) h)"
    proof -
      let ?B = "inform \<in> {MBSTRING_BMP, MBSTRING_UNIV} \<and> cs \<noteq> [] \<and> hd cs = 0xfeff"
      let ?Z = "cs \<noteq> [] \<and> fold mb_narrow cs ?m = 0"
      let ?S = "0 < minsize \<and> int (length cs) < minsize" and ?L = "0 < maxsize \<and> maxsize < int (length cs)"
      have spec: "mb_spec inform bs msk minsize maxsize = (if ?B then None else if ?S \<or> ?L then None else mb_best ?m cs)"
        by (simp add: mb_spec_def c)
      have run: "ASN1_mbstring_ncopy out bs (int (length bs)) inform msk minsize maxsize h =
        (case mb_scan (length bs) get inform bs 0 ?m 0 of
           None \<Rightarrow> (- 1, out)
         | Some (nchar, msk, utf8_len) \<Rightarrow>
             if minsize > 0 \<and> nchar < nat minsize then (- 1, out)
             else if maxsize > 0 \<and> nchar > nat maxsize then (- 1, out)
             else case mb_output msk nchar utf8_len of
                    None \<Rightarrow> (- 1, out)
                  | Some (str_type, outform, encode_func, size_estimate) \<Rightarrow>
                      mb_fill out bs (length bs) inform get str_type outform encode_func size_estimate h)"
        by (simp add: ASN1_mbstring_ncopy_def CBS_init_def CBS_len_def \<open>mb_decode inform = Some get\<close> Let_def del: mb_scan.simps)
      consider "?B \<or> ?Z" | "\<not> (?B \<or> ?Z)" "?S \<or> ?L" | "\<not> (?B \<or> ?Z)" "\<not> (?S \<or> ?L)" by blast
      then show ?thesis
      proof cases
        case 1
        then have "mb_spec inform bs msk minsize maxsize = None" using fold_narrow_best [of cs ?m] unfolding spec by auto
        with 1 show ?thesis unfolding run scan by simp
      next
        case 2
        then have "mb_spec inform bs msk minsize maxsize = None" unfolding spec by simp
        with 2 show ?thesis unfolding run scan by (auto simp: sizes)
      next
        case 3
        then have "mb_spec inform bs msk minsize maxsize = mb_best ?m cs" unfolding spec by auto
        moreover have "(0 < minsize \<and> length cs < nat minsize) = False" "(0 < maxsize \<and> nat maxsize < length cs) = False"
          using 3(2) by auto
        ultimately show ?thesis
          using 3(1) unfolding run scan
          by (cases "mb_best ?m cs") (simp_all only: mb_output_best if_False if_True option.case prod.case not_False_eq_True)
      qed
    qed
    show ?thesis
    proof (cases "mb_spec inform bs msk minsize maxsize")
      case None
      with eq show ?thesis by (intro exI [of _ 0]) simp
    next
      case (Some t)
      show ?thesis
        unfolding eq Some \<open>mb_decode inform = Some get\<close> option.sel option.case by (intro exI [of _ "?est t"] conjI small refl)
    qed
  qed
qed

lemma mb_fill_props:
  assumes f: "mb_fill out bs (length bs) inform get t (mb_form t) (mb_enc (mb_form t)) est h = (r, out')"
    and get: "mb_decode inform = Some get" and cs: "mb_chars inform bs = Some cs"
    and t: "list_all (mb_ok (mb_form t)) cs" "mb_decode (mb_form t) \<noteq> None" "t \<noteq> - 1"
    and bound: "length bs < 2 ^ 29" "est < 2 ^ 32" and out: "out \<noteq> Out_dangling"
  shows "(r \<noteq> - 1 \<longrightarrow> r = t \<and> (if out = No_out then out' = No_out
      else \<exists>s. out' = Out_string \<lparr>atype = t, adata = Some s\<rparr> \<and> mb_chars (mb_form t) s = Some cs)) \<and>
    (False \<notin> set h \<longrightarrow> r = t)"
proof (cases "out = No_out")
  case True
  with f show ?thesis by (auto simp: mb_fill_def)
next
  case False
  obtain dest h1 where d: "mb_dest out t h = (dest, h1)" by (cases "mb_dest out t h")
  have D: "dest = None \<or> dest = Some \<lparr>atype = t, adata = None\<rparr>" "False \<notin> set h \<Longrightarrow> dest \<noteq> None \<and> False \<notin> set h1"
    using d heap_alloc_outcome [of h]
    by (auto simp: mb_dest_def ASN1_STRING_type_new_def split: mb_out.splits prod.splits bool.splits)
  obtain getf where gf: "mb_decode (mb_form t) = Some getf" using t(2) by blast
  have enc: "mb_chars (mb_form t) (concat (map (mb_put (mb_form t)) cs)) = Some cs"
    using mb_chars_iff [OF gf] t(1) by blast
  show ?thesis
  proof (cases dest)
    case None
    then have "False \<in> set h" using D(2) by blast
    with f d False None show ?thesis by (auto simp: mb_fill_def)
  next
    case (Some dst)
    with D(1) have dst: "dst = \<lparr>atype = t, adata = None\<rparr>" by simp
    show ?thesis
    proof (cases "inform = mb_form t")
      case True
      obtain ok h2 where a: "heap_alloc h1 = (ok, h2)" by (cases "heap_alloc h1")
      have "False \<notin> set h \<Longrightarrow> ok" using D(2) heap_alloc_no_failure [of h1] a by simp
      then show ?thesis
        using f d False Some dst True a t(3) cs
        by (cases ok) (auto simp: mb_fill_def ASN1_STRING_set_def)
    next
      case False
      have rd: "read_all (length bs) get bs = Some cs" using cs get by (simp add: mb_chars_def)
      obtain ok c where c: "CBB_init (est + 1) h1 = (ok, c)" by (cases "CBB_init (est + 1) h1")
      obtain ok1 c1 where c1: "and_then (mb_convert (length bs) get (mb_enc (mb_form t)) bs) (CBB_add_u8 0 0) c = (ok1, c1)"
        by (cases "and_then (mb_convert (length bs) get (mb_enc (mb_form t)) bs) (CBB_add_u8 0 0) c")
      obtain o2 c2 where c2: "CBB_finish 0 True c1 = (o2, c2)" by (cases "CBB_finish 0 True c1")
      have l: "length cs < 2 ^ 29" "est + 1 < 2 ^ 64" using chars_valid(2) [OF cs] bound by auto
      note R = convert_run [OF rd c l(2,1) c1 c2]
      let ?e = "concat (map (mb_put (mb_form t)) cs)"
      have small: "length ?e + 1 \<le> INT_MAX" using length_concat_puts [of "mb_form t" cs] l(1) by (simp add: INT_MAX_def)
      have run: "(r, out') = (if ok \<and> ok1 \<and> o2 = Some (?e @ [0]) then (t, Out_string \<lparr>atype = t, adata = Some ?e\<rparr>)
          else (- 1, if out = Out_null then Out_dangling else Out_string dst))"
        using f d \<open>out \<noteq> No_out\<close> Some False dst c c1 c2 R(1) small
        by (auto simp: mb_fill_def CBS_init_def CBS_len_def Let_def split: bool.splits option.splits)
      then show ?thesis
        using R(2) D(2) t(1) enc \<open>out \<noteq> No_out\<close> by (auto split: if_splits)
    qed
  qed
qed

lemma ncopy_correct:
  assumes "length bs < 2 ^ 29" and "out \<noteq> Out_dangling"
    and "ASN1_mbstring_ncopy out bs (int (length bs)) inform msk minsize maxsize h = (r, out')"
  shows "(case mb_spec inform bs msk minsize maxsize of
      None \<Rightarrow> r = - 1 \<and> out' = out
    | Some t \<Rightarrow>
        (False \<notin> set h \<longrightarrow> r = t) \<and>
        (r \<noteq> - 1 \<longrightarrow> r = t \<and> (if out = No_out then out' = No_out
           else \<exists>s. out' = Out_string \<lparr>atype = t, adata = Some s\<rparr> \<and> mb_chars (mb_form t) s = mb_chars inform bs)))"
proof (cases "mb_spec inform bs msk minsize maxsize")
  case None
  with ncopy_eq [OF assms(1), of out inform msk minsize maxsize h] assms(3) show ?thesis by simp
next
  case (Some t)
  then obtain cs where cs: "mb_chars inform bs = Some cs" "mb_best (if msk = 0 then DIRSTRING_TYPE else msk) cs = Some t"
    by (auto simp: mb_spec_def split: option.splits if_splits)
  then obtain get where get: "mb_decode inform = Some get" by (auto simp: mb_chars_def split: option.splits)
  obtain est where est: "est < 2 ^ 32"
    "mb_fill out bs (length bs) inform get t (mb_form t) (mb_enc (mb_form t)) est h = (r, out')"
    using ncopy_eq [OF assms(1), of out inform msk minsize maxsize h] assms(3) Some get by auto
  note B = mb_best_holds [OF cs(2) chars_valid(1) [OF cs(1)]]
  show ?thesis
    using mb_fill_props [OF est(2) get cs(1) B [THEN conjunct1] B [THEN conjunct2, THEN conjunct1]
      B [THEN conjunct2, THEN conjunct2] assms(1) est(1) assms(2)]
    unfolding Some option.case cs(1) by (rule conj_commute [THEN iffD1])
qed

text \<open>A string in any of the known types is turned into UTF-8.\<close>

definition utf8_form :: "int \<Rightarrow> int option" where
  "utf8_form t =
     (if t = 12 then Some MBSTRING_UTF8 else if t \<in> {18, 19, 20, 22, 23, 24, 26} then Some MBSTRING_ASC
      else if t = 28 then Some MBSTRING_UNIV else if t = 30 then Some MBSTRING_BMP else None)"

lemma utf8_form_cases:
  assumes "0 \<le> t" and "t \<le> 30"
  shows "utf8_form t = (if tag2nbyte ! nat t = - 1 then None else Some (or (tag2nbyte ! nat t) MBSTRING_FLAG))"
proof -
  have "list_all (\<lambda>n. utf8_form (int n) = (if tag2nbyte ! n = - 1 then None else Some (or (tag2nbyte ! n) MBSTRING_FLAG))) [0..<31]"
    by code_simp
  moreover have "nat t < 31" using assms by simp
  ultimately have "utf8_form (int (nat t)) = (if tag2nbyte ! nat t = - 1 then None else Some (or (tag2nbyte ! nat t) MBSTRING_FLAG))"
    by (rule all_lessI)
  then show ?thesis using assms(1) by simp
qed

lemma ASN1_STRING_to_UTF8_sound:
  assumes "ASN1_STRING_to_UTF8 (Some s) h = (r, u)" and "alen s < 2 ^ 29" and "0 \<le> r"
  shows "\<exists>form cs bytes. utf8_form (atype s) = Some form \<and> u = Some bytes \<and> r = int (length bytes) \<and>
    mb_chars form (case adata s of None \<Rightarrow> [] | Some bs \<Rightarrow> bs) = Some cs \<and> mb_chars MBSTRING_UTF8 bytes = Some cs"
proof -
  let ?bs = "case adata s of None \<Rightarrow> [] | Some bs \<Rightarrow> bs" and ?o = "Out_string \<lparr>atype = 0, adata = None\<rparr>"
  have l: "alen s = length ?bs" by (simp add: alen_def split: option.splits)
  have t: "0 \<le> atype s" "atype s \<le> 30" "tag2nbyte ! nat (atype s) \<noteq> - 1"
    using assms(1,3) by (auto simp: ASN1_STRING_to_UTF8_def Let_def split: if_splits)
  then obtain form where f: "utf8_form (atype s) = Some form" "form = or (tag2nbyte ! nat (atype s)) MBSTRING_FLAG"
    using utf8_form_cases [OF t(1,2)] by simp
  obtain ret stmp where c: "ASN1_mbstring_ncopy ?o ?bs (int (length ?bs)) form B_ASN1_UTF8STRING 0 0 h = (ret, stmp)"
    by (cases "ASN1_mbstring_ncopy ?o ?bs (int (length ?bs)) form B_ASN1_UTF8STRING 0 0 h")
  have run: "(r, u) = (if ret < 0 then (ret, None) else case stmp of Out_string s \<Rightarrow> (int (alen s), adata s) | _ \<Rightarrow> (- 1, None))"
    using assms(1) t c unfolding f(2) by (simp add: ASN1_STRING_to_UTF8_def ASN1_mbstring_copy_def l Let_def)
  then have ret: "\<not> ret < 0" using assms(3) by (auto split: if_splits)
  then have "ret \<noteq> - 1" by simp
  note C = ncopy_correct [OF _ mb_out.distinct(11) c]
  have "length ?bs < 2 ^ 29" using assms(2) l by simp
  note C = C [OF this]
  then obtain t' where t': "mb_spec form ?bs B_ASN1_UTF8STRING 0 0 = Some t'" using \<open>ret \<noteq> - 1\<close>
    by (cases "mb_spec form ?bs B_ASN1_UTF8STRING 0 0") simp_all
  then obtain cs where cs: "mb_chars form ?bs = Some cs" "mb_best (if B_ASN1_UTF8STRING = 0 then DIRSTRING_TYPE else B_ASN1_UTF8STRING) cs = Some t'"
    by (auto simp: mb_spec_def split: option.splits if_splits)
  have "t' = V_ASN1_UTF8STRING" using cs(2) by (simp add: mb_best_def B_ASN1_UTF8STRING_def split: if_splits)
  with C t' \<open>ret \<noteq> - 1\<close> obtain bytes where "stmp = Out_string \<lparr>atype = t', adata = Some bytes\<rparr>"
    "mb_chars (mb_form V_ASN1_UTF8STRING) bytes = mb_chars form ?bs" by auto
  with run ret f(1) cs(1) show ?thesis by (auto simp: alen_def mb_form_def mb_consts)
qed

text \<open>
  The string that \<open>*out\<close> points to after a failure may have been released: the code stores the new
  string in \<open>*out\<close> at once and frees it when the conversion runs out of memory.
\<close>

lemma ncopy_dangling:
  "ASN1_mbstring_ncopy Out_null [0, 97] 2 MBSTRING_BMP 0 0 0 [True, False] = (- 1, Out_dangling)"
  by code_simp

section \<open>Properties\<close>



end
