(* ===== verification/Name_Match.thy ===== *)
theory Name_Match
  imports Asn1_String
begin

text \<open>
  The comparison of a certificate's names with the name a client asked for: \<open>X509_check_host\<close>,
  \<open>X509_check_email\<close> and \<open>X509_check_ip\<close> of \<open>crypto/x509v3/v3_utl.c\<close> with everything they call.

  A certificate is what these functions read of it: the entries of its subject, each an attribute
  type and a string, and the decoded subject alternative names, \<open>None\<close> when there are none.  The
  attribute types are the NIDs of \<open>nid.h\<close>, the kinds of names the \<open>GEN_\<close> numbers of \<open>x509v3.h\<close>.  A pointer
  and a length are a byte list.  The allocations of the conversions to UTF-8 and of the copies of
  the peer's name have their own outcomes, \<open>hs j\<close> for the \<open>j\<close>th name.
\<close>

section \<open>Certificates and flags\<close>

record x509_name =
  entries :: "(int \<times> asn1_string) list"
  canon_enc :: "byte list option" \<comment> \<open>the canonical encoding once it is up to date; \<open>None\<close>: it cannot be computed\<close>

record general_name =
  gtype :: int
  gstr :: asn1_string \<comment> \<open>\<open>d.rfc822Name\<close>, \<open>d.dNSName\<close>, \<open>d.uniformResourceIdentifier\<close> or \<open>d.iPAddress\<close>\<close>
  gdir :: x509_name \<comment> \<open>\<open>d.directoryName\<close>\<close>

record x509 =
  subject_name :: x509_name
  alt_names :: "general_name list option"

definition GEN_EMAIL :: int where "GEN_EMAIL = 1"
definition GEN_DNS :: int where "GEN_DNS = 2"
definition GEN_DIRNAME :: int where "GEN_DIRNAME = 4"
definition GEN_URI :: int where "GEN_URI = 6"
definition GEN_IPADD :: int where "GEN_IPADD = 7"

definition V_ASN1_OCTET_STRING :: int where "V_ASN1_OCTET_STRING = 4"
definition NID_undef :: int where "NID_undef = 0"
definition NID_commonName :: int where "NID_commonName = 13"
definition NID_pkcs9_emailAddress :: int where "NID_pkcs9_emailAddress = 48"

lemmas gen_consts = GEN_EMAIL_def GEN_DNS_def GEN_DIRNAME_def GEN_URI_def GEN_IPADD_def V_ASN1_OCTET_STRING_def
  NID_undef_def NID_commonName_def NID_pkcs9_emailAddress_def

definition X509_CHECK_FLAG_NO_WILDCARDS :: u32 where "X509_CHECK_FLAG_NO_WILDCARDS = 0x2"
definition X509_CHECK_FLAG_NO_PARTIAL_WILDCARDS :: u32 where "X509_CHECK_FLAG_NO_PARTIAL_WILDCARDS = 0x4"
definition X509_CHECK_FLAG_MULTI_LABEL_WILDCARDS :: u32 where "X509_CHECK_FLAG_MULTI_LABEL_WILDCARDS = 0x8"
definition X509_CHECK_FLAG_SINGLE_LABEL_SUBDOMAINS :: u32 where "X509_CHECK_FLAG_SINGLE_LABEL_SUBDOMAINS = 0x10"
definition X509_CHECK_FLAG_NEVER_CHECK_SUBJECT :: u32 where "X509_CHECK_FLAG_NEVER_CHECK_SUBJECT = 0x20"
definition X509_CHECK_FLAG_DOT_SUBDOMAINS :: u32 where "X509_CHECK_FLAG_DOT_SUBDOMAINS = 0x8000"

section \<open>Comparing strings\<close>

fun skip_prefix_loop :: "u32 \<Rightarrow> nat \<Rightarrow> byte list \<Rightarrow> byte list" where
  "skip_prefix_loop flags subject_len [] = []"
| "skip_prefix_loop flags subject_len (c # pattern) =
     (if length (c # pattern) > subject_len \<and> c \<noteq> 0
      then if flags AND X509_CHECK_FLAG_SINGLE_LABEL_SUBDOMAINS \<noteq> 0 \<and> c = 46 then c # pattern
           else skip_prefix_loop flags subject_len pattern
      else c # pattern)"

definition skip_prefix :: "byte list \<Rightarrow> byte list \<Rightarrow> u32 \<Rightarrow> byte list" where
  "skip_prefix p subject flags =
     (if flags AND X509_CHECK_FLAG_DOT_SUBDOMAINS = 0 then p
      else let pattern = skip_prefix_loop flags (length subject) p
           in if length pattern = length subject then pattern else p)"

fun nocase_loop :: "byte list \<Rightarrow> byte list \<Rightarrow> bool" where
  "nocase_loop (l # pattern) (r # subject) =
     (if l = 0 then False
      else if l \<noteq> r
      then let l = (if 65 \<le> l \<and> l \<le> 90 then (l - 65) + 97 else l);
               r = (if 65 \<le> r \<and> r \<le> 90 then (r - 65) + 97 else r)
           in if l \<noteq> r then False else nocase_loop pattern subject
      else nocase_loop pattern subject)"
| "nocase_loop _ _ = True"

type_synonym equal_fn = "byte list \<Rightarrow> byte list \<Rightarrow> u32 \<Rightarrow> bool"

definition equal_nocase :: equal_fn where
  "equal_nocase pattern subject flags =
     (let pattern = skip_prefix pattern subject flags
      in if length pattern \<noteq> length subject then False else nocase_loop pattern subject)"

definition equal_case :: equal_fn where
  "equal_case pattern subject flags =
     (let pattern = skip_prefix pattern subject flags
      in if length pattern \<noteq> length subject then False else memcmp pattern subject = 0)"

text \<open>The search for the last at sign: the final value of \<open>i\<close>, or \<open>None\<close> when the domains differ.\<close>

fun email_at :: "byte list \<Rightarrow> byte list \<Rightarrow> nat \<Rightarrow> nat option" where
  "email_at a b 0 = Some 0"
| "email_at a b (Suc i) =
     (if a ! i = 64 \<or> b ! i = 64
      then if \<not> equal_nocase (drop i a) (drop i b) 0 then None else Some i
      else email_at a b i)"

definition equal_email :: equal_fn where
  "equal_email a b unused_flags =
     (if length a \<noteq> length b then False
      else case email_at a b (length a) of
             None \<Rightarrow> False
           | Some i \<Rightarrow> let i = (if i = 0 then length a else i) in equal_case (take i a) (take i b) 0)"

definition is_alnum :: "byte \<Rightarrow> bool" where
  "is_alnum c \<longleftrightarrow> 48 \<le> c \<and> c \<le> 57 \<or> 65 \<le> c \<and> c \<le> 90 \<or> 97 \<le> c \<and> c \<le> 122"

definition xn_dashes :: "byte list" where
  "xn_dashes = [120, 110, 45, 45]"

text \<open>\<open>*suffix\<close> is read as the first byte; \<open>valid_star\<close> makes sure that there is one.\<close>

definition wildcard_match :: "byte list \<Rightarrow> byte list \<Rightarrow> byte list \<Rightarrow> u32 \<Rightarrow> bool" where
  "wildcard_match prefix suffix subject flags =
     (if length subject < length prefix + length suffix then False
      else if \<not> equal_nocase prefix (take (length prefix) subject) flags then False
      else
        let wildcard_end = length subject - length suffix;
            middle = drop (length prefix) (take wildcard_end subject)
        in if \<not> equal_nocase (drop wildcard_end subject) suffix flags then False
           else
             let first_label = (length prefix = 0 \<and> take 1 suffix = [46])
             in if first_label \<and> middle = [] then False
                else
                  let allow_idna = first_label;
                      allow_multi = (first_label \<and> flags AND X509_CHECK_FLAG_MULTI_LABEL_WILDCARDS \<noteq> 0)
                  in if \<not> allow_idna \<and> length subject \<ge> 4 \<and> OPENSSL_strncasecmp subject xn_dashes 4 = 0 then False
                     else if middle = [42] then True
                     else list_all (\<lambda>p. is_alnum p \<or> p = 45 \<or> allow_multi \<and> p = 46) middle)"

text \<open>The bits of \<open>state\<close> that are used.\<close>

record label_state =
  label_start :: bool
  label_hyphen :: bool
  label_idna :: bool

definition start_state :: label_state where
  "start_state = \<lparr>label_start = True, label_hyphen = False, label_idna = False\<rparr>"

text \<open>
  The loop at \<open>i\<close>, over the bytes from there on: \<open>None\<close> where it returns a null pointer, and otherwise
  the place of the star, the state and the number of dots at the end.
\<close>

fun valid_star_loop :: "u32 \<Rightarrow> byte list \<Rightarrow> nat \<Rightarrow> label_state \<Rightarrow> nat option \<Rightarrow> nat \<Rightarrow>
    (nat option \<times> label_state \<times> nat) option" where
  "valid_star_loop flags [] i state star dots = Some (star, state, dots)"
| "valid_star_loop flags (c # p) i state star dots =
     (if c = 42
      then let atstart = label_start state; atend = (p = [] \<or> hd p = 46)
           in if star \<noteq> None \<or> label_idna state \<or> dots \<noteq> 0 then None
              else if flags AND X509_CHECK_FLAG_NO_PARTIAL_WILDCARDS \<noteq> 0 \<and> (\<not> atstart \<or> \<not> atend) then None
              else if \<not> atstart \<and> \<not> atend then None
              else valid_star_loop flags p (i + 1) (state\<lparr>label_start := False\<rparr>) (Some i) dots
      else if is_alnum c
      then let state = (if label_start state \<and> length (c # p) \<ge> 4 \<and> OPENSSL_strncasecmp (c # p) xn_dashes 4 = 0
                        then state\<lparr>label_idna := True\<rparr> else state)
           in valid_star_loop flags p (i + 1) (state\<lparr>label_hyphen := False, label_start := False\<rparr>) star dots
      else if c = 46
      then if label_hyphen state \<or> label_start state then None
           else valid_star_loop flags p (i + 1) start_state star (dots + 1)
      else if c = 45
      then if label_start state then None
           else valid_star_loop flags p (i + 1) (state\<lparr>label_hyphen := True\<rparr>) star dots
      else None)"

definition valid_star :: "byte list \<Rightarrow> u32 \<Rightarrow> nat option" where
  "valid_star p flags =
     (case valid_star_loop flags p 0 start_state None 0 of
        None \<Rightarrow> None
      | Some (star, state, dots) \<Rightarrow>
          if label_start state \<or> label_hyphen state \<or> dots < 2 then None else star)"

definition equal_wildcard :: equal_fn where
  "equal_wildcard pattern subject flags =
     (case if \<not> (length subject > 1 \<and> hd subject = 46) then valid_star pattern flags else None of
        None \<Rightarrow> equal_nocase pattern subject flags
      | Some star \<Rightarrow> wildcard_match (take star pattern) (drop (star + 1) pattern) subject flags)"

text \<open>The loop of \<open>x509v3_looks_like_dns_name\<close> over \<open>in\<close> from \<open>i\<close> on.\<close>

fun dns_name_loop :: "nat \<Rightarrow> nat \<Rightarrow> byte list \<Rightarrow> nat \<Rightarrow> bool" where
  "dns_name_loop len i [] lstart = True"
| "dns_name_loop len i (c # rest) lstart =
     (if is_alnum c \<or> c = 45 \<and> i > lstart \<or> c = 95 \<or> c = 58 then dns_name_loop len (i + 1) rest lstart
      else if c = 46 \<and> i > lstart \<and> i < len - 1 then dns_name_loop len (i + 1) rest (i + 1)
      else False)"

definition x509v3_looks_like_dns_name :: "byte list \<Rightarrow> bool" where
  "x509v3_looks_like_dns_name inp =
     (let inp = (if length inp > 0 \<and> inp ! (length inp - 1) = 46 then take (length inp - 1) inp else inp);
          inp = (if length inp \<ge> 2 \<and> inp ! 0 = 42 \<and> inp ! 1 = 46 then drop 2 inp else inp)
      in if length inp = 0 then False else dns_name_loop (length inp) 0 inp 0)"

section \<open>The checks\<close>

text \<open>
  The return value and \<open>*peername\<close>, when it is set.  \<open>peername\<close> says whether the caller wants it; \<open>fst h\<close> are
  the allocations of the conversion, \<open>snd h\<close> those of the copy.
\<close>

definition do_check_string ::
  "asn1_string \<Rightarrow> int \<Rightarrow> equal_fn \<Rightarrow> u32 \<Rightarrow> int \<Rightarrow> byte list \<Rightarrow> bool \<Rightarrow> heap \<times> heap \<Rightarrow> int \<times> byte list option" where
  "do_check_string a cmp_type equal flags check_type b peername h =
     (let bytes = (case adata a of None \<Rightarrow> [] | Some bs \<Rightarrow> bs)
      in if adata a = None \<or> alen a = 0 then (0, None)
         else if cmp_type > 0
         then if cmp_type \<noteq> atype a then (0, None)
              else let rv = (if cmp_type = V_ASN1_IA5STRING then equal bytes b flags
                             else int (alen a) = sint (word_of_nat (length b) :: u32) \<and> memcmp bytes b = 0)
                   in (if rv then 1 else 0,
                       if rv \<and> peername then fst (OPENSSL_strndup bytes (alen a) (snd h)) else None)
         else case ASN1_STRING_to_UTF8 (Some a) (fst h) of
                (astrlen, astr) \<Rightarrow>
                  if astrlen < 0 then (- 1, None)
                  else let astr = (case astr of None \<Rightarrow> [] | Some bs \<Rightarrow> bs);
                           rv = (if check_type = GEN_DNS \<and> \<not> x509v3_looks_like_dns_name astr then False
                                 else equal astr b flags)
                       in (if rv then 1 else 0,
                           if rv \<and> peername then fst (OPENSSL_strndup astr (length astr) (snd h)) else None))"

text \<open>The loop over the alternative names, which leaves at the first result that is not zero.\<close>

fun check_gens :: "(asn1_string \<Rightarrow> nat \<Rightarrow> int \<times> byte list option) \<Rightarrow> int \<Rightarrow> general_name list \<Rightarrow> nat \<Rightarrow> int \<times> byte list option" where
  "check_gens check check_type [] j = (0, None)"
| "check_gens check check_type (gen # gens) j =
     (if gtype gen \<noteq> check_type then check_gens check check_type gens (j + 1)
      else case check (gstr gen) j of
             (rv, peer) \<Rightarrow> if rv \<noteq> 0 then (rv, peer) else check_gens check check_type gens (j + 1))"

text \<open>The position after \<open>lastpos\<close> of an entry of a type, and the loop over them.\<close>

definition X509_NAME_get_index_by_NID :: "x509_name \<Rightarrow> int \<Rightarrow> int \<Rightarrow> int" where
  "X509_NAME_get_index_by_NID name nid lastpos =
     (let lastpos = (if lastpos < 0 then - 1 else lastpos)
      in case find (\<lambda>j. fst (entries name ! j) = nid) [nat (lastpos + 1)..<length (entries name)] of
           None \<Rightarrow> - 1
         | Some j \<Rightarrow> int j)"

function check_entries ::
  "(asn1_string \<Rightarrow> nat \<Rightarrow> int \<times> byte list option) \<Rightarrow> x509_name \<Rightarrow> int \<Rightarrow> int \<Rightarrow> int \<times> byte list option" where
  "check_entries check name cnid j =
     (let j' = X509_NAME_get_index_by_NID name cnid j
      in if j' < 0 then (0, None)
         else case check (snd (entries name ! nat j')) (nat j') of
                (rv, peer) \<Rightarrow> if rv \<noteq> 0 then (rv, peer) else check_entries check name cnid j')"
  by pat_completeness auto
termination
proof (relation "measure (\<lambda>(check, name, cnid, j). length (entries name) - nat (j + 1))", goal_cases)
  case (2 check name cnid j j' rv peer)
  then obtain k where k: "find (\<lambda>k. fst (entries name ! k) = cnid) [nat ((if j < 0 then - 1 else j) + 1)..<length (entries name)] = Some k"
    "j' = int k"
    by (auto simp: X509_NAME_get_index_by_NID_def Let_def split: option.splits)
  then have "nat (j + 1) \<le> k" "k < length (entries name)"
    by (auto simp: find_Some_iff split: if_splits)
  with k(2) show ?case by simp
qed simp

declare check_entries.simps [simp del]

definition do_x509_check :: "x509 \<Rightarrow> byte list \<Rightarrow> u32 \<Rightarrow> int \<Rightarrow> bool \<Rightarrow> (nat \<Rightarrow> heap \<times> heap) \<Rightarrow> int \<times> byte list option" where
  "do_x509_check x chk flags check_type peername hs =
     (let flags = flags AND NOT X509_CHECK_FLAG_DOT_SUBDOMAINS;
          (cnid, alt_type, flags, equal) =
            (if check_type = GEN_EMAIL then (NID_pkcs9_emailAddress, V_ASN1_IA5STRING, flags, equal_email)
             else if check_type = GEN_DNS
             then (NID_commonName, V_ASN1_IA5STRING,
                   if length chk > 1 \<and> hd chk = 46 then flags OR X509_CHECK_FLAG_DOT_SUBDOMAINS else flags,
                   if flags AND X509_CHECK_FLAG_NO_WILDCARDS \<noteq> 0 then equal_nocase else equal_wildcard)
             else (NID_undef, V_ASN1_OCTET_STRING, flags, equal_case))
      in case alt_names x of
           Some gens \<Rightarrow>
             check_gens (\<lambda>cstr j. do_check_string cstr alt_type equal flags check_type chk peername (hs j)) check_type gens 0
         | None \<Rightarrow>
             if cnid = NID_undef \<or> flags AND X509_CHECK_FLAG_NEVER_CHECK_SUBJECT \<noteq> 0 then (0, None)
             else check_entries (\<lambda>str j. do_check_string str (- 1) equal flags check_type chk peername (hs j)) (subject_name x) cnid (- 1))"

definition X509_check_host :: "x509 \<Rightarrow> byte list option \<Rightarrow> u32 \<Rightarrow> bool \<Rightarrow> (nat \<Rightarrow> heap \<times> heap) \<Rightarrow> int \<times> byte list option" where
  "X509_check_host x chk flags peername hs =
     (case chk of
        None \<Rightarrow> (- 2, None)
      | Some chk \<Rightarrow> if memchr chk 0 \<noteq> None then (- 2, None) else do_x509_check x chk flags GEN_DNS peername hs)"

definition X509_check_email :: "x509 \<Rightarrow> byte list option \<Rightarrow> u32 \<Rightarrow> (nat \<Rightarrow> heap \<times> heap) \<Rightarrow> int" where
  "X509_check_email x chk flags hs =
     (case chk of
        None \<Rightarrow> - 2
      | Some chk \<Rightarrow> if memchr chk 0 \<noteq> None then - 2 else fst (do_x509_check x chk flags GEN_EMAIL False hs))"

definition X509_check_ip :: "x509 \<Rightarrow> byte list option \<Rightarrow> u32 \<Rightarrow> (nat \<Rightarrow> heap \<times> heap) \<Rightarrow> int" where
  "X509_check_ip x chk flags hs =
     (case chk of None \<Rightarrow> - 2 | Some chk \<Rightarrow> fst (do_x509_check x chk flags GEN_IPADD False hs))"

section \<open>Comparison without regard to case\<close>

definition ascii_lower :: "byte \<Rightarrow> byte" where
  "ascii_lower c = (if 65 \<le> c \<and> c \<le> 90 then c - 65 + 97 else c)"

definition same_nocase :: "byte list \<Rightarrow> byte list \<Rightarrow> bool" where
  "same_nocase a b \<longleftrightarrow> 0 \<notin> set a \<and> map ascii_lower a = map ascii_lower b"

lemma ascii_lower_0 [simp]: "ascii_lower c = 0 \<longleftrightarrow> c = 0"
proof -
  have "list_all (\<lambda>i. ascii_lower (word_of_int i) = 0 \<longleftrightarrow> word_of_int i = (0 :: byte)) [0..255]" by code_simp
  then show ?thesis by (rule all_bytesI)
qed

lemma same_nocase_sym: "same_nocase a b \<longleftrightarrow> same_nocase b a"
proof -
  have "0 \<in> set xs \<longleftrightarrow> 0 \<in> set (map ascii_lower xs)" for xs
    by (auto simp: image_iff eq_commute [of 0])
  then show ?thesis unfolding same_nocase_def by metis
qed

lemma same_nocase_length: "same_nocase a b \<Longrightarrow> length a = length b"
  unfolding same_nocase_def by (metis length_map)

lemma nocase_loop_iff: "length p = length s \<Longrightarrow> nocase_loop p s \<longleftrightarrow> same_nocase p s"
proof (induction p s rule: nocase_loop.induct)
  case (1 l p r s)
  then show ?case by (auto simp: same_nocase_def ascii_lower_def Let_def)
qed (auto simp: same_nocase_def)

lemma skip_prefix_same_length [simp]: "length p = length s \<Longrightarrow> skip_prefix p s flags = p"
  by (cases p) (auto simp: skip_prefix_def Let_def)

lemma skip_prefix_no_dot [simp]: "flags AND X509_CHECK_FLAG_DOT_SUBDOMAINS = 0 \<Longrightarrow> skip_prefix p s flags = p"
  by (simp add: skip_prefix_def)

lemma equal_nocase_same_length: "length p = length s \<Longrightarrow> equal_nocase p s flags \<longleftrightarrow> same_nocase p s"
  by (simp add: equal_nocase_def nocase_loop_iff)

lemma equal_nocase_iff: "flags AND X509_CHECK_FLAG_DOT_SUBDOMAINS = 0 \<Longrightarrow> equal_nocase p s flags \<longleftrightarrow> same_nocase p s"
  by (auto simp: equal_nocase_def nocase_loop_iff dest: same_nocase_length)

lemma skip_prefix_loop_props:
  "n \<le> length p \<Longrightarrow>
    (length (skip_prefix_loop flags n p) = n \<longleftrightarrow>
       0 \<notin> set (take (length p - n) p) \<and>
       (flags AND X509_CHECK_FLAG_SINGLE_LABEL_SUBDOMAINS \<noteq> 0 \<longrightarrow> 46 \<notin> set (take (length p - n) p))) \<and>
    (length (skip_prefix_loop flags n p) = n \<longrightarrow> skip_prefix_loop flags n p = drop (length p - n) p)"
proof (induction p)
  case (Cons c p)
  show ?case
  proof (cases "n = length (c # p)")
    case False
    with Cons.prems have n: "n \<le> length p" by simp
    then have "Suc (length p) - n = Suc (length p - n)" by simp
    with Cons.IH [OF n] n show ?thesis by auto
  qed simp
qed simp

lemma skip_prefix_iff:
  assumes "flags AND X509_CHECK_FLAG_DOT_SUBDOMAINS \<noteq> 0"
  shows "length (skip_prefix p s flags) = length s \<longleftrightarrow>
    (\<exists>pre suf. p = pre @ suf \<and> length suf = length s \<and> skip_prefix p s flags = suf \<and> 0 \<notin> set pre \<and>
      (flags AND X509_CHECK_FLAG_SINGLE_LABEL_SUBDOMAINS \<noteq> 0 \<longrightarrow> 46 \<notin> set pre))"
proof (cases "length s < length p")
  case True
  note P = skip_prefix_loop_props [of "length s" p flags]
  let ?k = "length p - length s"
  have e: "length (skip_prefix p s flags) = length s \<longleftrightarrow> length (skip_prefix_loop flags (length s) p) = length s"
    using assms True by (simp add: skip_prefix_def Let_def)
  show ?thesis
  proof
    assume "length (skip_prefix p s flags) = length s"
    then have l: "length (skip_prefix_loop flags (length s) p) = length s" using e by simp
    then have "skip_prefix p s flags = drop ?k p" using assms P True by (simp add: skip_prefix_def Let_def)
    with l P True show "\<exists>pre suf. p = pre @ suf \<and> length suf = length s \<and> skip_prefix p s flags = suf \<and> 0 \<notin> set pre \<and>
      (flags AND X509_CHECK_FLAG_SINGLE_LABEL_SUBDOMAINS \<noteq> 0 \<longrightarrow> 46 \<notin> set pre)"
      by (intro exI [of _ "take ?k p"] exI [of _ "drop ?k p"]) auto
  qed auto
next
  case False
  show ?thesis
  proof
    assume l: "length (skip_prefix p s flags) = length s"
    have "skip_prefix p s flags = p" using False by (cases p) (auto simp: skip_prefix_def Let_def)
    with l show "\<exists>pre suf. p = pre @ suf \<and> length suf = length s \<and> skip_prefix p s flags = suf \<and> 0 \<notin> set pre \<and>
      (flags AND X509_CHECK_FLAG_SINGLE_LABEL_SUBDOMAINS \<noteq> 0 \<longrightarrow> 46 \<notin> set pre)"
      by (intro exI [of _ "[]"] exI [of _ p]) auto
  qed auto
qed

text \<open>A pattern of the form \<open>.domain\<close> asked for by the client stands for the names below the domain.\<close>

lemma equal_nocase_dot:
  assumes "flags AND X509_CHECK_FLAG_DOT_SUBDOMAINS \<noteq> 0"
  shows "equal_nocase p s flags \<longleftrightarrow>
    (\<exists>pre suf. p = pre @ suf \<and> 0 \<notin> set pre \<and> same_nocase suf s \<and>
      (flags AND X509_CHECK_FLAG_SINGLE_LABEL_SUBDOMAINS \<noteq> 0 \<longrightarrow> 46 \<notin> set pre))"
proof -
  have D: "skip_prefix p s flags = suf"
    if "p = pre @ suf" "0 \<notin> set pre" "length suf = length s"
      "flags AND X509_CHECK_FLAG_SINGLE_LABEL_SUBDOMAINS \<noteq> 0 \<longrightarrow> 46 \<notin> set pre" for pre suf
    using that skip_prefix_loop_props [of "length s" p flags] assms by (auto simp: skip_prefix_def Let_def)
  show ?thesis (is "_ \<longleftrightarrow> (\<exists>pre suf. ?P pre suf)")
  proof
    assume e: "equal_nocase p s flags"
    then have l: "length (skip_prefix p s flags) = length s" by (auto simp: equal_nocase_def Let_def split: if_splits)
    then have n: "same_nocase (skip_prefix p s flags) s" using e by (simp add: equal_nocase_def nocase_loop_iff)
    obtain pre suf where "p = pre @ suf" "skip_prefix p s flags = suf" "0 \<notin> set pre"
      "flags AND X509_CHECK_FLAG_SINGLE_LABEL_SUBDOMAINS \<noteq> 0 \<longrightarrow> 46 \<notin> set pre"
      using iffD1 [OF skip_prefix_iff [OF assms] l] by (elim exE conjE)
    with n show "\<exists>pre suf. ?P pre suf" by (intro exI [of _ pre] exI [of _ suf]) simp
  next
    assume "\<exists>pre suf. ?P pre suf"
    then obtain pre suf where P: "?P pre suf" by blast
    then have "skip_prefix p s flags = suf" using D same_nocase_length by blast
    with P show "equal_nocase p s flags" using same_nocase_length by (simp add: equal_nocase_def nocase_loop_iff)
  qed
qed

section \<open>Patterns with a wildcard\<close>

text \<open>The labels of a name.\<close>

fun split_dots :: "byte list \<Rightarrow> byte list list" where
  "split_dots [] = [[]]"
| "split_dots (c # cs) =
     (if c = 46 then [] # split_dots cs else (c # hd (split_dots cs)) # tl (split_dots cs))"

definition ldh :: "byte \<Rightarrow> bool" where
  "ldh c \<longleftrightarrow> is_alnum c \<or> c = 45"

definition label_ok :: "byte list \<Rightarrow> bool" where
  "label_ok l \<longleftrightarrow> l \<noteq> [] \<and> list_all ldh l \<and> hd l \<noteq> 45 \<and> last l \<noteq> 45"

definition starts_xn :: "byte list \<Rightarrow> bool" where
  "starts_xn l \<longleftrightarrow> map ascii_lower (take 4 l) = xn_dashes"

lemma split_dots_nonempty [simp]: "split_dots p \<noteq> []"
  by (cases p) auto

lemma alnum_neq: "is_alnum c \<Longrightarrow> c \<noteq> 42 \<and> c \<noteq> 45 \<and> c \<noteq> 46"
  by (auto simp: is_alnum_def)

lemma not_alnum [simp]: "\<not> is_alnum 42" "\<not> is_alnum 45" "\<not> is_alnum 46"
  by (simp_all add: is_alnum_def)

text \<open>How a label may go on in a state of the loop.\<close>

definition cont_ok :: "label_state \<Rightarrow> byte list \<Rightarrow> bool" where
  "cont_ok st l \<longleftrightarrow> list_all ldh l \<and>
     (if l = [] then \<not> label_start st \<and> \<not> label_hyphen st
      else (label_start st \<longrightarrow> hd l \<noteq> 45) \<and> last l \<noteq> 45)"

lemma cont_ok_start: "cont_ok start_state l \<longleftrightarrow> label_ok l"
  by (auto simp: cont_ok_def label_ok_def start_state_def)

abbreviation star_result :: "(nat option \<times> label_state \<times> nat) option \<Rightarrow> nat option \<Rightarrow> bool" where
  "star_result r star \<equiv> (\<exists>st d. r = Some (star, st, d) \<and> \<not> label_start st \<and> \<not> label_hyphen st \<and> 2 \<le> d)"

lemma valid_star_result: "valid_star p flags = Some k \<longleftrightarrow> star_result (valid_star_loop flags p 0 start_state None 0) (Some k)"
  by (auto simp: valid_star_def split: option.splits if_splits)

text \<open>Where no star is allowed any more.\<close>

lemma valid_star_tail:
  assumes "star \<noteq> None \<or> dots \<noteq> 0"
  shows "star_result (valid_star_loop flags p i st star dots) s \<longleftrightarrow>
    s = star \<and> cont_ok st (hd (split_dots p)) \<and> list_all label_ok (tl (split_dots p)) \<and>
    2 \<le> dots + length (tl (split_dots p))"
  using assms
proof (induction p arbitrary: i st dots)
  case Nil
  then show ?case by (auto simp: cont_ok_def)
next
  case (Cons c p)
  consider "c = 42" | "c = 46" | "c = 45" | "is_alnum c" | "c \<noteq> 42" "c \<noteq> 46" "c \<noteq> 45" "\<not> is_alnum c" by blast
  then show ?case
  proof cases
    case 1
    then show ?thesis using Cons.prems alnum_neq by (auto simp: cont_ok_def ldh_def)
  next
    case 2
    obtain l ls where d: "split_dots p = l # ls" by (cases "split_dots p") auto
    have "star_result (valid_star_loop flags p (i + 1) start_state star (dots + 1)) s \<longleftrightarrow>
      s = star \<and> label_ok l \<and> list_all label_ok ls \<and> 2 \<le> dots + Suc (length ls)"
      using Cons.IH [of "dots + 1" "i + 1" start_state] d by (simp add: cont_ok_start)
    then show ?thesis using 2 d by (cases "label_hyphen st \<or> label_start st") (auto simp: cont_ok_def)
  next
    case 3
    have "cont_ok st (45 # l) \<longleftrightarrow> \<not> label_start st \<and> cont_ok (st\<lparr>label_hyphen := True\<rparr>) l" for l
      by (auto simp: cont_ok_def ldh_def)
    then show ?thesis
      using 3 Cons.IH [OF Cons.prems, of "i + 1" "st\<lparr>label_hyphen := True\<rparr>"]
      by (cases "label_start st") (simp_all del: Suc_eq_plus1 add: Suc_eq_plus1 [symmetric])
  next
    case 4
    note n = alnum_neq [OF 4]
    let ?idna = "label_start st \<and> 4 \<le> length (c # p) \<and> OPENSSL_strncasecmp (c # p) xn_dashes 4 = 0"
    let ?st = "(if ?idna then st\<lparr>label_idna := True\<rparr> else st)\<lparr>label_hyphen := False, label_start := False\<rparr>"
    have "valid_star_loop flags (c # p) i st star dots = valid_star_loop flags p (i + 1) ?st star dots"
      using 4 n by (simp add: Let_def)
    moreover have "cont_ok st (c # l) \<longleftrightarrow> cont_ok ?st l" for l
      using 4 n by (auto simp: cont_ok_def ldh_def)
    ultimately show ?thesis using Cons.IH [OF Cons.prems, of "i + 1" ?st] n by (simp del: valid_star_loop.simps)
  next
    case 5
    then show ?thesis by (auto simp: cont_ok_def ldh_def)
  qed
qed

text \<open>The first characters of the name, before a star or a dot.\<close>

definition after_prefix :: "byte list \<Rightarrow> byte list \<Rightarrow> label_state \<Rightarrow> label_state" where
  "after_prefix pre rest st =
     (if pre = [] then st
      else \<lparr>label_start = False, label_hyphen = (last pre = 45),
            label_idna = (label_idna st \<or> label_start st \<and> starts_xn (pre @ rest))\<rparr>)"

lemma lower_tolower: "OPENSSL_tolower (sint (c :: byte)) = sint (ascii_lower c)"
proof -
  have "list_all (\<lambda>i. OPENSSL_tolower (sint (word_of_int i :: byte)) = sint (ascii_lower (word_of_int i))) [0..255]"
    by code_simp
  then show ?thesis by (rule all_bytesI)
qed

lemma strncasecmp_step:
  "OPENSSL_strncasecmp (c # s) (d # t) (Suc n) = 0 \<longleftrightarrow>
    ascii_lower c = ascii_lower d \<and> (ascii_lower c = 0 \<or> OPENSSL_strncasecmp s t n = 0)"
proof -
  have inj: "sint a = sint b \<longleftrightarrow> a = b" for a b :: byte by (metis signed_word_eqI)
  have "sint (ascii_lower c) = 0 \<longleftrightarrow> ascii_lower c = 0" using inj [of "ascii_lower c" 0] by simp
  then show ?thesis
    using inj [of "ascii_lower c" "ascii_lower d"] by (auto simp: c_char_def lower_tolower Let_def)
qed

lemma starts_xn_test: "4 \<le> length s \<and> OPENSSL_strncasecmp s xn_dashes 4 = 0 \<longleftrightarrow> starts_xn s"
proof (cases "4 \<le> length s")
  case True
  then obtain a b c d r where s: "s = a # b # c # d # r"
    by (auto simp: numeral_eq_Suc Suc_le_length_iff)
  have x: "xn_dashes = [120, 110, 45, 45]" "ascii_lower 120 = 120" "ascii_lower 110 = 110" "ascii_lower 45 = 45" "ascii_lower 0 = 0"
    by (simp_all add: xn_dashes_def ascii_lower_def)
  have "OPENSSL_strncasecmp s xn_dashes (Suc (Suc (Suc (Suc 0)))) = 0 \<longleftrightarrow> map ascii_lower [a, b, c, d] = xn_dashes"
    unfolding s x(1) strncasecmp_step x by (auto simp: x)
  moreover have "(4 :: nat) = Suc (Suc (Suc (Suc 0)))" by simp
  ultimately show ?thesis using True s by (simp only: starts_xn_def) simp
next
  case False
  then show ?thesis by (auto simp: starts_xn_def xn_dashes_def dest!: arg_cong [of _ _ length])
qed

lemma valid_star_prefix:
  "list_all ldh pre \<Longrightarrow>
    valid_star_loop flags (pre @ rest) i st None 0 =
      (if pre \<noteq> [] \<and> label_start st \<and> hd pre = 45 then None
       else valid_star_loop flags rest (i + length pre) (after_prefix pre rest st) None 0)"
proof (induction pre arbitrary: i st)
  case Nil
  then show ?case by (simp add: after_prefix_def)
next
  case (Cons c pre)
  show ?case
  proof (cases "c = 45")
    case True
    have "after_prefix (c # pre) rest st = after_prefix pre rest (st\<lparr>label_hyphen := True\<rparr>)" if "\<not> label_start st"
      using that True by (cases st) (auto simp: after_prefix_def)
    with True Cons show ?thesis by (cases "label_start st") auto
  next
    case False
    with Cons.prems have a: "is_alnum c" by (simp add: ldh_def)
    let ?st = "(if label_start st \<and> starts_xn (c # pre @ rest) then st\<lparr>label_idna := True\<rparr> else st)
      \<lparr>label_hyphen := False, label_start := False\<rparr>"
    have "valid_star_loop flags ((c # pre) @ rest) i st None 0 = valid_star_loop flags (pre @ rest) (i + 1) ?st None 0"
      using a alnum_neq [OF a] starts_xn_test [of "c # pre @ rest"] by (simp add: Let_def)
    moreover have "after_prefix pre rest ?st = after_prefix (c # pre) rest st"
      using False by (cases st) (auto simp: after_prefix_def)
    ultimately show ?thesis using Cons.IH [of "i + 1" ?st] Cons.prems False by simp
  qed
qed

text \<open>The well-formed patterns: the first label has the star, at one end, and at least two labels follow.\<close>

definition star_pattern :: "u32 \<Rightarrow> byte list \<Rightarrow> byte list \<Rightarrow> byte list \<Rightarrow> bool" where
  "star_pattern flags p pre post \<longleftrightarrow>
     hd (split_dots p) = pre @ 42 # post \<and> list_all ldh (pre @ post) \<and> (pre = [] \<or> post = []) \<and>
     (flags AND X509_CHECK_FLAG_NO_PARTIAL_WILDCARDS \<noteq> 0 \<longrightarrow> pre = [] \<and> post = []) \<and>
     (pre \<noteq> [] \<longrightarrow> hd pre \<noteq> 45 \<and> last pre \<noteq> 45 \<and> \<not> starts_xn pre) \<and> (post \<noteq> [] \<longrightarrow> last post \<noteq> 45) \<and>
     2 \<le> length (tl (split_dots p)) \<and> list_all label_ok (tl (split_dots p))"

lemma split_dots_append:
  "46 \<notin> set pre \<Longrightarrow> split_dots (pre @ rest) = (pre @ hd (split_dots rest)) # tl (split_dots rest)"
  by (induction pre) auto

lemma ldh_no_dot: "list_all ldh l \<Longrightarrow> 46 \<notin> set l \<and> 42 \<notin> set l"
  by (auto simp: list_all_iff ldh_def dest: alnum_neq)

lemma starts_xn_prefix:
  assumes "list_all ldh pre" and "\<not> ldh c"
  shows "starts_xn (pre @ c # rest) \<longleftrightarrow> starts_xn pre"
proof (cases "4 \<le> length pre")
  case True
  then show ?thesis by (simp add: starts_xn_def)
next
  case False
  have "ldh b" if "ascii_lower b \<in> set xn_dashes" for b
  proof -
    have "list_all (\<lambda>i. ascii_lower (word_of_int i) \<in> set xn_dashes \<longrightarrow> ldh (word_of_int i)) [0..255]" by code_simp
    then have "ascii_lower b \<in> set xn_dashes \<longrightarrow> ldh b" by (rule all_bytesI)
    with that show ?thesis by blast
  qed
  then have "\<not> starts_xn l" if "c \<in> set (take 4 l)" for l
    using that assms(2) unfolding starts_xn_def by (metis imageI list.set_map)
  moreover have "c \<in> set (take 4 (pre @ c # rest))" using False by (auto simp: take_Cons')
  moreover have "\<not> starts_xn pre" using False by (auto simp: starts_xn_def xn_dashes_def dest!: arg_cong [of _ _ length])
  ultimately show ?thesis by blast
qed

lemma valid_star_loop_star:
  "valid_star_loop flags (42 # r) i st None 0 =
    (if label_idna st \<or> (flags AND X509_CHECK_FLAG_NO_PARTIAL_WILDCARDS \<noteq> 0 \<and> (\<not> label_start st \<or> hd (split_dots r) \<noteq> []))
       \<or> (\<not> label_start st \<and> hd (split_dots r) \<noteq> [])
     then None else valid_star_loop flags r (i + 1) (st\<lparr>label_start := False\<rparr>) (Some i) 0)"
proof -
  have e: "(r = [] \<or> hd r = 46) \<longleftrightarrow> hd (split_dots r) = []" by (cases r) auto
  show ?thesis
    unfolding valid_star_loop.simps(2) Let_def e by (auto simp del: valid_star_loop.simps)
qed

lemma valid_star_eq: "valid_star p flags = Some k \<longleftrightarrow> (\<exists>pre post. star_pattern flags p pre post \<and> k = length pre)"
proof -
  define pre where "pre = takeWhile ldh p"
  define rest where "rest = dropWhile ldh p"
  have p: "p = pre @ rest" "list_all ldh pre"
    unfolding pre_def rest_def list_all_iff by (simp, blast dest: set_takeWhileD)
  have hd_rest: "rest \<noteq> [] \<Longrightarrow> \<not> ldh (hd rest)" unfolding rest_def by (rule hd_dropWhile)
  let ?st = "after_prefix pre rest start_state"
  have sd: "split_dots p = (pre @ hd (split_dots rest)) # tl (split_dots rest)"
    using split_dots_append ldh_no_dot [OF p(2)] p(1) by simp
  have run: "valid_star_loop flags p 0 start_state None 0 =
    (if pre \<noteq> [] \<and> hd pre = 45 then None else valid_star_loop flags rest (length pre) ?st None 0)"
    using valid_star_prefix [OF p(2), of flags rest 0 start_state] p(1) by (simp add: start_state_def)
  have tw: "takeWhile ldh (xs @ y # ys) = xs" if "list_all ldh xs" "\<not> ldh y" for xs y ys
    using that by (induction xs) auto
  have uniq: "pre' = pre \<and> post @ [] = l \<and> c = 42"
    if "pre' @ 42 # post = pre @ c # l" "list_all ldh pre'" "list_all ldh pre" "\<not> ldh c" for pre' post l c
  proof -
    have "takeWhile ldh (pre' @ 42 # post) = pre'" by (rule tw [OF that(2)]) (simp add: ldh_def)
    moreover have "takeWhile ldh (pre @ c # l) = pre" by (rule tw [OF that(3,4)])
    ultimately have "pre' = pre" using that(1) by simp
    with that(1) show ?thesis by simp
  qed
  consider "rest = []" | c r where "rest = c # r" "c \<noteq> 42" | r where "rest = 42 # r" by (cases rest) auto
  then show ?thesis
  proof cases
    case 1
    then have "\<not> star_pattern flags p pre' post" for pre' post
      using sd ldh_no_dot [OF p(2)] by (auto simp: star_pattern_def)
    moreover have "valid_star p flags \<noteq> Some k"
      unfolding valid_star_result run using 1 by auto
    ultimately show ?thesis by blast
  next
    case (2 c r)
    have nl: "\<not> ldh c" using hd_rest 2 by simp
    have "\<not> star_pattern flags p pre' post" for pre' post
    proof
      assume sp: "star_pattern flags p pre' post"
      show False
      proof (cases "c = 46")
        case True
        then show False using sp sd 2 ldh_no_dot [OF p(2)] by (auto simp: star_pattern_def)
      next
        case False
        then have "hd (split_dots p) = pre @ c # hd (split_dots r)" using sd 2 by simp
        with sp have "pre' @ 42 # post = pre @ c # hd (split_dots r)" "list_all ldh pre'" by (simp_all add: star_pattern_def)
        from uniq [OF this p(2) nl] 2(2) show False by simp
      qed
    qed
    moreover have "valid_star p flags \<noteq> Some k"
    proof -
      have "\<not> star_result (valid_star_loop flags rest (length pre) ?st None 0) (Some k)"
      proof (cases "c = 46")
        case True
        then show ?thesis
          using valid_star_tail [of None 1 flags r "length pre + 1" start_state "Some k"] 2 by auto
      next
        case False
        then show ?thesis using 2 nl by (simp add: ldh_def)
      qed
      then show ?thesis unfolding valid_star_result run by auto
    qed
    ultimately show ?thesis by blast
  next
    case (3 r)
    let ?l = "hd (split_dots r)" and ?ls = "tl (split_dots r)"
    have sd': "hd (split_dots p) = pre @ 42 # ?l" "tl (split_dots p) = ?ls" using sd 3 by simp_all
    have nl: "\<not> ldh 42" by (simp add: ldh_def)
    have st: "label_start ?st \<longleftrightarrow> pre = []" "label_hyphen ?st \<longleftrightarrow> pre \<noteq> [] \<and> last pre = 45"
      "label_idna ?st \<longleftrightarrow> pre \<noteq> [] \<and> starts_xn pre"
      using starts_xn_prefix [OF p(2) nl, of r] 3 by (auto simp: after_prefix_def start_state_def)
    have co: "cont_ok (?st\<lparr>label_start := False\<rparr>) ?l \<longleftrightarrow> list_all ldh ?l \<and>
      (if ?l = [] then pre = [] \<or> last pre \<noteq> 45 else last ?l \<noteq> 45)"
      using st by (auto simp: cont_ok_def)
    have S: "star_pattern flags p pre' post \<longleftrightarrow> pre' = pre \<and> post = ?l \<and> star_pattern flags p pre ?l" for pre' post
    proof
      assume sp: "star_pattern flags p pre' post"
      then have "pre' @ 42 # post = pre @ 42 # ?l" "list_all ldh pre'" using sd' by (simp_all add: star_pattern_def)
      from uniq [OF this p(2) nl] sp show "pre' = pre \<and> post = ?l \<and> star_pattern flags p pre ?l" by simp
    qed simp
    have rhs: "(\<exists>pre post. star_pattern flags p pre post \<and> k = length pre) \<longleftrightarrow> star_pattern flags p pre ?l \<and> k = length pre"
    proof (intro iffI; (elim exE conjE)?)
      fix pre' post assume "star_pattern flags p pre' post" "k = length pre'"
      then show "star_pattern flags p pre ?l \<and> k = length pre" using iffD1 [OF S [of pre' post]] by simp
    next
      assume "star_pattern flags p pre ?l" "k = length pre"
      then show "\<exists>pre post. star_pattern flags p pre post \<and> k = length pre" by (intro exI conjI)
    qed
    have lhs: "valid_star p flags = Some k \<longleftrightarrow> \<not> (pre \<noteq> [] \<and> hd pre = 45) \<and> \<not> (pre \<noteq> [] \<and> starts_xn pre) \<and>
      \<not> (flags AND X509_CHECK_FLAG_NO_PARTIAL_WILDCARDS \<noteq> 0 \<and> (pre \<noteq> [] \<or> ?l \<noteq> [])) \<and> \<not> (pre \<noteq> [] \<and> ?l \<noteq> []) \<and>
      k = length pre \<and> cont_ok (?st\<lparr>label_start := False\<rparr>) ?l \<and> list_all label_ok ?ls \<and> 2 \<le> length ?ls"
    proof -
      have T: "star_result (valid_star_loop flags r (length pre + 1) (?st\<lparr>label_start := False\<rparr>) (Some (length pre)) 0) (Some k) \<longleftrightarrow>
          k = length pre \<and> cont_ok (?st\<lparr>label_start := False\<rparr>) ?l \<and> list_all label_ok ?ls \<and> 2 \<le> length ?ls"
        using valid_star_tail [of "Some (length pre)" 0 flags r "length pre + 1" "?st\<lparr>label_start := False\<rparr>" "Some k"]
        by auto
      have M: "star_result (if B then None else x) s \<longleftrightarrow> \<not> B \<and> star_result x s" for B x s by auto
      let ?X = "valid_star_loop flags r (length pre + 1) (?st\<lparr>label_start := False\<rparr>) (Some (length pre)) 0"
      let ?Q = "label_idna ?st \<or> (flags AND X509_CHECK_FLAG_NO_PARTIAL_WILDCARDS \<noteq> 0 \<and> (\<not> label_start ?st \<or> ?l \<noteq> []))
        \<or> (\<not> label_start ?st \<and> ?l \<noteq> [])"
      have L: "valid_star_loop flags rest (length pre) ?st None 0 = (if ?Q then None else ?X)"
        using valid_star_loop_star [of flags r "length pre" ?st] 3 by argo
      have "valid_star p flags = Some k \<longleftrightarrow> \<not> (pre \<noteq> [] \<and> hd pre = 45) \<and> \<not> ?Q \<and> star_result ?X (Some k)"
        unfolding valid_star_result run L M by (rule refl)
      moreover have "?Q \<longleftrightarrow> (pre \<noteq> [] \<and> starts_xn pre) \<or>
        (flags AND X509_CHECK_FLAG_NO_PARTIAL_WILDCARDS \<noteq> 0 \<and> (pre \<noteq> [] \<or> ?l \<noteq> [])) \<or> (pre \<noteq> [] \<and> ?l \<noteq> [])"
        unfolding st by (rule refl)
      ultimately show ?thesis unfolding T by argo
    qed
    have P: "star_pattern flags p pre ?l \<longleftrightarrow> list_all ldh ?l \<and> (pre = [] \<or> ?l = []) \<and>
      (flags AND X509_CHECK_FLAG_NO_PARTIAL_WILDCARDS \<noteq> 0 \<longrightarrow> pre = [] \<and> ?l = []) \<and>
      (pre \<noteq> [] \<longrightarrow> hd pre \<noteq> 45 \<and> last pre \<noteq> 45 \<and> \<not> starts_xn pre) \<and> (?l \<noteq> [] \<longrightarrow> last ?l \<noteq> 45) \<and>
      2 \<le> length ?ls \<and> list_all label_ok ?ls"
      unfolding star_pattern_def sd' using p(2) by simp
    show ?thesis
      unfolding lhs rhs P co by (cases "pre = []"; cases "?l = []") (simp_all, blast+)
  qed
qed

section \<open>What a name matches\<close>

text \<open>
  The wildcard \<open>pre * suf\<close>: what the star stands for is one part of a label, or the whole label, never
  empty then, and only with the flag for it several labels; a name in an internationalised encoding
  is matched by a whole label only.
\<close>

definition wildcard_covers :: "u32 \<Rightarrow> byte list \<Rightarrow> byte list \<Rightarrow> byte list \<Rightarrow> bool" where
  "wildcard_covers flags pre suf s \<longleftrightarrow>
     (\<exists>a mid b. s = a @ mid @ b \<and> same_nocase pre a \<and> same_nocase suf b \<and>
       (let whole = (pre = [] \<and> take 1 suf = [46])
        in (whole \<longrightarrow> mid \<noteq> []) \<and> (\<not> whole \<longrightarrow> \<not> starts_xn s) \<and>
           (mid = [42] \<or>
            list_all (\<lambda>c. ldh c \<or> whole \<and> flags AND X509_CHECK_FLAG_MULTI_LABEL_WILDCARDS \<noteq> 0 \<and> c = 46) mid)))"

lemma wildcard_match_iff: "wildcard_match pre suf s flags \<longleftrightarrow> wildcard_covers flags pre suf s"
proof (cases "length s < length pre + length suf")
  case True
  then have "\<not> wildcard_covers flags pre suf s"
    by (auto simp: wildcard_covers_def dest!: same_nocase_length)
  then show ?thesis using True by (simp add: wildcard_match_def)
next
  case False
  define a where "a = take (length pre) s"
  define mid where "mid = drop (length pre) (take (length s - length suf) s)"
  define b where "b = drop (length s - length suf) s"
  let ?C = "\<lambda>mid. (let whole = (pre = [] \<and> take 1 suf = [46])
        in (whole \<longrightarrow> mid \<noteq> []) \<and> (\<not> whole \<longrightarrow> \<not> starts_xn s) \<and>
           (mid = [42] \<or>
            list_all (\<lambda>c. ldh c \<or> whole \<and> flags AND X509_CHECK_FLAG_MULTI_LABEL_WILDCARDS \<noteq> 0 \<and> c = 46) mid))"
  have s: "s = a @ mid @ b"
  proof -
    have "take (length s - length suf) s = a @ mid"
      using False unfolding a_def mid_def
      by (metis append_take_drop_id add_le_imp_le_diff linorder_not_less min.absorb1 take_take)
    then show ?thesis unfolding b_def by (metis append.assoc append_take_drop_id)
  qed
  have l: "length a = length pre" "length b = length suf" using False by (simp_all add: a_def b_def)
  have M: "wildcard_match pre suf s flags \<longleftrightarrow> same_nocase pre a \<and> same_nocase suf b \<and> ?C mid"
    using False l same_nocase_sym [of b suf] starts_xn_test [of s]
    unfolding wildcard_match_def Let_def a_def [symmetric] b_def [symmetric] mid_def [symmetric]
    by (simp add: equal_nocase_same_length ldh_def conj_disj_distribL disj_assoc)
  have U: "a' = a \<and> mid' = mid \<and> b' = b"
    if "s = a' @ mid' @ b'" "same_nocase pre a'" "same_nocase suf b'" for a' mid' b'
  proof -
    have "length a' = length a" "length b' = length b" using that(2,3) l by (auto dest!: same_nocase_length)
    moreover from this have "length mid' = length mid" using that(1) s by (metis add_left_cancel add_right_cancel length_append)
    ultimately show ?thesis using that(1) s by (metis append_eq_append_conv)
  qed
  have "wildcard_covers flags pre suf s \<longleftrightarrow> same_nocase pre a \<and> same_nocase suf b \<and> ?C mid"
  proof
    assume "wildcard_covers flags pre suf s"
    then obtain a' mid' b' where w: "s = a' @ mid' @ b'" "same_nocase pre a'" "same_nocase suf b'" "?C mid'"
      unfolding wildcard_covers_def by (elim exE conjE)
    from U [OF w(1-3)] have e: "a' = a" "mid' = mid" "b' = b" by blast+
    show "same_nocase pre a \<and> same_nocase suf b \<and> ?C mid" using w(2-4) unfolding e by (intro conjI)
  next
    assume "same_nocase pre a \<and> same_nocase suf b \<and> ?C mid"
    with s show "wildcard_covers flags pre suf s"
      unfolding wildcard_covers_def by (intro exI [of _ a] exI [of _ mid] exI [of _ b] conjI) simp_all
  qed
  with M show ?thesis by (rule trans [OF _ sym])
qed

definition host_matches :: "u32 \<Rightarrow> byte list \<Rightarrow> byte list \<Rightarrow> bool" where
  "host_matches flags host name \<longleftrightarrow>
     (if length host > 1 \<and> hd host = 46
      then \<exists>pre suf. name = pre @ suf \<and> 0 \<notin> set pre \<and> same_nocase suf host \<and>
             (flags AND X509_CHECK_FLAG_SINGLE_LABEL_SUBDOMAINS \<noteq> 0 \<longrightarrow> 46 \<notin> set pre)
      else if flags AND X509_CHECK_FLAG_NO_WILDCARDS \<noteq> 0 \<or> (\<forall>pre post. \<not> star_pattern flags name pre post)
      then same_nocase name host
      else \<exists>pre post. star_pattern flags name pre post \<and>
             wildcard_covers flags pre (drop (length pre + 1) name) host)"

lemma star_pattern_take: "star_pattern flags p pre post \<Longrightarrow> take (length pre) p = pre"
proof -
  assume s: "star_pattern flags p pre post"
  have "\<exists>t. p = hd (split_dots p) @ t" by (induction p) auto
  then obtain t where "p = hd (split_dots p) @ t" by blast
  also have "hd (split_dots p) = pre @ 42 # post" using s by (simp add: star_pattern_def)
  finally show ?thesis by simp
qed

lemma equal_wildcard_iff:
  assumes "flags AND X509_CHECK_FLAG_DOT_SUBDOMAINS \<noteq> 0 \<longleftrightarrow> length host > 1 \<and> hd host = 46"
    and "flags AND X509_CHECK_FLAG_NO_WILDCARDS = 0"
  shows "equal_wildcard name host flags \<longleftrightarrow> host_matches flags host name"
proof (cases "length host > 1 \<and> hd host = 46")
  case True
  then show ?thesis using equal_nocase_dot assms(1) by (auto simp: equal_wildcard_def host_matches_def)
next
  case False
  then have D: "flags AND X509_CHECK_FLAG_DOT_SUBDOMAINS = 0" using assms(1) by blast
  show ?thesis
  proof (cases "valid_star name flags")
    case None
    then have "\<not> star_pattern flags name pre post" for pre post
      using valid_star_eq [of name flags "length pre"] by auto
    then show ?thesis using None False equal_nocase_iff [OF D] by (auto simp: equal_wildcard_def host_matches_def)
  next
    case (Some k)
    then obtain pre post where sp: "star_pattern flags name pre post" "k = length pre"
      using iffD1 [OF valid_star_eq] by blast
    have u: "pre' = pre" if "star_pattern flags name pre' post'" for pre' post'
    proof -
      have "valid_star name flags = Some (length pre')" using that by (intro iffD2 [OF valid_star_eq] exI [of _ pre'] exI [of _ post'] conjI refl)
      then have "length pre' = length pre" using Some sp(2) by simp
      then show ?thesis using star_pattern_take [OF that] star_pattern_take [OF sp(1)] by metis
    qed
    have "equal_wildcard name host flags \<longleftrightarrow> wildcard_match pre (drop (length pre + 1) name) host flags"
      using star_pattern_take [OF sp(1)] unfolding equal_wildcard_def if_P [OF False] Some sp(2) by simp
    moreover have "host_matches flags host name \<longleftrightarrow> wildcard_covers flags pre (drop (length pre + 1) name) host"
    proof -
      have "\<not> (flags AND X509_CHECK_FLAG_NO_WILDCARDS \<noteq> 0 \<or> (\<forall>pre post. \<not> star_pattern flags name pre post))"
        using assms(2) sp(1) by (simp, intro exI)
      then have "host_matches flags host name \<longleftrightarrow> (\<exists>pre post. star_pattern flags name pre post \<and>
             wildcard_covers flags pre (drop (length pre + 1) name) host)"
        unfolding host_matches_def if_not_P [OF False] by (rule if_not_P)
      also have "\<dots> \<longleftrightarrow> wildcard_covers flags pre (drop (length pre + 1) name) host"
      proof
        assume "\<exists>pre post. star_pattern flags name pre post \<and> wildcard_covers flags pre (drop (length pre + 1) name) host"
        then obtain pre' post' where w: "star_pattern flags name pre' post'"
          "wildcard_covers flags pre' (drop (length pre' + 1) name) host" by (elim exE conjE)
        from w(2) show "wildcard_covers flags pre (drop (length pre + 1) name) host" unfolding u [OF w(1)] .
      next
        assume "wildcard_covers flags pre (drop (length pre + 1) name) host"
        with sp(1) show "\<exists>pre post. star_pattern flags name pre post \<and> wildcard_covers flags pre (drop (length pre + 1) name) host"
          by (intro exI conjI)
      qed
      finally show ?thesis .
    qed
    ultimately show ?thesis unfolding wildcard_match_iff by simp
  qed
qed

lemma flags_cleared: "(flags AND NOT X509_CHECK_FLAG_DOT_SUBDOMAINS) AND w = flags AND w"
  if "NOT X509_CHECK_FLAG_DOT_SUBDOMAINS AND w = w" for flags w :: u32
  using that by (simp add: and.assoc)

lemma flags_set: "(flags OR X509_CHECK_FLAG_DOT_SUBDOMAINS) AND w = flags AND w"
  if "X509_CHECK_FLAG_DOT_SUBDOMAINS AND w = 0" for flags w :: u32
  using that by (simp add: bit.conj_disj_distrib2)

lemma check_flags_disjoint:
  "NOT X509_CHECK_FLAG_DOT_SUBDOMAINS AND X509_CHECK_FLAG_NO_WILDCARDS = X509_CHECK_FLAG_NO_WILDCARDS"
  "NOT X509_CHECK_FLAG_DOT_SUBDOMAINS AND X509_CHECK_FLAG_NO_PARTIAL_WILDCARDS = X509_CHECK_FLAG_NO_PARTIAL_WILDCARDS"
  "NOT X509_CHECK_FLAG_DOT_SUBDOMAINS AND X509_CHECK_FLAG_MULTI_LABEL_WILDCARDS = X509_CHECK_FLAG_MULTI_LABEL_WILDCARDS"
  "NOT X509_CHECK_FLAG_DOT_SUBDOMAINS AND X509_CHECK_FLAG_SINGLE_LABEL_SUBDOMAINS = X509_CHECK_FLAG_SINGLE_LABEL_SUBDOMAINS"
  "NOT X509_CHECK_FLAG_DOT_SUBDOMAINS AND X509_CHECK_FLAG_NEVER_CHECK_SUBJECT = X509_CHECK_FLAG_NEVER_CHECK_SUBJECT"
  "X509_CHECK_FLAG_DOT_SUBDOMAINS AND X509_CHECK_FLAG_NO_WILDCARDS = 0"
  "X509_CHECK_FLAG_DOT_SUBDOMAINS AND X509_CHECK_FLAG_NO_PARTIAL_WILDCARDS = 0"
  "X509_CHECK_FLAG_DOT_SUBDOMAINS AND X509_CHECK_FLAG_MULTI_LABEL_WILDCARDS = 0"
  "X509_CHECK_FLAG_DOT_SUBDOMAINS AND X509_CHECK_FLAG_SINGLE_LABEL_SUBDOMAINS = 0"
  "X509_CHECK_FLAG_DOT_SUBDOMAINS AND X509_CHECK_FLAG_NEVER_CHECK_SUBJECT = 0"
  by code_simp+

text \<open>The flags \<open>do_x509_check\<close> gives the comparison of host names.\<close>

definition host_flags :: "u32 \<Rightarrow> byte list \<Rightarrow> u32" where
  "host_flags flags host =
     (let flags = flags AND NOT X509_CHECK_FLAG_DOT_SUBDOMAINS
      in if length host > 1 \<and> hd host = 46 then flags OR X509_CHECK_FLAG_DOT_SUBDOMAINS else flags)"

lemma host_flags_bits [simp]:
  "host_flags flags host AND X509_CHECK_FLAG_NO_WILDCARDS = flags AND X509_CHECK_FLAG_NO_WILDCARDS"
  "host_flags flags host AND X509_CHECK_FLAG_NO_PARTIAL_WILDCARDS = flags AND X509_CHECK_FLAG_NO_PARTIAL_WILDCARDS"
  "host_flags flags host AND X509_CHECK_FLAG_MULTI_LABEL_WILDCARDS = flags AND X509_CHECK_FLAG_MULTI_LABEL_WILDCARDS"
  "host_flags flags host AND X509_CHECK_FLAG_SINGLE_LABEL_SUBDOMAINS = flags AND X509_CHECK_FLAG_SINGLE_LABEL_SUBDOMAINS"
  "host_flags flags host AND X509_CHECK_FLAG_NEVER_CHECK_SUBJECT = flags AND X509_CHECK_FLAG_NEVER_CHECK_SUBJECT"
  by (simp_all add: host_flags_def Let_def flags_cleared flags_set check_flags_disjoint)

lemma host_flags_dot: "host_flags flags host AND X509_CHECK_FLAG_DOT_SUBDOMAINS \<noteq> 0 \<longleftrightarrow> length host > 1 \<and> hd host = 46"
proof -
  have "NOT X509_CHECK_FLAG_DOT_SUBDOMAINS AND X509_CHECK_FLAG_DOT_SUBDOMAINS = 0" "X509_CHECK_FLAG_DOT_SUBDOMAINS \<noteq> 0"
    by code_simp+
  then show ?thesis by (simp add: host_flags_def Let_def and.assoc bit.conj_disj_distrib2)
qed

lemma host_matches_flags: "host_matches (host_flags flags host) host name \<longleftrightarrow> host_matches flags host name"
proof -
  have "star_pattern (host_flags flags host) = star_pattern flags" "wildcard_covers (host_flags flags host) = wildcard_covers flags"
    by (intro ext, simp add: star_pattern_def wildcard_covers_def)+
  then show ?thesis by (simp only: host_matches_def host_flags_bits)
qed

lemma host_equal_iff:
  "(if flags AND X509_CHECK_FLAG_NO_WILDCARDS \<noteq> 0 then equal_nocase else equal_wildcard) name host (host_flags flags host)
     \<longleftrightarrow> host_matches flags host name"
proof (cases "flags AND X509_CHECK_FLAG_NO_WILDCARDS = 0")
  case True
  then show ?thesis using equal_wildcard_iff [of "host_flags flags host" host name] host_flags_dot host_matches_flags by simp
next
  case False
  have "equal_nocase name host (host_flags flags host) \<longleftrightarrow> host_matches (host_flags flags host) host name"
  proof (cases "length host > 1 \<and> hd host = 46")
    case True
    then show ?thesis using equal_nocase_dot [of "host_flags flags host"] host_flags_dot by (simp add: host_matches_def)
  next
    case nodot: False
    then have "host_flags flags host AND X509_CHECK_FLAG_DOT_SUBDOMAINS = 0" using host_flags_dot by blast
    from equal_nocase_iff [OF this] show ?thesis
      unfolding host_matches_def if_not_P [OF nodot] using False by simp
  qed
  with False host_matches_flags show ?thesis by simp
qed

section \<open>The checks find a name that matches\<close>

text \<open>A string is compared as the bytes it has; one without bytes matches nothing.\<close>

definition str_bytes :: "asn1_string \<Rightarrow> byte list" where
  "str_bytes s = (case adata s of None \<Rightarrow> [] | Some bs \<Rightarrow> bs)"

lemma check_gens_zero_one:
  assumes "\<And>s j. fst (check s j) = (if P s then 1 else 0)"
  shows "fst (check_gens check ct gens j) = (if \<exists>g \<in> set gens. gtype g = ct \<and> P (gstr g) then 1 else 0)"
proof (induction gens arbitrary: j)
  case (Cons g gens)
  then show ?case using assms [of "gstr g" j] by (cases "check (gstr g) j") auto
qed simp

lemma check_entries_finds:
  assumes "fst (check_entries check name cnid j) = r" and "r \<noteq> 0"
  shows "\<exists>k < length (entries name). fst (entries name ! k) = cnid \<and> fst (check (snd (entries name ! k)) k) = r"
  using assms
proof (induction check name cnid j rule: check_entries.induct)
  case (1 check name cnid j)
  define j' where "j' = X509_NAME_get_index_by_NID name cnid j"
  have nn: "\<not> j' < 0" using 1 by (auto simp: check_entries.simps [of check] j'_def split: if_splits)
  then obtain k where k: "j' = int k" "k < length (entries name)" "fst (entries name ! k) = cnid"
    unfolding j'_def X509_NAME_get_index_by_NID_def Let_def by (auto simp: find_Some_iff split: option.splits)
  obtain rv peer where c: "check (snd (entries name ! nat j')) (nat j') = (rv, peer)" by fastforce
  have step: "check_entries check name cnid j = (if rv \<noteq> 0 then (rv, peer) else check_entries check name cnid j')"
    using nn c by (simp add: check_entries.simps [of check name cnid j] j'_def [symmetric])
  show ?case
  proof (cases "rv = 0")
    case True
    show ?thesis
      by (rule "1.IH" [OF j'_def nn c [symmetric]]) (use True step "1.prems" in simp_all)
  next
    case False
    then have "rv = r" using step 1(2) by simp
    with c k show ?thesis by (intro exI [of _ k]) simp
  qed
qed

definition same_chars :: "asn1_string \<Rightarrow> byte list \<Rightarrow> bool" where
  "same_chars s name \<longleftrightarrow>
     (\<exists>form cs. utf8_form (atype s) = Some form \<and> mb_chars form (str_bytes s) = Some cs \<and>
        mb_chars MBSTRING_UTF8 name = Some cs)"

lemma do_check_string_ia5:
  "fst (do_check_string s V_ASN1_IA5STRING equal flags ct b peername h) =
     (if atype s = V_ASN1_IA5STRING \<and> str_bytes s \<noteq> [] \<and> equal (str_bytes s) b flags then 1 else 0)"
  by (auto simp: do_check_string_def Let_def str_bytes_def alen_def V_ASN1_IA5STRING_def split: option.splits)

lemma do_check_string_utf8:
  assumes "fst (do_check_string s (- 1) equal flags GEN_DNS b peername h) = 1" and "alen s < 2 ^ 29"
  shows "\<exists>name. same_chars s name \<and> x509v3_looks_like_dns_name name \<and> equal name b flags"
proof -
  obtain r u where c: "ASN1_STRING_to_UTF8 (Some s) (fst h) = (r, u)" by (cases "ASN1_STRING_to_UTF8 (Some s) (fst h)")
  let ?name = "case u of None \<Rightarrow> [] | Some bs \<Rightarrow> bs"
  have r: "0 \<le> r" "x509v3_looks_like_dns_name ?name" "equal ?name b flags"
    using assms(1) c by (auto simp: do_check_string_def Let_def split: if_splits)
  from ASN1_STRING_to_UTF8_sound [OF c assms(2) r(1)] obtain form cs bytes where
    "utf8_form (atype s) = Some form" "u = Some bytes"
    "mb_chars form (case adata s of None \<Rightarrow> [] | Some bs \<Rightarrow> bs) = Some cs" "mb_chars MBSTRING_UTF8 bytes = Some cs" by blast
  then have "same_chars s ?name" by (auto simp: same_chars_def str_bytes_def)
  with r show ?thesis by blast
qed

lemma do_x509_check_host:
  "do_x509_check x host flags GEN_DNS peername hs =
    (let equal = (if flags AND X509_CHECK_FLAG_NO_WILDCARDS \<noteq> 0 then equal_nocase else equal_wildcard)
     in case alt_names x of
          Some gens \<Rightarrow> check_gens (\<lambda>cstr j. do_check_string cstr V_ASN1_IA5STRING equal (host_flags flags host) GEN_DNS host peername (hs j)) GEN_DNS gens 0
        | None \<Rightarrow> if flags AND X509_CHECK_FLAG_NEVER_CHECK_SUBJECT \<noteq> 0 then (0, None)
            else check_entries (\<lambda>str j. do_check_string str (- 1) equal (host_flags flags host) GEN_DNS host peername (hs j))
                   (subject_name x) NID_commonName (- 1))"
proof -
  have F: "(flags AND NOT X509_CHECK_FLAG_DOT_SUBDOMAINS) AND X509_CHECK_FLAG_NO_WILDCARDS = flags AND X509_CHECK_FLAG_NO_WILDCARDS"
    using flags_cleared check_flags_disjoint(1) by blast
  have H: "(if length host > 1 \<and> hd host = 46 then (flags AND NOT X509_CHECK_FLAG_DOT_SUBDOMAINS) OR X509_CHECK_FLAG_DOT_SUBDOMAINS
     else flags AND NOT X509_CHECK_FLAG_DOT_SUBDOMAINS) = host_flags flags host"
    by (simp add: host_flags_def Let_def)
  have g: "GEN_DNS \<noteq> GEN_EMAIL" and n: "(NID_commonName = NID_undef) = False" by (simp_all add: gen_consts)
  show ?thesis
    unfolding do_x509_check_def Let_def F H if_not_P [OF g] if_P [OF refl] prod.case n by simp
qed

lemma X509_check_host_names:
  assumes "0 \<notin> set host" and "alt_names x = Some gens"
  shows "fst (X509_check_host x (Some host) flags peername hs) =
    (if \<exists>g \<in> set gens. gtype g = GEN_DNS \<and> atype (gstr g) = V_ASN1_IA5STRING \<and> str_bytes (gstr g) \<noteq> [] \<and>
          host_matches flags host (str_bytes (gstr g)) then 1 else 0)"
proof -
  let ?equal = "if flags AND X509_CHECK_FLAG_NO_WILDCARDS \<noteq> 0 then equal_nocase else equal_wildcard"
  let ?P = "\<lambda>s. atype s = V_ASN1_IA5STRING \<and> str_bytes s \<noteq> [] \<and> host_matches flags host (str_bytes s)"
  have "fst (do_check_string s V_ASN1_IA5STRING ?equal (host_flags flags host) GEN_DNS host peername h) = (if ?P s then 1 else 0)" for s h
    unfolding do_check_string_ia5 host_equal_iff ..
  then show ?thesis
    using assms unfolding X509_check_host_def option.case do_x509_check_host
    by (simp add: memchr_None Let_def check_gens_zero_one [where P = ?P])
qed

lemma X509_check_host_subject:
  assumes "0 \<notin> set host" and "alt_names x = None" and "fst (X509_check_host x (Some host) flags peername hs) = 1"
    and "\<forall>(nid, s) \<in> set (entries (subject_name x)). alen s < 2 ^ 29"
  shows "flags AND X509_CHECK_FLAG_NEVER_CHECK_SUBJECT = 0 \<and>
    (\<exists>(nid, s) \<in> set (entries (subject_name x)). nid = NID_commonName \<and>
       (\<exists>name. same_chars s name \<and> x509v3_looks_like_dns_name name \<and> host_matches flags host name))"
proof -
  let ?equal = "if flags AND X509_CHECK_FLAG_NO_WILDCARDS \<noteq> 0 then equal_nocase else equal_wildcard"
  let ?check = "\<lambda>str j. do_check_string str (- 1) ?equal (host_flags flags host) GEN_DNS host peername (hs j)"
  have "fst (do_x509_check x host flags GEN_DNS peername hs) = 1"
    using assms(1,3) by (simp add: X509_check_host_def memchr_None)
  then have c: "flags AND X509_CHECK_FLAG_NEVER_CHECK_SUBJECT = 0"
    "fst (check_entries ?check (subject_name x) NID_commonName (- 1)) = 1"
    using assms(2) unfolding do_x509_check_host Let_def by (auto split: if_splits)
  from check_entries_finds [OF c(2)] obtain k where k: "k < length (entries (subject_name x))"
    "fst (entries (subject_name x) ! k) = NID_commonName" "fst (?check (snd (entries (subject_name x) ! k)) k) = 1" by auto
  let ?s = "snd (entries (subject_name x) ! k)"
  have m: "(NID_commonName, ?s) \<in> set (entries (subject_name x))" using k(1,2) by (metis nth_mem prod.collapse)
  with assms(4) have "alen ?s < 2 ^ 29" by auto
  from do_check_string_utf8 [OF k(3) this] obtain name where "same_chars ?s name" "x509v3_looks_like_dns_name name"
    "?equal name host (host_flags flags host)" by blast
  then have "\<exists>name. same_chars ?s name \<and> x509v3_looks_like_dns_name name \<and> host_matches flags host name"
    unfolding host_equal_iff by blast
  with m c(1) show ?thesis by (intro conjI bexI [of _ "(NID_commonName, ?s)"]) simp_all
qed

text \<open>C8: \<open>X509_check_host\<close> compares the host with the subject alternative names of DNS kind when the
  certificate has alternative names at all, and finds it exactly when one of them matches: it is the
  same name without regard to case, or a name with a well-formed wildcard in its first label that covers
  the host, or it lies below the domain when the client asks for \<open>.domain\<close>, all as the flags allow.
  Without alternative names it reports a match only for a common name of the subject that looks like a
  DNS name and matches when converted to UTF-8, and never when the flags exclude the subject.
\<close>

theorem X509_check_host_correct:
  assumes "0 \<notin> set host" and "\<forall>(nid, s) \<in> set (entries (subject_name x)). alen s < 2 ^ 29"
  shows "case alt_names x of
      Some gens \<Rightarrow>
        fst (X509_check_host x (Some host) flags peername hs) =
          (if \<exists>g \<in> set gens. gtype g = GEN_DNS \<and> atype (gstr g) = V_ASN1_IA5STRING \<and> str_bytes (gstr g) \<noteq> [] \<and>
                host_matches flags host (str_bytes (gstr g)) then 1 else 0)
    | None \<Rightarrow>
        fst (X509_check_host x (Some host) flags peername hs) = 1 \<longrightarrow>
          flags AND X509_CHECK_FLAG_NEVER_CHECK_SUBJECT = 0 \<and>
          (\<exists>(nid, s) \<in> set (entries (subject_name x)). nid = NID_commonName \<and>
             (\<exists>name. same_chars s name \<and> x509v3_looks_like_dns_name name \<and> host_matches flags host name))"
  using X509_check_host_names [OF assms(1)] X509_check_host_subject [OF assms(1) _ _ assms(2)]
  by (cases "alt_names x") simp_all

text \<open>The name is \<open>*.a.bc\<close>, the host \<open>w.A.bc\<close>; the common name \<open>w.a.bc\<close> is not looked at.\<close>

definition wild_cert :: x509 where
  "wild_cert = \<lparr>subject_name = \<lparr>entries = [(NID_commonName, \<lparr>atype = V_ASN1_IA5STRING, adata = Some [119, 46, 97, 46, 98, 99]\<rparr>)],
       canon_enc = None\<rparr>,
     alt_names = Some [\<lparr>gtype = GEN_DNS, gstr = \<lparr>atype = V_ASN1_IA5STRING, adata = Some [42, 46, 97, 46, 98, 99]\<rparr>,
       gdir = \<lparr>entries = [], canon_enc = None\<rparr>\<rparr>]\<rparr>"

lemma wild_cert_runs:
  "fst (X509_check_host wild_cert (Some [119, 46, 65, 46, 98, 99]) 0 False (\<lambda>_. ([], []))) = 1"
  "fst (X509_check_host wild_cert (Some [46, 65, 46, 98, 99]) 0 False (\<lambda>_. ([], []))) = 1"
  "fst (X509_check_host wild_cert (Some [119, 46, 119, 46, 65, 46, 98, 99]) 0 False (\<lambda>_. ([], []))) = 0"
  "fst (X509_check_host wild_cert (Some [119, 46, 65, 46, 98, 99]) X509_CHECK_FLAG_NO_WILDCARDS False (\<lambda>_. ([], []))) = 0"
  by code_simp+

theorem X509_check_host_correct_witness:
  "host_matches 0 [119, 46, 65, 46, 98, 99] [42, 46, 97, 46, 98, 99]"
  using X509_check_host_correct [of "[119, 46, 65, 46, 98, 99]" wild_cert 0 False "\<lambda>_. ([], [])"] wild_cert_runs(1)
  by (simp add: wild_cert_def alen_def str_bytes_def split: if_splits)

section \<open>Mail addresses and IP addresses\<close>

lemma equal_case_iff: "flags AND X509_CHECK_FLAG_DOT_SUBDOMAINS = 0 \<Longrightarrow> equal_case p s flags \<longleftrightarrow> p = s"
  by (auto simp: equal_case_def memcmp_eq_0)

text \<open>
  Two mail addresses agree when their parts before the last at sign are the same and the rest is the same
  without regard to case; without an at sign after the first byte they have to be the same.
\<close>

definition email_matches :: "byte list \<Rightarrow> byte list \<Rightarrow> bool" where
  "email_matches a b \<longleftrightarrow>
     (\<exists>l d d'. a = l @ 64 # d \<and> b = l @ 64 # d' \<and> l \<noteq> [] \<and> 64 \<notin> set d \<and> same_nocase d d') \<or>
     a = b \<and> 64 \<notin> set (tl a) \<and> (a \<noteq> [] \<and> hd a = 64 \<longrightarrow> 0 \<notin> set a)"

lemma ascii_lower_at [simp]: "ascii_lower c = 64 \<longleftrightarrow> c = 64"
proof -
  have "list_all (\<lambda>i. ascii_lower (word_of_int i) = 64 \<longleftrightarrow> word_of_int i = (64 :: byte)) [0..255]" by code_simp
  then show ?thesis by (rule all_bytesI)
qed

lemma same_nocase_at: "same_nocase a b \<Longrightarrow> 64 \<in> set a \<longleftrightarrow> 64 \<in> set b"
proof -
  assume "same_nocase a b"
  then have "64 \<in> set (map ascii_lower a) \<longleftrightarrow> 64 \<in> set (map ascii_lower b)" by (simp add: same_nocase_def)
  moreover have "64 \<in> set (map ascii_lower l) \<longleftrightarrow> 64 \<in> set l" for l by (auto simp: image_iff eq_commute [of 64])
  ultimately show ?thesis by simp
qed

lemma same_nocase_drop:
  assumes "same_nocase (drop i a) (drop i b)" and "a ! i = 64 \<or> b ! i = 64" and "i < length a" and "length a = length b"
  shows "a ! i = 64 \<and> b ! i = 64 \<and> same_nocase (drop (Suc i) a) (drop (Suc i) b)"
proof -
  have "drop i a = a ! i # drop (Suc i) a" "drop i b = b ! i # drop (Suc i) b"
    using assms(3,4) by (simp_all add: Cons_nth_drop_Suc)
  with assms(1) have "ascii_lower (a ! i) = ascii_lower (b ! i)" "same_nocase (drop (Suc i) a) (drop (Suc i) b)"
    by (simp_all add: same_nocase_def)
  then show ?thesis using assms(2) by (metis ascii_lower_at)
qed

text \<open>The search from \<open>n\<close> down: the last place before \<open>n\<close> with an at sign in either string decides.\<close>

lemma email_at_last:
  "email_at a b n =
    (case find (\<lambda>i. a ! i = 64 \<or> b ! i = 64) (rev [0..<n]) of
       None \<Rightarrow> Some 0
     | Some i \<Rightarrow> if equal_nocase (drop i a) (drop i b) 0 then Some i else None)"
  by (induction n) auto

lemma find_rev_upt:
  "find P (rev [0..<n]) = Some i \<Longrightarrow> i < n \<and> P i \<and> (\<forall>j. i < j \<and> j < n \<longrightarrow> \<not> P j)"
  by (induction n) (auto split: if_splits simp: less_Suc_eq)

lemma last_at:
  assumes "a = l @ 64 # d" and "64 \<notin> set d"
  shows "a ! length l = 64" and "j < length a \<Longrightarrow> a ! j = 64 \<Longrightarrow> j \<le> length l"
    and "drop (length l) a = 64 # d" and "take (length l) a = l" and "length l < length a"
proof -
  assume j: "j < length a" "a ! j = 64"
  show "j \<le> length l"
  proof (rule ccontr)
    assume "\<not> j \<le> length l"
    with j assms(1) have "d ! (j - length l - 1) \<in> set d" by (intro nth_mem) auto
    moreover have "d ! (j - length l - 1) = 64" using j assms(1) \<open>\<not> j \<le> length l\<close> by (simp add: nth_append nth_Cons')
    ultimately show False using assms(2) by simp
  qed
qed (use assms in \<open>simp_all add: nth_append\<close>)

lemma split_at_last:
  assumes "i < length a" and "a ! i = 64" and "\<forall>j. i < j \<and> j < length a \<longrightarrow> a ! j \<noteq> 64"
  shows "a = take i a @ 64 # drop (Suc i) a" and "64 \<notin> set (drop (Suc i) a)"
proof -
  show "a = take i a @ 64 # drop (Suc i) a" using assms(1,2) by (metis id_take_nth_drop)
  show "64 \<notin> set (drop (Suc i) a)"
  proof
    assume "64 \<in> set (drop (Suc i) a)"
    then obtain j where "j < length a - Suc i" "a ! (Suc i + j) = 64" by (auto simp: in_set_conv_nth)
    moreover have "a ! (Suc i + j) \<noteq> 64" by (rule assms(3) [rule_format]) (use \<open>j < length a - Suc i\<close> in simp)
    ultimately show False by simp
  qed
qed

lemma equal_email_no_at:
  "length a = length b \<Longrightarrow> find (\<lambda>i. a ! i = 64 \<or> b ! i = 64) (rev [0..<length a]) = None \<Longrightarrow>
    equal_email a b flags \<longleftrightarrow> a = b"
  by (simp add: equal_email_def email_at_last equal_case_iff)

lemma equal_email_at:
  "length a = length b \<Longrightarrow> find (\<lambda>i. a ! i = 64 \<or> b ! i = 64) (rev [0..<length a]) = Some i \<Longrightarrow> i < length a \<Longrightarrow>
    equal_email a b flags \<longleftrightarrow> same_nocase (drop i a) (drop i b) \<and> (if i = 0 then a = b else take i a = take i b)"
  by (simp add: equal_email_def email_at_last equal_case_iff equal_nocase_iff Let_def)

lemma equal_email_iff: "equal_email a b flags \<longleftrightarrow> email_matches a b"
proof (cases "length a = length b")
  case False
  then have "\<not> email_matches a b" by (auto simp: email_matches_def dest!: same_nocase_length)
  then show ?thesis using False by (simp add: equal_email_def)
next
  case len: True
  let ?P = "\<lambda>i. a ! i = 64 \<or> b ! i = 64"
  show ?thesis
  proof (cases "find ?P (rev [0..<length a])")
    case None
    then have no: "64 \<notin> set a" using len by (auto simp: find_None_iff in_set_conv_nth)
    then have "64 \<notin> set (tl a)" "\<not> (a \<noteq> [] \<and> hd a = 64)" by (cases a; simp)+
    moreover have "\<not> (\<exists>l d d'. a = l @ 64 # d \<and> b = l @ 64 # d' \<and> l \<noteq> [] \<and> 64 \<notin> set d \<and> same_nocase d d')"
      using no by auto
    ultimately have "email_matches a b \<longleftrightarrow> a = b" unfolding email_matches_def by blast
    then show ?thesis using equal_email_no_at [OF len None] by simp
  next
    case (Some i)
    from find_rev_upt [OF this] have i: "i < length a" "?P i" "\<And>j. i < j \<Longrightarrow> j < length a \<Longrightarrow> a ! j \<noteq> 64 \<and> b ! j \<noteq> 64" by auto
    show ?thesis
    proof
      assume "equal_email a b flags"
      then have n: "same_nocase (drop i a) (drop i b)" and t: "if i = 0 then a = b else take i a = take i b"
        using equal_email_at [OF len Some i(1)] by blast+
      from same_nocase_drop [OF n i(2,1) len] have at: "a ! i = 64" "b ! i = 64"
        and s: "same_nocase (drop (Suc i) a) (drop (Suc i) b)" by auto
      have ea: "a = take i a @ 64 # drop (Suc i) a" "64 \<notin> set (drop (Suc i) a)"
        by (rule split_at_last; use at i len in auto)+
      have eb: "b = take i b @ 64 # drop (Suc i) b" by (rule split_at_last(1)) (use at i len in auto)
      show "email_matches a b"
      proof (cases "i = 0")
        case True
        then have "a = b" "64 \<notin> set (tl a)" "0 \<notin> set a" using t ea(2) n by (simp_all add: drop_Suc same_nocase_def)
        then show ?thesis by (simp add: email_matches_def)
      next
        case False
        have "a = take i a @ 64 # drop (Suc i) a \<and> b = take i a @ 64 # drop (Suc i) b \<and> take i a \<noteq> [] \<and>
          64 \<notin> set (drop (Suc i) a) \<and> same_nocase (drop (Suc i) a) (drop (Suc i) b)"
          using False t ea eb s i(1) by auto
        then show ?thesis unfolding email_matches_def by (intro disjI1 exI)
      qed
    next
      assume "email_matches a b"
      then consider l d d' where "a = l @ 64 # d" "b = l @ 64 # d'" "l \<noteq> []" "64 \<notin> set d" "same_nocase d d'"
        | "a = b" "64 \<notin> set (tl a)" "a \<noteq> [] \<and> hd a = 64 \<longrightarrow> 0 \<notin> set a"
        unfolding email_matches_def by (elim disjE exE conjE)
      then have "same_nocase (drop i a) (drop i b) \<and> (if i = 0 then a = b else take i a = take i b)"
      proof cases
        case 1
        note A = last_at [OF 1(1,4)]
        have d': "64 \<notin> set d'" using same_nocase_at [OF 1(5)] 1(4) by simp
        note B = last_at [OF 1(2) d']
        have "i \<le> length l" using i(1,2) len A(2) B(2) by auto
        moreover have "length l \<le> i" using i(3) [of "length l"] A(1,5) by (meson not_le)
        ultimately have e: "i = length l" by simp
        have "same_nocase (64 # d) (64 # d')" using 1(5) by (simp add: same_nocase_def)
        then show ?thesis unfolding e A(3,4) B(3,4) using 1(3) by simp
      next
        case 2
        have "i = 0"
        proof (rule ccontr)
          assume "i \<noteq> 0"
          then have "a ! i \<in> set (tl a)" using i(1) by (cases a; cases i) simp_all
          then show False using 2(1,2) i(2) by auto
        qed
        moreover have "hd a = 64" using i(1,2) 2(1) \<open>i = 0\<close> by (cases a) auto
        ultimately show ?thesis using 2 i(1) by (cases a) (simp_all add: same_nocase_def)
      qed
      then show "equal_email a b flags" using equal_email_at [OF len Some i(1)] by blast
    qed
  qed
qed

text \<open>The alternative names decide for mail addresses and IP addresses too; an IP address is only there.\<close>

lemma X509_check_email_names:
  assumes "0 \<notin> set email" and "alt_names x = Some gens"
  shows "X509_check_email x (Some email) flags hs =
    (if \<exists>g \<in> set gens. gtype g = GEN_EMAIL \<and> atype (gstr g) = V_ASN1_IA5STRING \<and> str_bytes (gstr g) \<noteq> [] \<and>
          email_matches (str_bytes (gstr g)) email then 1 else 0)"
proof -
  let ?P = "\<lambda>s. atype s = V_ASN1_IA5STRING \<and> str_bytes s \<noteq> [] \<and> email_matches (str_bytes s) email"
  have "fst (do_check_string s V_ASN1_IA5STRING equal_email f GEN_EMAIL email pn h) = (if ?P s then 1 else 0)" for s f pn h
    unfolding do_check_string_ia5 equal_email_iff ..
  then show ?thesis
    using assms by (simp add: X509_check_email_def do_x509_check_def Let_def check_gens_zero_one [where P = ?P])
qed

lemma do_check_string_octets:
  assumes "length b < 2 ^ 31" and "alen s < 2 ^ 31"
  shows "fst (do_check_string s V_ASN1_OCTET_STRING equal flags ct b peername h) =
     (if atype s = V_ASN1_OCTET_STRING \<and> str_bytes s \<noteq> [] \<and> str_bytes s = b then 1 else 0)"
proof -
  have "sint (word_of_nat (length b) :: u32) = int (length b)"
    using assms(1) by (simp add: signed_of_nat signed_take_bit_int_eq_self)
  then show ?thesis
    using memcmp_eq_0 [of "str_bytes s" b]
    by (auto simp: do_check_string_def Let_def str_bytes_def alen_def gen_consts V_ASN1_IA5STRING_def split: option.splits)
qed

lemma X509_check_ip_names:
  assumes "length ip < 2 ^ 31" and "\<forall>g \<in> set (case alt_names x of Some gens \<Rightarrow> gens | None \<Rightarrow> []). alen (gstr g) < 2 ^ 31"
  shows "X509_check_ip x (Some ip) flags hs =
    (if \<exists>g \<in> set (case alt_names x of Some gens \<Rightarrow> gens | None \<Rightarrow> []).
          gtype g = GEN_IPADD \<and> atype (gstr g) = V_ASN1_OCTET_STRING \<and> str_bytes (gstr g) \<noteq> [] \<and> str_bytes (gstr g) = ip
     then 1 else 0)"
proof (cases "alt_names x")
  case None
  then show ?thesis by (simp add: X509_check_ip_def do_x509_check_def gen_consts)
next
  case (Some gens)
  have g: "GEN_IPADD \<noteq> GEN_EMAIL" "GEN_IPADD \<noteq> GEN_DNS" by (simp_all add: gen_consts)
  let ?P = "\<lambda>s. atype s = V_ASN1_OCTET_STRING \<and> str_bytes s \<noteq> [] \<and> str_bytes s = ip"
  have "fst (check_gens (\<lambda>cstr j. do_check_string cstr V_ASN1_OCTET_STRING equal_case f GEN_IPADD ip False (hs j)) GEN_IPADD gs j) =
    (if \<exists>g \<in> set gs. gtype g = GEN_IPADD \<and> ?P (gstr g) then 1 else 0)" if "set gs \<subseteq> set gens" for gs f j
    using that
  proof (induction gs arbitrary: j)
    case (Cons g gs)
    then have "alen (gstr g) < 2 ^ 31" using assms(2) Some by simp
    from do_check_string_octets [OF assms(1) this, of equal_case f GEN_IPADD False "hs j"] Cons
    show ?case
      by (cases "do_check_string (gstr g) V_ASN1_OCTET_STRING equal_case f GEN_IPADD ip False (hs j)") auto
  qed simp
  then show ?thesis using Some g by (simp add: X509_check_ip_def do_x509_check_def Let_def)
qed

text \<open>C40: The comparison of mail addresses: the parts before the last at sign have to be the same bytes, the
  domains the same without regard to case; addresses without an at sign after the first byte have
  to be identical.
\<close>

theorem equal_email_correct: "equal_email a b flags \<longleftrightarrow> email_matches a b"
  by (rule equal_email_iff)

end
