(* ===== verification/Name_Constraints.thy ===== *)
theory Name_Constraints
  imports Name_Match
begin

text \<open>
  Name constraints: \<open>NAME_CONSTRAINTS_check\<close> of \<open>crypto/x509v3/v3_ncons.c\<close>, which tells whether the names of
  a certificate lie in the subtrees its issuers permit and outside those they exclude.

  The constraints are two lists of subtrees; a stack that is a null pointer is the empty list, as it
  is for \<open>sk_num\<close>.  A distance is the bytes of its INTEGER.  The names are those of \<open>Name_Match\<close>, the
  strings compared as byte strings with the operations of \<open>CBS\<close>.
\<close>

section \<open>Constraints and results\<close>

record general_subtree =
  sbase :: general_name
  minimum :: "byte list option"
  maximum :: "byte list option"

record name_constraints =
  permittedSubtrees :: "general_subtree list"
  excludedSubtrees :: "general_subtree list"

definition X509_V_OK :: int where "X509_V_OK = 0"
definition X509_V_ERR_UNSPECIFIED :: int where "X509_V_ERR_UNSPECIFIED = 1"
definition X509_V_ERR_OUT_OF_MEM :: int where "X509_V_ERR_OUT_OF_MEM = 17"
definition X509_V_ERR_PERMITTED_VIOLATION :: int where "X509_V_ERR_PERMITTED_VIOLATION = 47"
definition X509_V_ERR_EXCLUDED_VIOLATION :: int where "X509_V_ERR_EXCLUDED_VIOLATION = 48"
definition X509_V_ERR_SUBTREE_MINMAX :: int where "X509_V_ERR_SUBTREE_MINMAX = 49"
definition X509_V_ERR_UNSUPPORTED_CONSTRAINT_TYPE :: int where "X509_V_ERR_UNSUPPORTED_CONSTRAINT_TYPE = 51"
definition X509_V_ERR_UNSUPPORTED_NAME_SYNTAX :: int where "X509_V_ERR_UNSUPPORTED_NAME_SYNTAX = 53"

lemmas verify_consts = X509_V_OK_def X509_V_ERR_UNSPECIFIED_def X509_V_ERR_OUT_OF_MEM_def
  X509_V_ERR_PERMITTED_VIOLATION_def X509_V_ERR_EXCLUDED_VIOLATION_def X509_V_ERR_SUBTREE_MINMAX_def
  X509_V_ERR_UNSUPPORTED_CONSTRAINT_TYPE_def X509_V_ERR_UNSUPPORTED_NAME_SYNTAX_def

section \<open>One name against one subtree\<close>

text \<open>The two names carry their canonical encodings, \<open>None\<close> where building one fails.\<close>

definition nc_dn :: "x509_name \<Rightarrow> x509_name \<Rightarrow> int" where
  "nc_dn nm bse =
     (case canon_enc nm of
        None \<Rightarrow> X509_V_ERR_OUT_OF_MEM
      | Some nm_enc \<Rightarrow>
          (case canon_enc bse of
             None \<Rightarrow> X509_V_ERR_OUT_OF_MEM
           | Some base_enc \<Rightarrow>
               if length base_enc > length nm_enc then X509_V_ERR_PERMITTED_VIOLATION
               else if memcmp base_enc (take (length base_enc) nm_enc) \<noteq> 0 then X509_V_ERR_PERMITTED_VIOLATION
               else X509_V_OK))"

definition starts_with :: "cbs \<Rightarrow> byte \<Rightarrow> bool" where
  "starts_with cbs c \<longleftrightarrow> CBS_len cbs > 0 \<and> CBS_data cbs ! 0 = c"

fun equal_case_loop :: "byte list \<Rightarrow> byte list \<Rightarrow> bool" where
  "equal_case_loop (a # as) (b # bs) =
     (if OPENSSL_tolower (uint a) \<noteq> OPENSSL_tolower (uint b) then False else equal_case_loop as bs)"
| "equal_case_loop _ _ = True"

definition cbs_equal_case :: "cbs \<Rightarrow> cbs \<Rightarrow> bool" where
  "cbs_equal_case a b = (if CBS_len a \<noteq> CBS_len b then False else equal_case_loop (CBS_data a) (CBS_data b))"

definition has_suffix_case :: "cbs \<Rightarrow> cbs \<Rightarrow> bool" where
  "has_suffix_case a b =
     (if CBS_len a < CBS_len b then False
      else let copy = snd (CBS_skip (CBS_len a - CBS_len b) a) in cbs_equal_case copy b)"

definition string_cbs :: "asn1_string \<Rightarrow> cbs" where
  "string_cbs s = CBS_init (case adata s of None \<Rightarrow> [] | Some bs \<Rightarrow> bs)"

definition nc_dns :: "asn1_string \<Rightarrow> asn1_string \<Rightarrow> int" where
  "nc_dns dns bse =
     (let dns_cbs = string_cbs dns; base_cbs = string_cbs bse
      in if CBS_len base_cbs = 0 then X509_V_OK
         else if starts_with base_cbs 46
         then if has_suffix_case dns_cbs base_cbs then X509_V_OK else X509_V_ERR_PERMITTED_VIOLATION
         else
           let (bad, dns_cbs) =
             (if CBS_len dns_cbs > CBS_len base_cbs
              then case CBS_skip (CBS_len dns_cbs - CBS_len base_cbs - 1) dns_cbs of
                     (None, dns_cbs) \<Rightarrow> (True, dns_cbs)
                   | (Some _, dns_cbs) \<Rightarrow>
                       (case CBS_get_u8 dns_cbs of
                          (None, dns_cbs) \<Rightarrow> (True, dns_cbs)
                        | (Some dot, dns_cbs) \<Rightarrow> (dot \<noteq> 46, dns_cbs))
              else (False, dns_cbs))
           in if bad then X509_V_ERR_PERMITTED_VIOLATION
              else if \<not> cbs_equal_case dns_cbs base_cbs then X509_V_ERR_PERMITTED_VIOLATION
              else X509_V_OK)"

definition nc_email :: "asn1_string \<Rightarrow> asn1_string \<Rightarrow> int" where
  "nc_email eml bse =
     (let eml_cbs = string_cbs eml; base_cbs = string_cbs bse
      in case CBS_get_until_first 64 eml_cbs of
           (None, eml_cbs) \<Rightarrow> X509_V_ERR_UNSUPPORTED_NAME_SYNTAX
         | (Some eml_local, eml_cbs) \<Rightarrow>
             let (base_local, base_cbs) = CBS_get_until_first 64 base_cbs
             in if base_local = None \<and> starts_with base_cbs 46
                then if has_suffix_case eml_cbs base_cbs then X509_V_OK else X509_V_ERR_PERMITTED_VIOLATION
                else if base_local \<noteq> None \<and> CBS_len (the base_local) > 0 \<and>
                        \<not> CBS_mem_equal (the base_local) (CBS_data eml_local)
                then X509_V_ERR_PERMITTED_VIOLATION
                else let base_cbs = (if base_local \<noteq> None then snd (CBS_skip 1 base_cbs) else base_cbs);
                         eml_cbs = snd (CBS_skip 1 eml_cbs)
                     in if \<not> cbs_equal_case base_cbs eml_cbs then X509_V_ERR_PERMITTED_VIOLATION else X509_V_OK)"

text \<open>The part of \<open>nc_uri\<close> up to the host; \<open>None\<close> for a syntax it does not support.\<close>

definition uri_host :: "cbs \<Rightarrow> cbs option" where
  "uri_host uri_cbs =
     (case CBS_get_until_first 58 uri_cbs of
        (None, _) \<Rightarrow> None
      | (Some scheme, uri_cbs) \<Rightarrow>
          (case CBS_skip 1 uri_cbs of
             (None, _) \<Rightarrow> None
           | (Some _, uri_cbs) \<Rightarrow>
               (case CBS_get_u8 uri_cbs of
                  (None, _) \<Rightarrow> None
                | (Some b1, uri_cbs) \<Rightarrow>
                    if b1 \<noteq> 47 then None
                    else case CBS_get_u8 uri_cbs of
                           (None, _) \<Rightarrow> None
                         | (Some b2, uri_cbs) \<Rightarrow>
                             if b2 \<noteq> 47 then None
                             else let host = (case CBS_get_until_first 58 uri_cbs of
                                                (Some host, _) \<Rightarrow> host
                                              | (None, uri_cbs) \<Rightarrow>
                                                  (case CBS_get_until_first 47 uri_cbs of
                                                     (Some host, _) \<Rightarrow> host
                                                   | (None, uri_cbs) \<Rightarrow> uri_cbs))
                                  in if CBS_len host = 0 then None else Some host)))"

definition nc_uri :: "asn1_string \<Rightarrow> asn1_string \<Rightarrow> int" where
  "nc_uri uri bse =
     (let uri_cbs = string_cbs uri; base_cbs = string_cbs bse
      in case uri_host uri_cbs of
           None \<Rightarrow> X509_V_ERR_UNSUPPORTED_NAME_SYNTAX
         | Some host \<Rightarrow>
             if starts_with base_cbs 46
             then if has_suffix_case host base_cbs then X509_V_OK else X509_V_ERR_PERMITTED_VIOLATION
             else if \<not> cbs_equal_case base_cbs host then X509_V_ERR_PERMITTED_VIOLATION
             else X509_V_OK)"

definition nc_match_single :: "general_name \<Rightarrow> general_name \<Rightarrow> int" where
  "nc_match_single gen bse =
     (if gtype bse = GEN_DIRNAME then nc_dn (gdir gen) (gdir bse)
      else if gtype bse = GEN_DNS then nc_dns (gstr gen) (gstr bse)
      else if gtype bse = GEN_EMAIL then nc_email (gstr gen) (gstr bse)
      else if gtype bse = GEN_URI then nc_uri (gstr gen) (gstr bse)
      else X509_V_ERR_UNSUPPORTED_CONSTRAINT_TYPE)"

section \<open>All names against all subtrees\<close>

text \<open>The two loops of \<open>nc_match\<close>: the first gives the value of \<open>match\<close> or the error it returns.\<close>

fun permitted_loop :: "general_name \<Rightarrow> general_subtree list \<Rightarrow> nat \<Rightarrow> int + nat" where
  "permitted_loop gen [] match = Inr match"
| "permitted_loop gen (sub # subs) match =
     (if gtype gen \<noteq> gtype (sbase sub) then permitted_loop gen subs match
      else if minimum sub \<noteq> None \<or> maximum sub \<noteq> None then Inl X509_V_ERR_SUBTREE_MINMAX
      else if match = 2 then permitted_loop gen subs match
      else let match = (if match = 0 then 1 else match);
               r = nc_match_single gen (sbase sub)
           in if r = X509_V_OK then permitted_loop gen subs 2
              else if r \<noteq> X509_V_ERR_PERMITTED_VIOLATION then Inl r
              else permitted_loop gen subs match)"

fun excluded_loop :: "general_name \<Rightarrow> general_subtree list \<Rightarrow> int" where
  "excluded_loop gen [] = X509_V_OK"
| "excluded_loop gen (sub # subs) =
     (if gtype gen \<noteq> gtype (sbase sub) then excluded_loop gen subs
      else if minimum sub \<noteq> None \<or> maximum sub \<noteq> None then X509_V_ERR_SUBTREE_MINMAX
      else let r = nc_match_single gen (sbase sub)
           in if r = X509_V_OK then X509_V_ERR_EXCLUDED_VIOLATION
              else if r \<noteq> X509_V_ERR_PERMITTED_VIOLATION then r
              else excluded_loop gen subs)"

definition nc_match :: "general_name \<Rightarrow> name_constraints \<Rightarrow> int" where
  "nc_match gen nc =
     (case permitted_loop gen (permittedSubtrees nc) 0 of
        Inl r \<Rightarrow> r
      | Inr match \<Rightarrow>
          if match = 1 then X509_V_ERR_PERMITTED_VIOLATION
          else excluded_loop gen (excludedSubtrees nc))"

text \<open>The loop over the mail addresses of the subject from the position \<open>i\<close>.\<close>

function email_loop :: "x509_name \<Rightarrow> name_constraints \<Rightarrow> int \<Rightarrow> int" where
  "email_loop nm nc i =
     (let i = X509_NAME_get_index_by_NID nm NID_pkcs9_emailAddress i
      in if i = - 1 then X509_V_OK
         else let rfc822Name = snd (entries nm ! nat i)
              in if atype rfc822Name \<noteq> V_ASN1_IA5STRING then X509_V_ERR_UNSUPPORTED_NAME_SYNTAX
                 else let r = nc_match \<lparr>gtype = GEN_EMAIL, gstr = rfc822Name, gdir = nm\<rparr> nc
                      in if r \<noteq> X509_V_OK then r else email_loop nm nc i)"
  by pat_completeness auto
termination
proof (relation "measure (\<lambda>(nm, nc, i). length (entries nm) - nat (i + 1))", goal_cases)
  case (2 nm nc i i' s r)
  then obtain k where k: "find (\<lambda>k. fst (entries nm ! k) = NID_pkcs9_emailAddress)
      [nat ((if i < 0 then - 1 else i) + 1)..<length (entries nm)] = Some k" "i' = int k"
    by (auto simp: X509_NAME_get_index_by_NID_def Let_def split: option.splits)
  then have "nat (i + 1) \<le> k" "k < length (entries nm)"
    by (auto simp: find_Some_iff split: if_splits)
  with k(2) show ?case by simp
qed simp

declare email_loop.simps [simp del]

fun altname_loop :: "name_constraints \<Rightarrow> general_name list \<Rightarrow> int" where
  "altname_loop nc [] = X509_V_OK"
| "altname_loop nc (gen # gens) =
     (let r = nc_match gen nc in if r \<noteq> X509_V_OK then r else altname_loop nc gens)"

definition NAME_CONSTRAINTS_check :: "x509 \<Rightarrow> name_constraints \<Rightarrow> int" where
  "NAME_CONSTRAINTS_check x nc =
     (let nm = subject_name x;
          altname = (case alt_names x of None \<Rightarrow> [] | Some gens \<Rightarrow> gens);
          name_count = (length (entries nm) + length altname) mod 2 ^ 64;
          constraint_count = (length (permittedSubtrees nc) + length (excludedSubtrees nc)) mod 2 ^ 64;
          check_count = (constraint_count * name_count) mod 2 ^ 64
      in if name_count < length (entries nm) \<or> constraint_count < length (permittedSubtrees nc) \<or>
            (constraint_count \<noteq> 0 \<and> check_count div constraint_count \<noteq> name_count) \<or> check_count > 2 ^ 20
         then X509_V_ERR_UNSPECIFIED
         else
           let r = (if length (entries nm) > 0
                    then let r = nc_match \<lparr>gtype = GEN_DIRNAME, gstr = \<lparr>atype = 0, adata = None\<rparr>, gdir = nm\<rparr> nc
                         in if r \<noteq> X509_V_OK then r else email_loop nm nc (- 1)
                    else X509_V_OK)
           in if r \<noteq> X509_V_OK then r else altname_loop nc altname)"

section \<open>What lies in a subtree\<close>

definition same_lower :: "byte list \<Rightarrow> byte list \<Rightarrow> bool" where
  "same_lower a b \<longleftrightarrow> map ascii_lower a = map ascii_lower b"

definition ends_lower :: "byte list \<Rightarrow> byte list \<Rightarrow> bool" where
  "ends_lower a b \<longleftrightarrow> (\<exists>pre suf. a = pre @ suf \<and> same_lower suf b)"

text \<open>A DNS name is the base or below it; the empty base holds every name, \<open>.domain\<close> only what is below.\<close>

definition dns_within :: "byte list \<Rightarrow> byte list \<Rightarrow> bool" where
  "dns_within d b \<longleftrightarrow> b = [] \<or> same_lower d b \<or> ends_lower d (if hd b = 46 then b else 46 # b)"

text \<open>
  A mail address by the domain after its first at sign: below \<open>.domain\<close>, at the host, or the one
  mailbox, whose local part may be missing.
\<close>

definition email_within :: "byte list \<Rightarrow> byte list \<Rightarrow> bool" where
  "email_within e b \<longleftrightarrow>
     (let l = takeWhile (\<lambda>c. c \<noteq> 64) e; d = tl (dropWhile (\<lambda>c. c \<noteq> 64) e)
      in if 64 \<in> set b
         then (let l' = takeWhile (\<lambda>c. c \<noteq> 64) b; d' = tl (dropWhile (\<lambda>c. c \<noteq> 64) b)
               in (l' = [] \<or> l' = l) \<and> same_lower d d')
         else if b \<noteq> [] \<and> hd b = 46 then ends_lower d b else same_lower d b)"

text \<open>The host of a URI, and the hosts a base holds.\<close>

definition uri_authority :: "byte list \<Rightarrow> byte list option" where
  "uri_authority u =
     (let s = dropWhile (\<lambda>c. c \<noteq> 58) u; r = drop 3 s;
          h = (if 58 \<in> set r then takeWhile (\<lambda>c. c \<noteq> 58) r else takeWhile (\<lambda>c. c \<noteq> 47) r)
      in if take 3 s = [58, 47, 47] \<and> h \<noteq> [] then Some h else None)"

definition host_within :: "byte list \<Rightarrow> byte list \<Rightarrow> bool" where
  "host_within h b \<longleftrightarrow> (if b \<noteq> [] \<and> hd b = 46 then ends_lower h b else same_lower h b)"

text \<open>Whether a name lies in a subtree of its kind; \<open>None\<close> when the names cannot be compared.\<close>

definition within :: "general_name \<Rightarrow> general_name \<Rightarrow> bool option" where
  "within g b =
     (if gtype b = GEN_DIRNAME
      then (case (canon_enc (gdir g), canon_enc (gdir b)) of
              (Some n, Some m) \<Rightarrow> Some (take (length m) n = m)
            | _ \<Rightarrow> None)
      else if gtype b = GEN_DNS then Some (dns_within (str_bytes (gstr g)) (str_bytes (gstr b)))
      else if gtype b = GEN_EMAIL
      then if 64 \<in> set (str_bytes (gstr g)) then Some (email_within (str_bytes (gstr g)) (str_bytes (gstr b))) else None
      else if gtype b = GEN_URI
      then map_option (\<lambda>h. host_within h (str_bytes (gstr b))) (uri_authority (str_bytes (gstr g)))
      else None)"

section \<open>The comparisons of one name\<close>

lemma ascii_lower_dot: "ascii_lower c = 46 \<longleftrightarrow> c = 46" "ascii_lower 46 = 46"
proof -
  have "list_all (\<lambda>i. ascii_lower (word_of_int i) = 46 \<longleftrightarrow> word_of_int i = (46 :: byte)) [0..255]" by code_simp
  then show "ascii_lower c = 46 \<longleftrightarrow> c = 46" by (rule all_bytesI)
qed code_simp

lemma tolower_uint: "OPENSSL_tolower (uint (c :: byte)) = uint (ascii_lower c)"
proof -
  have "list_all (\<lambda>i. OPENSSL_tolower (uint (word_of_int i :: byte)) = uint (ascii_lower (word_of_int i))) [0..255]" by code_simp
  then show ?thesis by (rule all_bytesI)
qed

lemma cbs_equal_case_iff [simp]: "cbs_equal_case a b \<longleftrightarrow> same_lower a b"
proof -
  have "equal_case_loop a b \<longleftrightarrow> same_lower a b" if "length a = length b"
    using that by (induction a b rule: equal_case_loop.induct) (auto simp: same_lower_def tolower_uint word_uint_eq_iff [symmetric])
  then show ?thesis
    by (auto simp: cbs_equal_case_def CBS_len_def CBS_data_def same_lower_def dest: map_eq_imp_length_eq)
qed

lemma same_lower_length: "same_lower a b \<Longrightarrow> length a = length b"
  unfolding same_lower_def by (rule map_eq_imp_length_eq)

lemma same_lower_sym: "same_lower a b \<longleftrightarrow> same_lower b a"
  by (auto simp: same_lower_def)

lemma skip_le [simp]: "n \<le> length cbs \<Longrightarrow> CBS_skip n cbs = (Some (), drop n cbs)"
  by (simp add: CBS_skip_def cbs_get_def)

lemma skip_one: "cbs \<noteq> [] \<Longrightarrow> CBS_skip 1 cbs = (Some (), tl cbs)"
  by (cases cbs) (simp_all add: CBS_skip_def cbs_get_def)

lemma get_u8_Cons [simp]: "CBS_get_u8 (b # cbs) = (Some b, cbs)" "CBS_get_u8 [] = (None, [])"
  by (simp_all add: CBS_get_u8_def cbs_get_def)

lemma ends_lower_drop: "ends_lower a b \<longleftrightarrow> length b \<le> length a \<and> same_lower (drop (length a - length b) a) b"
proof
  assume "ends_lower a b"
  then obtain pre suf where "a = pre @ suf" "same_lower suf b" by (auto simp: ends_lower_def)
  then show "length b \<le> length a \<and> same_lower (drop (length a - length b) a) b"
    using same_lower_length [of suf b] by simp
next
  assume "length b \<le> length a \<and> same_lower (drop (length a - length b) a) b"
  then show "ends_lower a b" unfolding ends_lower_def by (metis append_take_drop_id)
qed

lemma has_suffix_case_iff [simp]: "has_suffix_case a b \<longleftrightarrow> ends_lower a b"
  by (auto simp: has_suffix_case_def CBS_len_def ends_lower_drop)

lemma starts_with_iff [simp]: "starts_with cbs c \<longleftrightarrow> cbs \<noteq> [] \<and> hd cbs = c"
  by (cases cbs) (auto simp: starts_with_def CBS_len_def CBS_data_def)

lemma string_cbs_eq [simp]: "string_cbs s = str_bytes s"
  by (simp add: string_cbs_def str_bytes_def CBS_init_def)

lemma memchr_takeWhile: "memchr xs c = (if c \<in> set xs then Some (length (takeWhile (\<lambda>x. x \<noteq> c) xs)) else None)"
  by (induction xs) auto

lemma get_until_first:
  "CBS_get_until_first c cbs =
    (if c \<in> set cbs then (Some (takeWhile (\<lambda>x. x \<noteq> c) cbs), dropWhile (\<lambda>x. x \<noteq> c) cbs) else (None, cbs))"
  using length_takeWhile_le [of "\<lambda>x. x \<noteq> c" cbs]
  by (simp add: CBS_get_until_first_def memchr_takeWhile CBS_data_def CBS_get_bytes_def CBS_init_def cbs_get_def
      takeWhile_eq_take [symmetric] dropWhile_eq_drop [symmetric])

definition verdict :: "bool \<Rightarrow> int" where
  "verdict b = (if b then X509_V_OK else X509_V_ERR_PERMITTED_VIOLATION)"

lemma nc_dns_eq: "nc_dns d b = verdict (dns_within (str_bytes d) (str_bytes b))"
proof -
  let ?d = "str_bytes d" and ?b = "str_bytes b"
  consider "?b = []" | "?b \<noteq> []" "hd ?b = 46" | "?b \<noteq> []" "hd ?b \<noteq> 46" "length ?b < length ?d"
    | "?b \<noteq> []" "hd ?b \<noteq> 46" "length ?d \<le> length ?b" by fastforce
  then show ?thesis
  proof cases
    case 1
    then show ?thesis by (simp add: nc_dns_def verdict_def dns_within_def CBS_len_def)
  next
    case 2
    have "same_lower ?d ?b \<Longrightarrow> ends_lower ?d ?b" by (auto simp: ends_lower_def)
    with 2 show ?thesis by (auto simp: nc_dns_def verdict_def dns_within_def CBS_len_def)
  next
    case 3
    let ?k = "length ?d - length ?b - 1"
    have e: "drop ?k ?d = ?d ! ?k # drop (length ?d - length ?b) ?d"
      using 3 Cons_nth_drop_Suc [of ?k ?d] by (simp add: Suc_diff_Suc)
    have "ends_lower ?d (46 # ?b) \<longleftrightarrow> ?d ! ?k = 46 \<and> same_lower (drop (length ?d - length ?b) ?d) ?b"
      using 3 e by (auto simp: ends_lower_drop same_lower_def ascii_lower_dot)
    moreover have "\<not> same_lower ?d ?b" using 3(3) same_lower_length by fastforce
    ultimately show ?thesis
      using 3 e by (simp add: nc_dns_def verdict_def dns_within_def CBS_len_def Let_def)
  next
    case 4
    have "\<not> ends_lower ?d (46 # ?b)" using 4(3) by (simp add: ends_lower_drop)
    with 4 show ?thesis by (simp add: nc_dns_def verdict_def dns_within_def CBS_len_def)
  qed
qed

lemma nc_email_eq:
  "nc_email e b = (if 64 \<in> set (str_bytes e) then verdict (email_within (str_bytes e) (str_bytes b))
     else X509_V_ERR_UNSUPPORTED_NAME_SYNTAX)"
proof (cases "64 \<in> set (str_bytes e)")
  case True
  let ?d = "dropWhile (\<lambda>c. c \<noteq> 64) (str_bytes e)" and ?b = "str_bytes b"
  have d: "?d = 64 # tl ?d" using True by (metis (mono_tags, lifting) dropWhile_eq_Nil_conv hd_dropWhile list.collapse)
  have sk: "snd (CBS_skip 1 ?d) = tl ?d"
    using d skip_one [of ?d] by (metis list.distinct(1) snd_conv)
  have skb: "snd (CBS_skip 1 (dropWhile (\<lambda>c. c \<noteq> 64) ?b)) = tl (dropWhile (\<lambda>c. c \<noteq> 64) ?b)" if "64 \<in> set ?b"
    using that skip_one [of "dropWhile (\<lambda>c. c \<noteq> 64) ?b"] by fastforce
  have dot: "ends_lower ?d ?b \<longleftrightarrow> ends_lower (tl ?d) ?b" if "?b \<noteq> []" "hd ?b = 46"
  proof -
    have ne: "ascii_lower 64 \<noteq> ascii_lower 46" by code_simp
    have "\<not> same_lower ?d ?b"
      using that ne by (subst d) (cases ?b; auto simp: same_lower_def)
    then show ?thesis by (subst (asm) d, subst d) (auto simp: ends_lower_def Cons_eq_append_conv)
  qed
  show ?thesis
  proof (cases "64 \<in> set ?b")
    case at: True
    let ?l = "takeWhile (\<lambda>c. c \<noteq> 64) (str_bytes e)" and ?l' = "takeWhile (\<lambda>c. c \<noteq> 64) ?b" and ?d' = "tl (dropWhile (\<lambda>c. c \<noteq> 64) ?b)"
    have m: "CBS_mem_equal ?l' ?l \<longleftrightarrow> ?l' = ?l"
      by (auto simp: CBS_mem_equal_def CBS_len_def CBS_data_def CRYPTO_memcmp_eq_0)
    have "nc_email e b = (if ?l' \<noteq> [] \<and> \<not> CBS_mem_equal ?l' ?l then X509_V_ERR_PERMITTED_VIOLATION
      else if \<not> same_lower ?d' (tl ?d) then X509_V_ERR_PERMITTED_VIOLATION else X509_V_OK)"
      unfolding nc_email_def string_cbs_eq get_until_first Let_def if_P [OF True] if_P [OF at] prod.case option.case sk skb [OF at]
        cbs_equal_case_iff CBS_len_def CBS_data_def by simp
    also have "\<dots> = verdict ((?l' = [] \<or> ?l' = ?l) \<and> same_lower (tl ?d) ?d')"
      unfolding m verdict_def same_lower_sym [of ?d'] by simp
    also have "\<dots> = verdict (email_within (str_bytes e) ?b)"
      unfolding email_within_def Let_def if_P [OF at] ..
    finally show ?thesis using True by simp
  next
    case False
    have "nc_email e b = (if ?b \<noteq> [] \<and> hd ?b = 46 then verdict (ends_lower ?d ?b) else verdict (same_lower ?b (tl ?d)))"
      unfolding nc_email_def string_cbs_eq get_until_first Let_def if_P [OF True] if_not_P [OF False] prod.case option.case sk
        cbs_equal_case_iff verdict_def by simp
    also have "\<dots> = verdict (email_within (str_bytes e) ?b)"
      unfolding email_within_def Let_def if_not_P [OF False] same_lower_sym [of ?b] using dot by simp
    finally show ?thesis using True by simp
  qed
qed (simp add: nc_email_def get_until_first Let_def)

lemma uri_host_eq: "uri_host u = uri_authority u"
proof (cases "58 \<in> set u")
  case True
  then obtain r where r: "dropWhile (\<lambda>c. c \<noteq> 58) u = 58 # r"
    by (metis (mono_tags, lifting) dropWhile_eq_Nil_conv hd_dropWhile list.collapse)
  have s: "CBS_skip 1 (58 # r) = (Some (), r)" using skip_le [of 1 "58 # r"] by simp
  have h: "takeWhile (\<lambda>c. c \<noteq> 47) x = x" if "47 \<notin> set x" for x :: "byte list"
    using that by (auto simp: takeWhile_eq_all_conv)
  show ?thesis
  proof (cases r)
    case (Cons b1 r1)
    then show ?thesis
      using True r s by (cases r1) (auto simp: h uri_host_def uri_authority_def get_until_first Let_def CBS_len_def numeral_3_eq_3)
  qed (use True r s in \<open>simp add: uri_host_def uri_authority_def get_until_first Let_def\<close>)
next
  case False
  then have e: "dropWhile (\<lambda>c. c \<noteq> 58) u = []" by auto
  show ?thesis unfolding uri_authority_def Let_def e using False by (simp add: uri_host_def get_until_first)
qed

lemma nc_uri_eq:
  "nc_uri u b = (case uri_authority (str_bytes u) of
     None \<Rightarrow> X509_V_ERR_UNSUPPORTED_NAME_SYNTAX | Some h \<Rightarrow> verdict (host_within h (str_bytes b)))"
  using same_lower_sym by (auto simp: nc_uri_def uri_host_eq verdict_def host_within_def split: option.splits)

text \<open>The result of one comparison is decided by \<open>within\<close>.\<close>

lemma nc_match_single_eq:
  "nc_match_single g b = X509_V_OK \<longleftrightarrow> within g b = Some True"
  "nc_match_single g b = X509_V_ERR_PERMITTED_VIOLATION \<longleftrightarrow> within g b = Some False"
proof -
  have "(nc_match_single g b = X509_V_OK \<longleftrightarrow> within g b = Some True) \<and>
    (nc_match_single g b = X509_V_ERR_PERMITTED_VIOLATION \<longleftrightarrow> within g b = Some False)"
    unfolding nc_match_single_def within_def nc_dns_eq nc_email_eq nc_uri_eq
    by (auto simp: verdict_def verify_consts nc_dn_def memcmp_eq_0 split: option.splits)
  then show "nc_match_single g b = X509_V_OK \<longleftrightarrow> within g b = Some True"
    "nc_match_single g b = X509_V_ERR_PERMITTED_VIOLATION \<longleftrightarrow> within g b = Some False" by blast+
qed

section \<open>The verdict on a certificate\<close>

text \<open>
  What the constraints ask of one name: every subtree of its kind has no distances, the permitted
  ones, if there are any, are searched up to the first that holds the name, and no excluded
  one holds it.  A subtree that cannot be compared fails the name when it is looked at.
\<close>

definition name_ok :: "name_constraints \<Rightarrow> general_name \<Rightarrow> bool" where
  "name_ok nc g \<longleftrightarrow>
     (let ofkind = filter (\<lambda>s. gtype (sbase s) = gtype g);
          p = ofkind (permittedSubtrees nc); e = ofkind (excludedSubtrees nc)
      in list_all (\<lambda>s. minimum s = None \<and> maximum s = None) (p @ e) \<and>
         (p = [] \<or> (\<exists>ps s qs. p = ps @ s # qs \<and> list_all (\<lambda>s. within g (sbase s) = Some False) ps \<and>
                       within g (sbase s) = Some True)) \<and>
         list_all (\<lambda>s. within g (sbase s) = Some False) e)"

text \<open>The names of a certificate that are constrained.\<close>

definition constrained_names :: "x509 \<Rightarrow> general_name list" where
  "constrained_names x =
     (let nm = subject_name x
      in (if entries nm = [] then [] else [\<lparr>gtype = GEN_DIRNAME, gstr = \<lparr>atype = 0, adata = None\<rparr>, gdir = nm\<rparr>]) @
         map (\<lambda>e. \<lparr>gtype = GEN_EMAIL, gstr = snd e, gdir = nm\<rparr>) (filter (\<lambda>e. fst e = NID_pkcs9_emailAddress) (entries nm)) @
         (case alt_names x of None \<Rightarrow> [] | Some gens \<Rightarrow> gens))"

lemma excluded_loop_ok:
  "excluded_loop g subs = X509_V_OK \<longleftrightarrow>
    list_all (\<lambda>s. minimum s = None \<and> maximum s = None \<and> within g (sbase s) = Some False)
      (filter (\<lambda>s. gtype (sbase s) = gtype g) subs)"
proof (induction subs)
  case (Cons sub subs)
  have c: "X509_V_ERR_SUBTREE_MINMAX \<noteq> X509_V_OK" "X509_V_ERR_EXCLUDED_VIOLATION \<noteq> X509_V_OK" "X509_V_ERR_PERMITTED_VIOLATION \<noteq> X509_V_OK"
    by (simp_all add: verify_consts)
  show ?case
  proof (cases "gtype (sbase sub) = gtype g")
    case True
    show ?thesis
      using True c Cons nc_match_single_eq [of g "sbase sub"] by (auto simp: Let_def)
  qed (use Cons in simp)
qed simp

text \<open>After a match the first loop only checks the distances; before, it looks for the first match.\<close>

lemma permitted_loop_matched:
  "(\<exists>m. permitted_loop g subs 2 = Inr m \<and> m \<noteq> 1) \<longleftrightarrow>
    list_all (\<lambda>s. minimum s = None \<and> maximum s = None) (filter (\<lambda>s. gtype (sbase s) = gtype g) subs)"
  by (induction subs) auto

definition first_match :: "general_name \<Rightarrow> general_subtree list \<Rightarrow> bool" where
  "first_match g p \<longleftrightarrow> (\<exists>ps s qs. p = ps @ s # qs \<and> list_all (\<lambda>s. within g (sbase s) = Some False) ps \<and>
     within g (sbase s) = Some True)"

lemma first_match_Nil [simp]: "\<not> first_match g []"
  by (simp add: first_match_def)

lemma first_match_Cons:
  "first_match g (s # p) \<longleftrightarrow> within g (sbase s) = Some True \<or> within g (sbase s) = Some False \<and> first_match g p"
proof
  assume "first_match g (s # p)"
  then obtain ps t qs where f: "s # p = ps @ t # qs" "list_all (\<lambda>s. within g (sbase s) = Some False) ps"
    "within g (sbase t) = Some True" by (auto simp: first_match_def)
  then show "within g (sbase s) = Some True \<or> within g (sbase s) = Some False \<and> first_match g p"
    by (cases ps) (auto simp: first_match_def)
next
  assume "within g (sbase s) = Some True \<or> within g (sbase s) = Some False \<and> first_match g p"
  then show "first_match g (s # p)"
  proof (elim disjE conjE)
    assume "within g (sbase s) = Some True"
    then show ?thesis unfolding first_match_def by (intro exI [of _ "[]"] exI [of _ s] exI [of _ p]) simp
  next
    assume w: "within g (sbase s) = Some False" and "first_match g p"
    then obtain ps t qs where "p = ps @ t # qs" "list_all (\<lambda>s. within g (sbase s) = Some False) ps"
      "within g (sbase t) = Some True" by (auto simp: first_match_def)
    with w show ?thesis unfolding first_match_def by (intro exI [of _ "s # ps"] exI [of _ t] exI [of _ qs]) simp
  qed
qed

lemma permitted_loop_open:
  "(\<exists>m. permitted_loop g subs 1 = Inr m \<and> m \<noteq> 1) \<longleftrightarrow>
    (let p = filter (\<lambda>s. gtype (sbase s) = gtype g) subs
     in list_all (\<lambda>s. minimum s = None \<and> maximum s = None) p \<and> first_match g p)"
proof (induction subs)
  case (Cons sub subs)
  note m = nc_match_single_eq [of g "sbase sub"]
  have c: "X509_V_ERR_PERMITTED_VIOLATION \<noteq> X509_V_OK" by (simp add: verify_consts)
  show ?case
  proof (cases "gtype (sbase sub) = gtype g \<and> minimum sub = None \<and> maximum sub = None")
    case True
    consider "within g (sbase sub) = Some True" | "within g (sbase sub) = Some False" | "within g (sbase sub) = None" by force
    then show ?thesis
    proof cases
      case 1
      then show ?thesis using True m permitted_loop_matched [of g subs] by (simp add: first_match_Cons)
    next
      case 2
      then show ?thesis using True m c Cons by (simp add: first_match_Cons Let_def)
    next
      case 3
      then show ?thesis using True m by (simp add: first_match_Cons)
    qed
  next
    case False
    then show ?thesis using Cons by (auto simp: Let_def)
  qed
qed simp

lemma permitted_loop_start:
  "(\<exists>m. permitted_loop g subs 0 = Inr m \<and> m \<noteq> 1) \<longleftrightarrow>
    (let p = filter (\<lambda>s. gtype (sbase s) = gtype g) subs
     in list_all (\<lambda>s. minimum s = None \<and> maximum s = None) p \<and> (p = [] \<or> first_match g p))"
proof (induction subs)
  case (Cons sub subs)
  show ?case
  proof (cases "gtype (sbase sub) = gtype g")
    case True
    then have "permitted_loop g (sub # subs) 0 = permitted_loop g (sub # subs) 1" by (simp add: Let_def)
    then show ?thesis using permitted_loop_open [of g "sub # subs"] True by (simp add: Let_def)
  next
    case False
    then show ?thesis using Cons by (simp add: Let_def eq_commute [of "gtype g"])
  qed
qed simp

lemma nc_match_ok: "nc_match g nc = X509_V_OK \<longleftrightarrow> name_ok nc g"
proof -
  have v: "X509_V_ERR_PERMITTED_VIOLATION \<noteq> X509_V_OK" by (simp add: verify_consts)
  have e: "r \<noteq> X509_V_OK" if "permitted_loop g subs m = Inl r" for subs m r
    using that
  proof (induction subs arbitrary: m)
    case (Cons sub subs)
    then show ?case by (auto simp: Let_def verify_consts split: if_splits)
  qed simp
  have "nc_match g nc = X509_V_OK \<longleftrightarrow> (\<exists>m. permitted_loop g (permittedSubtrees nc) 0 = Inr m \<and> m \<noteq> 1) \<and>
      excluded_loop g (excludedSubtrees nc) = X509_V_OK"
    using v e by (auto simp: nc_match_def split: sum.splits)
  then show ?thesis
    unfolding permitted_loop_start excluded_loop_ok name_ok_def first_match_def [symmetric] Let_def list_all_append
    by (auto simp: list_all_iff)
qed

lemma altname_loop_ok: "altname_loop nc gens = X509_V_OK \<longleftrightarrow> list_all (name_ok nc) gens"
  by (induction gens) (auto simp: Let_def nc_match_ok)

lemma next_entry:
  obtains (none) "X509_NAME_get_index_by_NID nm nid i = - 1"
      "\<And>k. k < length (entries nm) \<Longrightarrow> i < int k \<Longrightarrow> fst (entries nm ! k) \<noteq> nid"
  | (found) k where "X509_NAME_get_index_by_NID nm nid i = int k" "k < length (entries nm)" "i < int k" "fst (entries nm ! k) = nid"
      "\<And>j. j < k \<Longrightarrow> i < int j \<Longrightarrow> fst (entries nm ! j) \<noteq> nid"
proof (cases "find (\<lambda>j. fst (entries nm ! j) = nid) [nat ((if i < 0 then - 1 else i) + 1)..<length (entries nm)]")
  case None
  have "fst (entries nm ! k) \<noteq> nid" if "k < length (entries nm)" "i < int k" for k
    using None that by (auto simp: find_None_iff split: if_splits)
  with None show ?thesis by (intro none) (simp_all add: X509_NAME_get_index_by_NID_def Let_def)
next
  case (Some k)
  let ?a = "nat ((if i < 0 then - 1 else i) + 1)"
  from Some obtain j where j: "j < length (entries nm) - ?a" "k = ?a + j" "fst (entries nm ! k) = nid"
    "\<And>l. l < j \<Longrightarrow> fst (entries nm ! (?a + l)) \<noteq> nid"
    by (auto simp: find_Some_iff)
  have "fst (entries nm ! m) \<noteq> nid" if "m < k" "i < int m" for m
    using j(4) [of "m - ?a"] j(2) that by (auto split: if_splits)
  moreover have "i < int k" using j(2) by (auto split: if_splits)
  ultimately show ?thesis
    using Some j by (intro found [of k]) (auto simp: X509_NAME_get_index_by_NID_def Let_def)
qed

definition email_ok :: "name_constraints \<Rightarrow> x509_name \<Rightarrow> asn1_string \<Rightarrow> bool" where
  "email_ok nc nm s \<longleftrightarrow> atype s = V_ASN1_IA5STRING \<and> name_ok nc \<lparr>gtype = GEN_EMAIL, gstr = s, gdir = nm\<rparr>"

lemma email_loop_step:
  "X509_NAME_get_index_by_NID nm NID_pkcs9_emailAddress i = - 1 \<Longrightarrow> email_loop nm nc i = X509_V_OK"
  "X509_NAME_get_index_by_NID nm NID_pkcs9_emailAddress i = int k \<Longrightarrow>
    email_loop nm nc i = X509_V_OK \<longleftrightarrow> email_ok nc nm (snd (entries nm ! k)) \<and> email_loop nm nc (int k) = X509_V_OK"
proof -
  have v: "X509_V_ERR_UNSUPPORTED_NAME_SYNTAX \<noteq> X509_V_OK" by (simp add: verify_consts)
  show "X509_NAME_get_index_by_NID nm NID_pkcs9_emailAddress i = - 1 \<Longrightarrow> email_loop nm nc i = X509_V_OK"
    by (simp add: email_loop.simps [of nm nc i])
  show "X509_NAME_get_index_by_NID nm NID_pkcs9_emailAddress i = int k \<Longrightarrow>
      email_loop nm nc i = X509_V_OK \<longleftrightarrow> email_ok nc nm (snd (entries nm ! k)) \<and> email_loop nm nc (int k) = X509_V_OK"
    by (simp add: email_loop.simps [of nm nc i] Let_def email_ok_def nc_match_ok v)
qed

lemma email_loop_ok:
  "email_loop nm nc i = X509_V_OK \<longleftrightarrow>
    (\<forall>k < length (entries nm). i < int k \<longrightarrow> fst (entries nm ! k) = NID_pkcs9_emailAddress \<longrightarrow> email_ok nc nm (snd (entries nm ! k)))"
proof (induction "length (entries nm) - nat (i + 1)" arbitrary: i rule: less_induct)
  case less
  show ?case
  proof (cases rule: next_entry [of nm NID_pkcs9_emailAddress i])
    case none
    then show ?thesis using email_loop_step(1) by auto
  next
    case (found k)
    have "length (entries nm) - nat (int k + 1) < length (entries nm) - nat (i + 1)" using found(2,3) by linarith
    note IH = less [OF this]
    show ?thesis
      unfolding email_loop_step(2) [OF found(1)] IH
    proof (intro iffI conjI allI impI)
      fix j
      assume a: "email_ok nc nm (snd (entries nm ! k)) \<and> (\<forall>j < length (entries nm). int k < int j \<longrightarrow>
          fst (entries nm ! j) = NID_pkcs9_emailAddress \<longrightarrow> email_ok nc nm (snd (entries nm ! j)))"
        and j: "j < length (entries nm)" "i < int j" "fst (entries nm ! j) = NID_pkcs9_emailAddress"
      then consider "j = k" | "k < j" using found(5) [of j] by (metis linorder_neqE_nat)
      then show "email_ok nc nm (snd (entries nm ! j))" by cases (use a j in auto)
    qed (use found in auto)
  qed
qed

lemma check_count_exact:
  fixes n a p e :: nat
  assumes "n < 2 ^ 63" and "a < 2 ^ 63" and "p < 2 ^ 63" and "e < 2 ^ 63"
  defines "N \<equiv> (n + a) mod 2 ^ 64" and "C \<equiv> (p + e) mod 2 ^ 64"
  shows "(N < n \<or> C < p \<or> (C \<noteq> 0 \<and> (C * N) mod 2 ^ 64 div C \<noteq> N) \<or> (C * N) mod 2 ^ 64 > 2 ^ 20) \<longleftrightarrow> \<not> (p + e) * (n + a) \<le> 2 ^ 20"
proof -
  have N: "N = n + a" and C: "C = p + e" using assms(1-4) by (simp_all add: N_def C_def)
  show ?thesis
  proof (cases "C * N < 2 ^ 64")
    case True
    then have m: "(C * N) mod 2 ^ 64 = C * N" by simp
    show ?thesis unfolding m using N C by (auto simp: not_le)
  next
    case False
    then have c: "C \<noteq> 0" by (cases "C = 0") simp_all
    have "(C * N) mod 2 ^ 64 div C \<noteq> N"
    proof
      assume "(C * N) mod 2 ^ 64 div C = N"
      then have "C * N \<le> (C * N) mod 2 ^ 64" by (metis mult.commute div_times_less_eq_dividend)
      moreover have "(C * N) mod 2 ^ 64 < 2 ^ 64" by simp
      ultimately show False using False by linarith
    qed
    moreover have "\<not> (p + e) * (n + a) \<le> 2 ^ 20" using False unfolding N C by simp
    ultimately show ?thesis using c by blast
  qed
qed


text \<open>A certificate for \<open>w.a.bc\<close> under constraints that permit \<open>a.bc\<close>.\<close>

definition permit_cert :: x509 where
  "permit_cert = \<lparr>subject_name = \<lparr>entries = [], canon_enc = None\<rparr>,
     alt_names = Some [\<lparr>gtype = GEN_DNS, gstr = \<lparr>atype = V_ASN1_IA5STRING, adata = Some [119, 46, 65, 46, 98, 99]\<rparr>,
       gdir = \<lparr>entries = [], canon_enc = None\<rparr>\<rparr>]\<rparr>"

definition permit_a_bc :: name_constraints where
  "permit_a_bc = \<lparr>permittedSubtrees =
      [\<lparr>sbase = \<lparr>gtype = GEN_DNS, gstr = \<lparr>atype = V_ASN1_IA5STRING, adata = Some [97, 46, 98, 99]\<rparr>,
        gdir = \<lparr>entries = [], canon_enc = None\<rparr>\<rparr>, minimum = None, maximum = None\<rparr>],
     excludedSubtrees = []\<rparr>"

lemma permit_runs:
  "NAME_CONSTRAINTS_check permit_cert permit_a_bc = X509_V_OK"
  "NAME_CONSTRAINTS_check permit_cert \<lparr>permittedSubtrees = [], excludedSubtrees = permittedSubtrees permit_a_bc\<rparr> =
    X509_V_ERR_EXCLUDED_VIOLATION"
  by code_simp+


end
